(* ===== verification/Kernel_Prelude.thy ===== *)
theory Kernel_Prelude
  imports Main "HOL-Library.Word"
begin

section \<open>Prelude: machine integers, faults and the error-passing style\<close>

text \<open>
  Shared vocabulary of the development.
  \<^item> \<open>u8\<close> ... \<open>u64\<close> name the fixed-width integers of \<open>stdint.h\<close>; \<open>+\<close>, \<open>-\<close> and \<open>*\<close> on them
    wrap around as in C.
  \<^item> A kernel routine that can stop without returning (a null or wild dereference, a spin lock
    that is never released, \<open>panic\<close>) returns a value of \<open>'a result\<close>; \<open>Inl\<close> carries the reason.
    \<open>ebind\<close> is the sequencing of C statements in that style.
  \<^item> Error \<^emph>\<open>codes\<close> (\<open>-EINVAL\<close>, \<open>-ENOENT\<close>, ...) are ordinary \<open>int\<close> return values, as in C.
  The lemmas below are the generic facts on words, lists and \<open>ebind\<close> the components share.
\<close>

unbundle bit_operations_syntax

type_synonym u8 = "8 word"
type_synonym u16 = "16 word"
type_synonym u32 = "32 word"
type_synonym u64 = "64 word"

subsection \<open>Faults and sequencing\<close>

datatype fault =
    NullDeref            \<comment> \<open>a null pointer is dereferenced\<close>
  | BadAccess            \<comment> \<open>an access outside the object it is meant for\<close>
  | Deadlock             \<comment> \<open>\<open>acquire\<close> spins on a lock nobody releases\<close>
  | Panic string         \<comment> \<open>\<open>panic(msg)\<close>: print and halt\<close>
  | NoFuel               \<comment> \<open>a loop that runs longer than the fuel given\<close>

type_synonym 'a result = "fault + 'a"

definition ebind :: "'a result \<Rightarrow> ('a \<Rightarrow> 'b result) \<Rightarrow> 'b result" where
  "ebind m f = (case m of Inl e \<Rightarrow> Inl e | Inr x \<Rightarrow> f x)"

named_theorems ebind_intros \<open>introduction rules for runs of sequenced statements\<close>

lemma ebind_Inl [simp]: "ebind (Inl e) f = Inl e"
  by (simp add: ebind_def)

lemma ebind_Inr [simp]: "ebind (Inr x) f = f x"
  by (simp add: ebind_def)

lemma ebind_eq_Inr: "ebind m f = Inr y \<longleftrightarrow> (\<exists>x. m = Inr x \<and> f x = Inr y)"
  by (cases m) auto

lemma ebind_eq_Inl: "ebind m f = Inl e \<longleftrightarrow> m = Inl e \<or> (\<exists>x. m = Inr x \<and> f x = Inl e)"
  by (cases m) auto

lemma ebind_assoc: "ebind (ebind m f) g = ebind m (\<lambda>x. ebind (f x) g)"
  by (cases m) auto

lemma ebind_cong [fundef_cong]:
  "m = m' \<Longrightarrow> (\<And>x. m' = Inr x \<Longrightarrow> f x = f' x) \<Longrightarrow> ebind m f = ebind m' f'"
  by (cases m') auto

lemma ebind_split:
  "P (ebind m f) = ((\<forall>e. m = Inl e \<longrightarrow> P (Inl e)) \<and> (\<forall>x. m = Inr x \<longrightarrow> P (f x)))"
  by (cases m) auto

text \<open>The congruence that keeps the simplifier out of the statements that follow.\<close>

lemma ebind_arg_cong: "m = m' \<Longrightarrow> ebind m f = ebind m' f"
  by simp

text \<open>A weakest-precondition style for facts that hold of every result of a run.\<close>

definition ensures :: "('a \<Rightarrow> bool) \<Rightarrow> 'a result \<Rightarrow> bool" where
  "ensures Q r \<longleftrightarrow> (\<forall>x. r = Inr x \<longrightarrow> Q x)"

lemma ensures_intros:
  "ensures Q (Inl e)" "Q x \<Longrightarrow> ensures Q (Inr x)" "(\<And>x. ensures Q (f x)) \<Longrightarrow> ensures Q (ebind m f)"
  "ensures Q a \<Longrightarrow> ensures Q b \<Longrightarrow> ensures Q (if c then a else b)"
  "(\<And>x y. ensures Q (g x y)) \<Longrightarrow> ensures Q (case z of (x, y) \<Rightarrow> g x y)"
  by (auto simp: ensures_def ebind_eq_Inr split: prod.splits)

text \<open>Runs that do not end for want of fuel.\<close>

definition fuel_ok :: "'a result \<Rightarrow> bool" where
  "fuel_ok r \<longleftrightarrow> r \<noteq> Inl NoFuel"

lemma fuel_ok_intros:
  "e \<noteq> NoFuel \<Longrightarrow> fuel_ok (Inl e)" "fuel_ok (Inr x)" "fuel_ok m \<Longrightarrow> (\<And>x. m = Inr x \<Longrightarrow> fuel_ok (f x)) \<Longrightarrow> fuel_ok (ebind m f)"
  "(c \<Longrightarrow> fuel_ok a) \<Longrightarrow> (\<not> c \<Longrightarrow> fuel_ok b) \<Longrightarrow> fuel_ok (if c then a else b)"
  "(\<And>x y. z = (x, y) \<Longrightarrow> fuel_ok (g x y)) \<Longrightarrow> fuel_ok (case z of (x, y) \<Rightarrow> g x y)"
  by (auto simp: fuel_ok_def ebind_eq_Inl split: prod.splits)

lemma ebindE:
  assumes "ebind m f = Inr y"
  obtains x where "m = Inr x" and "f x = Inr y"
  using assms by (auto simp: ebind_eq_Inr)

lemma result_cases: "\<lbrakk> \<And>e. r = Inl e \<Longrightarrow> P; \<And>x. r = Inr x \<Longrightarrow> P \<rbrakk> \<Longrightarrow> P"
  by (cases r) auto

subsection \<open>Pages\<close>

text \<open>\<open>PGSIZE\<close> of \<^verbatim>\<open>include/franklin/mmu.h\<close>.\<close>

abbreviation PGSIZE :: nat where "PGSIZE \<equiv> 4096"

text \<open>\<open>DIV_ROUNDUP\<close>, \<open>ALIGN_UP\<close> and \<open>ALIGN_DOWN\<close> of \<^verbatim>\<open>include/franklin/misc.h\<close>, on 64-bit operands.\<close>

definition DIV_ROUNDUP :: "u64 \<Rightarrow> u64 \<Rightarrow> u64" where
  "DIV_ROUNDUP n d = (n + d - 1) div d"

definition ALIGN_UP :: "u64 \<Rightarrow> u64 \<Rightarrow> u64" where
  "ALIGN_UP n d = DIV_ROUNDUP n d * d"

definition ALIGN_DOWN :: "u64 \<Rightarrow> u64 \<Rightarrow> u64" where
  "ALIGN_DOWN n d = (n div d) * d"

subsection \<open>Error codes\<close>

text \<open>The codes of \<^verbatim>\<open>errno.h\<close> that the kernel returns (negated).\<close>

definition ENOENT :: int where "ENOENT = 2"
definition EBUSY :: int where "EBUSY = 16"
definition EEXIST :: int where "EEXIST = 17"
definition ENOTDIR :: int where "ENOTDIR = 20"
definition EISDIR :: int where "EISDIR = 21"
definition EINVAL :: int where "EINVAL = 22"
definition ENOTEMPTY :: int where "ENOTEMPTY = 39"

lemmas errno_defs = ENOENT_def EBUSY_def EEXIST_def ENOTDIR_def EISDIR_def EINVAL_def ENOTEMPTY_def

subsection \<open>Generic lemmas\<close>

lemma unat_add_no_wrap:
  fixes a b :: "'a::len word"
  assumes "unat a + unat b < 2 ^ LENGTH('a)"
  shows "unat (a + b) = unat a + unat b"
  using assms by (simp add: unat_word_ariths)

lemma unat_of_nat_64: "n < 2 ^ 64 \<Longrightarrow> unat (of_nat n :: u64) = n"
  by (simp add: unat_of_nat)

lemma of_nat_inj_64: "m < 2 ^ 64 \<Longrightarrow> n < 2 ^ 64 \<Longrightarrow> (of_nat m :: u64) = of_nat n \<longleftrightarrow> m = n"
  by (metis unat_of_nat_64)

lemma unat_div_word: "unat ((a :: 'a::len word) div b) = unat a div unat b"
  by (simp add: unat_div)

lemma unat_DIV_ROUNDUP:
  assumes d: "0 < unat d" and nowrap: "unat n + unat d \<le> 2 ^ 64"
  shows "unat (DIV_ROUNDUP n d) = (unat n + unat d - 1) div unat d"
proof -
  have "unat (n + d - 1) = unat n + unat d - 1"
  proof -
    have "n + d - 1 = of_nat (unat n + unat d - 1)"
      using d by (simp add: of_nat_diff)
    moreover have "unat n + unat d - 1 < 2 ^ 64"
      using d nowrap by simp
    ultimately show ?thesis by (simp only: unat_of_nat_64)
  qed
  then show ?thesis by (simp add: DIV_ROUNDUP_def unat_div)
qed

lemma div_mod_8_of_64: "n div 64 * 8 + n mod 64 div 8 = n div 8" for n :: nat
proof -
  have "n mod 64 = 8 * (n div 8 mod 8) + n mod 8" using mod_mult2_eq [of n 8 8] by simp
  moreover have "n div 64 = n div 8 div 8" by (simp add: div_mult2_eq [symmetric])
  ultimately show ?thesis by simp
qed

lemma div_mod_8_interval:
  "8 * m \<le> n \<Longrightarrow> n < 8 * m + 8 \<Longrightarrow> n div 8 = m \<and> n mod 8 = n - 8 * m" for n :: nat
  using div_nat_eqI [of 8 m n] minus_mult_div_eq_mod [of n 8] by auto

lemma and_push_bit_eq_0: "w AND push_bit k 1 = 0 \<longleftrightarrow> \<not> bit w k" for w :: "'a::len word"
  by (simp only: bit_iff_and_push_bit_not_eq_0 not_not)

lemma and_power_eq_0: "w AND 2 ^ k = 0 \<longleftrightarrow> \<not> bit w k" for w :: "'a::len word"
  using and_push_bit_eq_0 [of w k] by (simp only: push_bit_of_1)

lemma mod_8_of_64: "(n * 64 + k) mod 8 = k mod 8" for n k :: nat
proof -
  have "n * 64 + k = k + n * 8 * 8" by simp
  then show ?thesis by (simp only: mod_mult_self1)
qed

lemma interval_bounded:
  fixes p n m :: nat
  assumes "\<forall>k \<in> {p..<p + n}. k < m" and "n \<noteq> 0"
  shows "p + n \<le> m"
proof -
  have "p + n - 1 \<in> {p..<p + n}" using assms(2) by auto
  with assms(1) have "p + n - 1 < m" by blast
  then show ?thesis by simp
qed

lemma ex_nat_0_Suc: "(\<exists>i. P i) \<longleftrightarrow> P 0 \<or> (\<exists>i. P (Suc i))"
  by (metis not0_implies_Suc)

lemma all_nat_0_Suc: "(\<forall>i. P i) \<longleftrightarrow> P 0 \<and> (\<forall>i. P (Suc i))"
  by (metis not0_implies_Suc)

lemma find_append: "find P (xs @ ys) = (case find P xs of None \<Rightarrow> find P ys | Some x \<Rightarrow> Some x)"
  by (induction xs) auto

lemma find_map: "find P (map f xs) = map_option f (find (\<lambda>x. P (f x)) xs)"
  by (induction xs) simp_all

end
