(* ===== verification/Spinlock.thy ===== *)
theory Spinlock
  imports Kernel_Prelude
begin

section \<open>Spin locks (kernel/spinlock.c)\<close>

text \<open>
  A lock is a \<open>uint32_t\<close> holding 0 (free) or 1 (taken).  The routines are modelled twice.
  \<^item> \<open>acquire\<close>, \<open>release\<close>, \<open>trylock\<close>, \<open>init_lock\<close> and \<open>init_and_acquire\<close> are the sequential view the other
    components use: with no other thread running, \<open>acquire\<close> of a taken lock spins for ever, the
    fault \<open>Deadlock\<close>.
  \<^item> \<open>spin_step\<close> is the concurrent view: any number of threads, each executing one atomic exchange,
    store or critical-section step at a time, in any order.  Mutual exclusion is an invariant of
    its reachable states.
\<close>

subsection \<open>The routines\<close>

definition atomic_exchange :: "u32 \<Rightarrow> u32 \<Rightarrow> u32 \<times> u32" where
  \<comment> \<open>the old contents of the cell, and its new contents\<close>
  "atomic_exchange cell v = (cell, v)"

definition acquire :: "u32 \<Rightarrow> u32 result" where
  "acquire lock =
     (let (old, lock') = atomic_exchange lock 1
      in if old = 0 then Inr lock' else Inl Deadlock)"

definition release :: "u32 \<Rightarrow> u32" where
  "release lock = 0"

definition trylock :: "u32 \<Rightarrow> u32" where
  \<comment> \<open>copies the cell into a local variable and returns it; the lock is not changed\<close>
  "trylock lock = (let v = lock in v)"

definition init_lock :: "u32 \<Rightarrow> u32" where
  "init_lock lock = 0"

definition init_and_acquire :: "u32 \<Rightarrow> u32 result" where
  "init_and_acquire lock = acquire (init_lock lock)"

lemma acquire_free [simp]: "acquire 0 = Inr 1"
  by (simp add: acquire_def atomic_exchange_def)

lemma acquire_taken [simp]: "l \<noteq> 0 \<Longrightarrow> acquire l = Inl Deadlock"
  by (simp add: acquire_def atomic_exchange_def)

lemma acquire_eq_Inr: "acquire l = Inr l' \<longleftrightarrow> l = 0 \<and> l' = 1"
  by (cases "l = 0") auto

lemma release_0 [simp]: "release l = 0"
  by (simp add: release_def)

lemma init_and_acquire_ok [simp]: "init_and_acquire l = Inr 1"
  by (simp add: init_and_acquire_def init_lock_def)

subsection \<open>Threads that contend for one lock\<close>

datatype thread_pc =
    Outside      \<comment> \<open>not using the lock\<close>
  | Spinning     \<comment> \<open>inside the \<open>while\<close> loop of \<open>acquire\<close>\<close>
  | Critical     \<comment> \<open>\<open>acquire\<close> has returned, \<open>release\<close> has not been called\<close>

record spin_sys =
  lock_cell :: u32
  tpc :: "nat \<Rightarrow> thread_pc"

definition spin_init :: spin_sys where
  "spin_init = \<lparr>lock_cell = init_lock 1, tpc = (\<lambda>_. Outside)\<rparr>"

inductive spin_step :: "spin_sys \<Rightarrow> nat \<Rightarrow> spin_sys \<Rightarrow> bool" where
  call_acquire:
    "tpc s t = Outside \<Longrightarrow> spin_step s t (s\<lparr>tpc := (tpc s)(t := Spinning)\<rparr>)"
| exchange_busy:
    "tpc s t = Spinning \<Longrightarrow> atomic_exchange (lock_cell s) 1 = (old, new) \<Longrightarrow> old \<noteq> 0 \<Longrightarrow>
     spin_step s t (s\<lparr>lock_cell := new\<rparr>)"
| exchange_won:
    "tpc s t = Spinning \<Longrightarrow> atomic_exchange (lock_cell s) 1 = (old, new) \<Longrightarrow> old = 0 \<Longrightarrow>
     spin_step s t (s\<lparr>lock_cell := new, tpc := (tpc s)(t := Critical)\<rparr>)"
| call_release:
    "tpc s t = Critical \<Longrightarrow>
     spin_step s t (s\<lparr>lock_cell := release (lock_cell s), tpc := (tpc s)(t := Outside)\<rparr>)"

inductive spin_reachable :: "spin_sys \<Rightarrow> bool" where
  spin_start: "spin_reachable spin_init"
| spin_next: "spin_reachable s \<Longrightarrow> spin_step s t s' \<Longrightarrow> spin_reachable s'"

text \<open>The inductive strengthening of mutual exclusion: the cell tells whether a thread is inside.\<close>

definition spin_inv :: "spin_sys \<Rightarrow> bool" where
  "spin_inv s \<longleftrightarrow>
     lock_cell s \<in> {0, 1} \<and>
     (lock_cell s = 0 \<longrightarrow> (\<forall>t. tpc s t \<noteq> Critical)) \<and>
     (\<forall>t u. tpc s t = Critical \<longrightarrow> tpc s u = Critical \<longrightarrow> t = u) \<and>
     (lock_cell s = 1 \<longrightarrow> (\<exists>t. tpc s t = Critical))"

lemma spin_inv_init: "spin_inv spin_init"
  by (simp add: spin_inv_def spin_init_def init_lock_def)

lemma spin_step_inv:
  assumes "spin_step s t s'" and "spin_inv s"
  shows "spin_inv s'"
  using assms(1)
proof (cases rule: spin_step.cases)
  case call_acquire
  with assms(2) show ?thesis
    by (auto simp: spin_inv_def) (metis thread_pc.distinct(3))
next
  case (exchange_busy old new)
  with assms(2) show ?thesis
    by (auto simp: spin_inv_def atomic_exchange_def)
next
  case (exchange_won old new)
  with assms(2) show ?thesis
    by (auto simp: spin_inv_def atomic_exchange_def)
next
  case call_release
  with assms(2) show ?thesis
    by (auto simp: spin_inv_def)
qed

lemma spin_reachable_inv: "spin_reachable s \<Longrightarrow> spin_inv s"
  by (induction rule: spin_reachable.induct) (auto intro: spin_inv_init spin_step_inv)

lemma spin_first_critical:
  "spin_reachable (spin_init\<lparr>lock_cell := 1, tpc := (\<lambda>_. Outside)(0 := Critical)\<rparr>)"
proof -
  let ?s1 = "spin_init\<lparr>tpc := (tpc spin_init)(0 := Spinning)\<rparr>"
  have "spin_reachable ?s1"
    by (rule spin_next [OF spin_start], rule call_acquire) (simp add: spin_init_def)
  moreover have "spin_step ?s1 0 (?s1\<lparr>lock_cell := 1, tpc := (tpc ?s1)(0 := Critical)\<rparr>)"
    by (rule exchange_won [where old = 0]) (simp_all add: spin_init_def atomic_exchange_def init_lock_def)
  ultimately have "spin_reachable (?s1\<lparr>lock_cell := 1, tpc := (tpc ?s1)(0 := Critical)\<rparr>)"
    by (rule spin_next)
  then show ?thesis by (simp add: spin_init_def)
qed

text \<open>
  C30 (mutual exclusion).  In every state that threads executing \<open>acquire\<close> and \<open>release\<close> on one lock
  can reach, at most one thread is between the return of \<open>acquire\<close> and its \<open>release\<close>.
\<close>
theorem spinlock_mutual_exclusion:
  assumes "spin_reachable s" and "tpc s t = Critical" and "tpc s u = Critical"
  shows "t = u"
  using spin_reachable_inv [OF assms(1)] assms(2,3) by (auto simp: spin_inv_def)

theorem spinlock_mutual_exclusion_witness:
  "\<exists>s. spin_reachable s \<and> tpc s 0 = Critical \<and> (\<forall>u. tpc s u = Critical \<longrightarrow> (0::nat) = u)"
proof -
  let ?s = "spin_init\<lparr>lock_cell := 1, tpc := (\<lambda>_. Outside)(0 := Critical)\<rparr>"
  have c: "tpc ?s 0 = Critical" by simp
  from spinlock_mutual_exclusion [OF spin_first_critical c]
  have "\<forall>u. tpc ?s u = Critical \<longrightarrow> (0::nat) = u" by blast
  with spin_first_critical c show ?thesis by blast
qed

text \<open>
  The lock is never lost: In every reachable state where no thread is inside its critical
  section, any thread spinning in \<open>acquire\<close> enters with its next atomic exchange.
\<close>
lemma spinlock_no_lost_lock:
  assumes "spin_reachable s" and "tpc s t = Spinning" and "\<forall>u. tpc s u \<noteq> Critical"
  shows "\<exists>s'. spin_step s t s' \<and> tpc s' t = Critical \<and> spin_reachable s'"
proof -
  have "lock_cell s = 0"
    using spin_reachable_inv [OF assms(1)] assms(3) by (auto simp: spin_inv_def)
  then have "spin_step s t (s\<lparr>lock_cell := 1, tpc := (tpc s)(t := Critical)\<rparr>)"
    using assms(2) by (intro exchange_won) (simp_all add: atomic_exchange_def)
  with assms(1) show ?thesis by (force intro: spin_next)
qed

end
