(* ===== verification/Mmu.thy ===== *)
theory Mmu
  imports Kernel_Prelude
begin

section \<open>Physical and virtual addresses (kernel/vmm.c, include/franklin/mmu.h)\<close>

text \<open>
  The bootloader maps all physical memory at \<open>HHDM_OFFSET\<close> (defined in \<^verbatim>\<open>kernel/limine.h\<close>); \<open>P2V\<close> and
  \<open>V2P\<close> translate between the two views with 64-bit wrap-around arithmetic.
\<close>

definition HHDM_OFFSET :: u64 where
  "HHDM_OFFSET = 0xffff800000000000"

definition V2P :: "u64 \<Rightarrow> u64" where
  "V2P V = V - HHDM_OFFSET"

definition P2V :: "u64 \<Rightarrow> u64" where
  "P2V P = P + HHDM_OFFSET"

lemma V2P_P2V [simp]: "V2P (P2V p) = p"
  by (simp add: V2P_def P2V_def)

lemma P2V_V2P [simp]: "P2V (V2P v) = v"
  by (simp add: V2P_def P2V_def)

lemma P2V_inj [simp]: "P2V p = P2V q \<longleftrightarrow> p = q"
  by (simp add: P2V_def)

lemma P2V_plus: "P2V p + d = P2V (p + d)"
  by (simp add: P2V_def)

subsection \<open>Pages of the direct map\<close>

text \<open>
  The frame behind an address of the direct map, and the addresses at which a page starts.  A pointer into
  a page is its start plus an offset below \<open>PGSIZE\<close>; such pointers are equal only if page and offset are.
\<close>

definition vframe :: "u64 \<Rightarrow> nat" where
  "vframe v = unat (V2P v) div PGSIZE"

definition page_base :: "u64 \<Rightarrow> bool" where
  "page_base v \<longleftrightarrow> unat (V2P v) mod PGSIZE = 0"

lemma V2P_plus: "V2P (v + d) = V2P v + d"
  by (simp add: V2P_def)

lemma page_base_P2V [simp]: "page_base (P2V p) \<longleftrightarrow> unat p mod PGSIZE = 0"
  by (simp add: page_base_def)

lemma vframe_P2V [simp]: "vframe (P2V p) = unat p div PGSIZE"
  by (simp add: vframe_def)

lemma aligned_plus_offset:
  fixes a d :: u64
  assumes "unat a mod PGSIZE = 0" and "unat d < PGSIZE"
  shows "unat (a + d) = unat a + unat d"
proof -
  obtain k where k: "unat a = 4096 * k" using assms(1) by (auto simp: mod_eq_0_iff_dvd)
  have "unat a < 2 ^ 64" using unsigned_less [of a, where ?'a = nat] by simp
  then have "4096 * k < 4096 * 2 ^ 52" using k by simp
  then have "k + 1 \<le> 2 ^ 52" by simp
  then have "4096 * (k + 1) \<le> 4096 * 2 ^ 52" by (rule mult_le_mono2)
  then have "unat a + unat d < 2 ^ 64" using k assms(2) by simp
  then show ?thesis by (intro unat_add_no_wrap) simp
qed

lemma unat_V2P_offset:
  assumes "page_base a" and "unat d < PGSIZE"
  shows "unat (V2P (a + d)) = unat (V2P a) + unat d"
  using assms by (simp add: V2P_plus page_base_def aligned_plus_offset)

lemma vframe_offset:
  assumes "page_base a" and "unat d < PGSIZE"
  shows "vframe (a + d) = vframe a"
proof -
  obtain k where "unat (V2P a) = 4096 * k" using assms(1) by (auto simp: page_base_def mod_eq_0_iff_dvd)
  then show ?thesis using assms by (simp add: vframe_def unat_V2P_offset)
qed

lemma page_base_eq_iff:
  assumes "page_base a" and "page_base b"
  shows "a = b \<longleftrightarrow> vframe a = vframe b"
proof
  assume "vframe a = vframe b"
  with assms have "unat (V2P a) = unat (V2P b)"
    unfolding vframe_def page_base_def by (metis mod_0_imp_dvd dvd_div_eq_iff)
  then have "V2P a = V2P b" by (simp add: word_unat_eq_iff)
  then show "a = b" by (simp add: V2P_def)
qed simp

lemma page_offset_eq_iff:
  assumes "page_base a" "unat d < PGSIZE" and "page_base b" "unat e < PGSIZE"
  shows "a + d = b + e \<longleftrightarrow> a = b \<and> d = e"
proof
  assume eq: "a + d = b + e"
  then have "vframe a = vframe b" using assms vframe_offset by metis
  then have "a = b" using assms page_base_eq_iff by blast
  with eq show "a = b \<and> d = e" by simp
qed simp

lemma page_base_and_fff: "page_base v \<longleftrightarrow> v AND 0xfff = 0"
proof -
  have m: "(0xfff :: u64) = mask 12" by (simp add: mask_eq_exp_minus_1)
  have "v AND 0xfff = take_bit 12 v" unfolding m by (simp only: take_bit_eq_mask)
  then have "unat (v AND 0xfff) = unat v mod PGSIZE"
    by (simp add: take_bit_eq_mod unat_mod)
  moreover have "unat v = (unat (V2P v) + 0xffff800000000000) mod 2 ^ 64"
  proof -
    have "v = V2P v + HHDM_OFFSET" by (simp add: V2P_def)
    then have "unat v = unat (V2P v + HHDM_OFFSET)" by (rule arg_cong)
    then show ?thesis by (simp add: unat_word_ariths HHDM_OFFSET_def)
  qed
  then have "unat v mod PGSIZE = (unat (V2P v) + 0xffff800000000000) mod PGSIZE"
    by (simp add: mod_mod_cancel)
  then have "unat v mod PGSIZE = unat (V2P v) mod PGSIZE" by (simp add: mod_add_eq [symmetric])
  ultimately show ?thesis by (metis page_base_def unat_eq_0)
qed

text \<open>The direct map proper: below \<open>2 ^ 47\<close> translation does not wrap around and never gives the null pointer.\<close>

lemma unat_P2V:
  assumes "unat p < 2 ^ 47"
  shows "unat (P2V p) = unat p + 0xffff800000000000"
  using assms by (simp add: P2V_def HHDM_OFFSET_def unat_word_ariths)

lemma P2V_nonzero:
  assumes "unat p < 2 ^ 47"
  shows "P2V p \<noteq> 0"
  using unat_P2V [OF assms] by auto

definition dm_page :: "u64 \<Rightarrow> bool" where
  "dm_page a \<longleftrightarrow> page_base a \<and> 0xffff800000000000 \<le> unat a \<and> unat a + 8 * PGSIZE < 2 ^ 64"

lemma dm_page_P2V:
  assumes "unat p mod PGSIZE = 0" and "unat p + 8 * PGSIZE < 2 ^ 47"
  shows "dm_page (P2V p)"
  using assms by (simp add: dm_page_def unat_P2V)

lemma dm_page_base [dest]: "dm_page a \<Longrightarrow> page_base a"
  by (simp add: dm_page_def)

lemma dm_page_nonzero: "dm_page a \<Longrightarrow> a \<noteq> 0"
  by (auto simp: dm_page_def)

lemma dm_page_offset:
  assumes "dm_page a" and "d \<le> 8 * PGSIZE"
  shows "unat (a + of_nat d) = unat a + d"
proof -
  have "unat (of_nat d :: u64) = d" using assms(2) by (intro unat_of_nat_64) simp
  with assms show ?thesis by (subst unat_add_no_wrap) (auto simp: dm_page_def)
qed

lemma dm_page_offset_nonzero:
  assumes "dm_page a" and "d \<le> 8 * PGSIZE"
  shows "a + of_nat d \<noteq> 0"
  using dm_page_offset [OF assms] assms(1) by (auto simp: dm_page_def)

end
