(* ===== verification/Page_Allocator.thy ===== *)
theory Page_Allocator
  imports Kernel_Prelude
begin

section \<open>The contract of a page-frame allocator\<close>

text \<open>
  What the virtual memory manager, the slab allocator and the process code rely on when they call
  \<open>palloc\<close> and \<open>freepg\<close>: an allocation returns the address of frames nobody holds and marks exactly
  those, a release unmarks exactly the frames named.  The clients' lemmas are proved here once, from
  the contract; \<^verbatim>\<open>Pmm\<close> interprets the locale on the bitmap allocator.
\<close>

text \<open>The frame numbers an allocation of \<open>n\<close> pages at address \<open>a\<close> covers.\<close>

definition frames :: "u64 \<Rightarrow> nat \<Rightarrow> nat set" where
  "frames a n = {unat a div 4096..<unat a div 4096 + n}"

lemma frames_Suc:
  "frames a (Suc n) = insert (unat a div 4096 + n) (frames a n)" "unat a div 4096 + n \<notin> frames a n"
  by (simp_all add: frames_def atLeastLessThanSuc)

text \<open>A sequence of allocations, as a caller issues them one after the other.\<close>

fun alloc_run :: "(nat \<Rightarrow> 's \<Rightarrow> (u64 \<times> 's) result) \<Rightarrow> nat list \<Rightarrow> 's \<Rightarrow> (u64 list \<times> 's) result" where
  "alloc_run al [] s = Inr ([], s)"
| "alloc_run al (n # ns) s =
     ebind (al n s) (\<lambda>(a, s). ebind (alloc_run al ns s) (\<lambda>(as, s). Inr (a # as, s)))"

locale page_allocator =
  fixes alloc :: "nat \<Rightarrow> 's \<Rightarrow> (u64 \<times> 's) result"
    and dealloc :: "u64 \<Rightarrow> u32 \<Rightarrow> 's \<Rightarrow> 's result"
    and used :: "'s \<Rightarrow> nat set"
    and wf :: "'s \<Rightarrow> bool"
  assumes alloc_wf: "wf s \<Longrightarrow> alloc n s = Inr (a, s') \<Longrightarrow> wf s'"
    and alloc_aligned: "wf s \<Longrightarrow> alloc n s = Inr (a, s') \<Longrightarrow> unat a mod 4096 = 0"
    and alloc_fresh: "wf s \<Longrightarrow> alloc n s = Inr (a, s') \<Longrightarrow> frames a n \<inter> used s = {}"
    and alloc_used: "wf s \<Longrightarrow> alloc n s = Inr (a, s') \<Longrightarrow> used s' = used s \<union> frames a n"
    and dealloc_used: "wf s \<Longrightarrow> frames a (unat k) \<subseteq> used s \<Longrightarrow>
      \<exists>s'. dealloc a k s = Inr s' \<and> wf s' \<and> used s' = used s - frames a (unat k)"
begin

lemma alloc_then_dealloc:
  assumes "wf s" and "alloc (unat n) s = Inr (a, s1)"
  shows "\<exists>s2. dealloc a n s1 = Inr s2 \<and> wf s2 \<and> used s2 = used s"
proof -
  have "frames a (unat n) \<subseteq> used s1" and "used s1 - frames a (unat n) = used s"
    using alloc_used [OF assms] alloc_fresh [OF assms] by auto
  with dealloc_used [OF alloc_wf [OF assms]] show ?thesis by fastforce
qed

lemma two_allocs_disjoint:
  assumes "wf s" and "alloc m s = Inr (a, s1)" and "alloc n s1 = Inr (b, s2)"
  shows "frames a m \<inter> frames b n = {}"
  using alloc_used [OF assms(1,2)] alloc_fresh [OF alloc_wf [OF assms(1,2)] assms(3)] by auto

lemma alloc_run_spec:
  "wf s \<Longrightarrow> alloc_run alloc ns s = Inr (as, s') \<Longrightarrow>
     wf s' \<and> length as = length ns \<and>
     used s' = used s \<union> (\<Union>i < length ns. frames (as ! i) (ns ! i)) \<and>
     (\<forall>i < length ns. frames (as ! i) (ns ! i) \<inter> used s = {}) \<and>
     (\<forall>j < length ns. \<forall>i < j. frames (as ! i) (ns ! i) \<inter> frames (as ! j) (ns ! j) = {})"
proof (induction ns arbitrary: s as)
  case (Cons n ns)
  from Cons.prems(2) obtain a s1 as1 where
    a: "alloc n s = Inr (a, s1)" and r: "alloc_run alloc ns s1 = Inr (as1, s')" and as: "as = a # as1"
    by (auto simp: ebind_eq_Inr)
  note IH = Cons.IH [OF alloc_wf [OF Cons.prems(1) a] r]
  have u: "used s1 = used s \<union> frames a n" and f: "frames a n \<inter> used s = {}"
    using alloc_used [OF Cons.prems(1) a] alloc_fresh [OF Cons.prems(1) a] by auto
  have "used s' = used s \<union> (\<Union>i < length (n # ns). frames (as ! i) ((n # ns) ! i))"
    using IH u by (auto simp: as lessThan_Suc_eq_insert_0)
  moreover have "\<forall>i < length (n # ns). frames (as ! i) ((n # ns) ! i) \<inter> used s = {}"
    using IH u f by (auto simp: as nth_Cons split: nat.splits)
  moreover have "frames (as ! i) ((n # ns) ! i) \<inter> frames (as ! j) ((n # ns) ! j) = {}"
    if "j < length (n # ns)" "i < j" for i j
    using that IH u by (cases i; cases j) (auto simp: as)
  ultimately show ?case using IH by (auto simp: as)
qed simp

end

end
