(* ===== verification/Pmm.thy ===== *)
theory Pmm
  imports Mmu Spinlock Page_Allocator
begin

section \<open>Physical memory manager (kernel/pmm.c, include/franklin/bitmap.h)\<close>

text \<open>
  One bit per 4096-byte page frame, 1 meaning in use.  The state record holds the bytes of the bitmap,
  its address, the global \<open>spinlock\<close> of \<^verbatim>\<open>include/franklin/spinlock.h\<close> and the debugging global \<open>g\<close>.  An
  access beyond the bytes of the bitmap is the fault \<open>BadAccess\<close>: the C code has no bounds check and
  would read or write whatever lies behind the array.
\<close>

subsection \<open>The bitmap\<close>

definition bitmap_test :: "u8 list \<Rightarrow> nat \<Rightarrow> bool result" where
  "bitmap_test bm n =
     (if n div 8 < length bm then Inr ((bm ! (n div 8)) AND push_bit (n mod 8) 1 \<noteq> 0)
      else Inl BadAccess)"

definition bitmap_set :: "u8 list \<Rightarrow> nat \<Rightarrow> u8 list result" where
  "bitmap_set bm n =
     (if n div 8 < length bm
      then Inr (bm[n div 8 := (bm ! (n div 8)) OR push_bit (n mod 8) 1])
      else Inl BadAccess)"

definition bitmap_reset :: "u8 list \<Rightarrow> nat \<Rightarrow> u8 list result" where
  "bitmap_reset bm n =
     (if n div 8 < length bm
      then Inr (bm[n div 8 := (bm ! (n div 8)) AND NOT (push_bit (n mod 8) 1)])
      else Inl BadAccess)"

text \<open>
  \<open>isfree\<close> and \<open>togglepage\<close> (\<^verbatim>\<open>include/franklin/mmu.h\<close>) see the same bytes as an array of
  \<open>uint64_t\<close>; x86 is little endian, so word \<open>k\<close> is made of the bytes \<open>8k, ..., 8k+7\<close>, lowest first.
\<close>

primrec le_word :: "(nat \<Rightarrow> u8) \<Rightarrow> nat \<Rightarrow> u64" where
  "le_word b 0 = 0"
| "le_word b (Suc m) = le_word b m OR push_bit (8 * m) (ucast (b m))"

definition load64 :: "u8 list \<Rightarrow> nat \<Rightarrow> u64 result" where
  "load64 bm k =
     (if 8 * k + 8 \<le> length bm then Inr (le_word (\<lambda>i. bm ! (8 * k + i)) 8) else Inl BadAccess)"

definition store64 :: "u8 list \<Rightarrow> nat \<Rightarrow> u64 \<Rightarrow> u8 list result" where
  "store64 bm k w =
     (if 8 * k + 8 \<le> length bm
      then Inr (take (8 * k) bm @ map (\<lambda>i. ucast (drop_bit (8 * i) w)) [0..<8] @ drop (8 * k + 8) bm)
      else Inl BadAccess)"

definition isfree :: "u8 list \<Rightarrow> u32 \<Rightarrow> bool result" where
  "isfree bm page =
     ebind (load64 bm (unat page div 64)) (\<lambda>w.
     Inr (w AND push_bit (unat page mod 64) 1 = 0))"

definition togglepage :: "u8 list \<Rightarrow> u32 \<Rightarrow> u8 list result" where
  "togglepage bm page =
     ebind (load64 bm (unat page div 64)) (\<lambda>w.
     store64 bm (unat page div 64) (w XOR push_bit (unat page mod 64) 1))"

subsection \<open>Allocation and release of page frames\<close>

record pmm =
  bitmap :: "u8 list"
  bitmap_addr :: u64
  spinlock :: u32
  dbg_g :: int

text \<open>The first loop of \<open>palloc\<close>: does any page of the window have its bit set?\<close>

fun window_free :: "u8 list \<Rightarrow> nat \<Rightarrow> nat \<Rightarrow> bool result" where
  "window_free bm i 0 = Inr True"
| "window_free bm i (Suc n) =
     ebind (bitmap_test bm i) (\<lambda>used. if used then Inr False else window_free bm (Suc i) n)"

fun bitmap_set_range :: "u8 list \<Rightarrow> nat \<Rightarrow> nat \<Rightarrow> u8 list result" where
  "bitmap_set_range bm i 0 = Inr bm"
| "bitmap_set_range bm i (Suc n) = ebind (bitmap_set bm i) (\<lambda>bm. bitmap_set_range bm (Suc i) n)"

lemma window_free_used_in_range:
  "window_free bm i n = Inr False \<Longrightarrow> i < 8 * length bm"
  by (cases n) (auto simp: bitmap_test_def ebind_eq_Inr split: if_splits)

text \<open>\<open>p++; goto scanbitmap\<close>: slide the window up one page at a time.\<close>

function scanbitmap :: "u8 list \<Rightarrow> nat \<Rightarrow> nat \<Rightarrow> nat result" where
  "scanbitmap bm p pages =
     ebind (window_free bm p pages) (\<lambda>free.
       if free then Inr p else scanbitmap bm (Suc p) pages)"
  by pat_completeness auto
termination
  by (relation "measure (\<lambda>(bm, p, pages). 8 * length bm - p)")
    (auto dest!: window_free_used_in_range)

declare scanbitmap.simps [simp del]

definition palloc :: "nat \<Rightarrow> 'a pmm_scheme \<Rightarrow> (u64 \<times> 'a pmm_scheme) result" where
  "palloc pages s =
     ebind (scanbitmap (bitmap s) 0 pages) (\<lambda>p.
     let s = (if p * PGSIZE = 0x2ca000 then s\<lparr>dbg_g := 10\<rparr> else s) in
     ebind (bitmap_set_range (bitmap s) p pages) (\<lambda>bm.
     let s = s\<lparr>bitmap := bm\<rparr>;
         s = (if p * PGSIZE = 0x2d4000 then s\<lparr>dbg_g := 10\<rparr> else s) in
     Inr (of_nat (p * PGSIZE), s)))"

fun freepg_loop :: "nat \<Rightarrow> nat \<Rightarrow> 'a pmm_scheme \<Rightarrow> ('a pmm_scheme) result" where
  "freepg_loop i 0 s = Inr s"
| "freepg_loop i (Suc n) s =
     ebind (bitmap_test (bitmap s) i) (\<lambda>used.
     let s = (if used then s else s\<lparr>dbg_g := 69\<rparr>) in
     ebind (bitmap_reset (bitmap s) i) (\<lambda>bm.
     freepg_loop (Suc i) n (s\<lparr>bitmap := bm\<rparr>)))"

definition freepg :: "u64 \<Rightarrow> u32 \<Rightarrow> 'a pmm_scheme \<Rightarrow> ('a pmm_scheme) result" where
  "freepg addr npages s = (let page = unat (addr div 4096) in freepg_loop page (unat npages) s)"

fun pallocaddr_loop :: "u32 \<Rightarrow> nat \<Rightarrow> u8 list \<Rightarrow> u8 list result" where
  "pallocaddr_loop i 0 bm = Inr bm"
| "pallocaddr_loop i (Suc n) bm =
     ebind (isfree bm i) (\<lambda>free.
     if \<not> free then Inl (Panic ''panic: pallocaddr, page is not free'')
     else ebind (togglepage bm i) (\<lambda>bm. pallocaddr_loop (i + 1) n bm))"

text \<open>
  The loop of \<open>pallocaddr\<close> counts with \<open>uint32_t\<close>: the bound \<open>pfn + size\<close> wraps around, and the
  number of iterations is its distance from \<open>pfn\<close> when it lies above.
\<close>

definition pallocaddr :: "u32 \<Rightarrow> u64 \<Rightarrow> 'a pmm_scheme \<Rightarrow> (u64 \<times> 'a pmm_scheme) result" where
  "pallocaddr npages paddr s =
     (let pfn = ucast (paddr div 4096) :: u32 in
      ebind (acquire (spinlock s)) (\<lambda>l.
      let s = s\<lparr>spinlock := l\<rparr> in
      ebind (pallocaddr_loop pfn (unat (pfn + npages) - unat pfn) (bitmap s)) (\<lambda>bm.
      let s = s\<lparr>bitmap := bm, spinlock := release (spinlock s)\<rparr> in
      Inr (paddr, s))))"

subsection \<open>Building the bitmap from the boot loader's memory map\<close>

record memmap_entry =
  me_base :: u64
  me_len :: u64
  me_type :: u64

fun highest_loop :: "memmap_entry list \<Rightarrow> u64 \<Rightarrow> u64" where
  "highest_loop [] highest = highest"
| "highest_loop (e # es) highest =
     (if me_type e \<noteq> 0 then highest_loop es highest
      else if highest < me_base e + me_len e then highest_loop es (me_base e + me_len e)
      else highest_loop es highest)"

text \<open>The second loop: the first usable entry that is large enough gives the bitmap its memory.\<close>

fun carve_loop :: "u64 \<Rightarrow> memmap_entry list \<Rightarrow> 'a pmm_scheme \<Rightarrow> memmap_entry list \<times> 'a pmm_scheme" where
  "carve_loop bitmap_size [] s = ([], s)"
| "carve_loop bitmap_size (e # es) s =
     (if me_type e \<noteq> 0 then (let (es', s') = carve_loop bitmap_size es s in (e # es', s'))
      else if me_len e \<ge> bitmap_size
      then (e\<lparr>me_len := me_len e - bitmap_size, me_base := me_base e + bitmap_size\<rparr> # es,
            s\<lparr>bitmap_addr := P2V (me_base e), bitmap := replicate (unat bitmap_size) 0xff\<rparr>)
      else (let (es', s') = carve_loop bitmap_size es s in (e # es', s')))"

text \<open>
  The inner loop of the third pass counts with a \<open>size_t\<close>.  If \<open>j + PGSIZE\<close> wraps to 0 the C loop
  starts over and never ends; the model says so with \<open>NoFuel\<close>.
\<close>

function reset_loop :: "u8 list \<Rightarrow> u64 \<Rightarrow> u64 \<Rightarrow> u64 \<Rightarrow> u8 list result" where
  "reset_loop bm b l j =
     (if j < l then
        ebind (bitmap_reset bm (unat ((b + j) div 4096))) (\<lambda>bm.
        if unat j + 4096 \<ge> 2 ^ 64 then Inl NoFuel else reset_loop bm b l (j + 4096))
      else Inr bm)"
  by pat_completeness auto
termination
proof (relation "measure (\<lambda>(bm, b, l, j). 2 ^ 64 - unat j)", goal_cases)
  case 1
  then show ?case by simp
next
  case (2 bm b l j bm')
  then have "unat (j + 4096) = unat j + 4096"
    by (subst unat_add_no_wrap) simp_all
  then show ?case using 2 by simp
qed

declare reset_loop.simps [simp del]

fun free_usable :: "memmap_entry list \<Rightarrow> u8 list \<Rightarrow> u8 list result" where
  "free_usable [] bm = Inr bm"
| "free_usable (e # es) bm =
     (if me_type e \<noteq> 0 then free_usable es bm
      else ebind (reset_loop bm (me_base e) (me_len e) 0) (\<lambda>bm. free_usable es bm))"

definition initbmap :: "memmap_entry list \<Rightarrow> 'a pmm_scheme \<Rightarrow> (memmap_entry list \<times> 'a pmm_scheme) result" where
  "initbmap memmap s =
     (let highest_addr = highest_loop memmap 0;
          bitmap_size = (highest_addr div 4096) div 8;
          (memmap, s) = carve_loop bitmap_size memmap s in
      ebind (free_usable memmap (bitmap s)) (\<lambda>bm.
      Inr (memmap, s\<lparr>bitmap := bm\<rparr>)))"


subsection \<open>The set of used pages\<close>

text \<open>The abstraction of the bitmap: which page numbers have their bit set.\<close>

definition page_used :: "u8 list \<Rightarrow> nat \<Rightarrow> bool" where
  "page_used bm n \<longleftrightarrow> n < 8 * length bm \<and> bit (bm ! (n div 8)) (n mod 8)"

named_theorems bitmap_simps \<open>evaluation of the bitmap primitives on page numbers in range\<close>

lemma div8_less_iff: "n div 8 < m \<longleftrightarrow> n < 8 * m" for n m :: nat
  by (simp add: div_less_iff_less_mult mult.commute)

lemma bitmap_test_eq [bitmap_simps]:
  "n < 8 * length bm \<Longrightarrow> bitmap_test bm n = Inr (page_used bm n)"
  by (simp add: bitmap_test_def page_used_def div8_less_iff bit_iff_and_push_bit_not_eq_0)

lemma bitmap_test_out: "8 * length bm \<le> n \<Longrightarrow> bitmap_test bm n = Inl BadAccess"
  by (simp add: bitmap_test_def div8_less_iff)

lemma bitmap_test_Inr:
  "bitmap_test bm n = Inr b \<longleftrightarrow> n < 8 * length bm \<and> b = page_used bm n"
  by (cases "n < 8 * length bm") (auto simp: bitmap_test_eq bitmap_test_out not_less)

lemma page_used_update:
  assumes "k < 8 * length bm"
  shows "page_used (bm[k div 8 := w]) n \<longleftrightarrow>
           (if n div 8 = k div 8 then bit w (n mod 8) else page_used bm n)"
  using assms by (auto simp: page_used_def div8_less_iff [symmetric])

lemma same_byte_bit: "n div 8 = k div 8 \<Longrightarrow> n mod 8 = k mod 8 \<longleftrightarrow> n = k" for n k :: nat
  by (metis div_mult_mod_eq)

lemma page_used_same_byte:
  assumes "k < 8 * length bm" and "n div 8 = k div 8"
  shows "page_used bm n \<longleftrightarrow> bit (bm ! (k div 8)) (n mod 8)"
  using assms by (simp add: page_used_def flip: div8_less_iff)

lemma bitmap_set_eq [bitmap_simps]:
  assumes "k < 8 * length bm"
  shows "\<exists>bm'. bitmap_set bm k = Inr bm' \<and> length bm' = length bm \<and>
           (\<forall>n. page_used bm' n \<longleftrightarrow> page_used bm n \<or> n = k)"
proof -
  let ?w = "set_bit (k mod 8) (bm ! (k div 8))"
  have "page_used (bm[k div 8 := ?w]) n \<longleftrightarrow> page_used bm n \<or> n = k" for n
    using assms page_used_same_byte [OF assms, of n]
    by (auto simp: page_used_update bit_set_bit_iff same_byte_bit)
  then show ?thesis
    using assms by (simp add: bitmap_set_def div8_less_iff set_bit_eq_or)
qed

lemma bitmap_reset_eq [bitmap_simps]:
  assumes "k < 8 * length bm"
  shows "\<exists>bm'. bitmap_reset bm k = Inr bm' \<and> length bm' = length bm \<and>
           (\<forall>n. page_used bm' n \<longleftrightarrow> page_used bm n \<and> n \<noteq> k)"
proof -
  let ?w = "unset_bit (k mod 8) (bm ! (k div 8))"
  have "page_used (bm[k div 8 := ?w]) n \<longleftrightarrow> page_used bm n \<and> n \<noteq> k" for n
    using assms page_used_same_byte [OF assms, of n]
    by (auto simp: page_used_update bit_unset_bit_iff same_byte_bit)
  then show ?thesis
    using assms by (simp add: bitmap_reset_def div8_less_iff unset_bit_eq_and_not)
qed

lemma bitmap_reset_out: "8 * length bm \<le> n \<Longrightarrow> bitmap_reset bm n = Inl BadAccess"
  by (simp add: bitmap_reset_def div8_less_iff)

lemma bitmap_set_out: "8 * length bm \<le> n \<Longrightarrow> bitmap_set bm n = Inl BadAccess"
  by (simp add: bitmap_set_def div8_less_iff)

text \<open>A bitmap is determined by its length and its used pages.\<close>

lemma bitmap_eqI:
  assumes len: "length bm = length bm'"
    and used: "\<And>n. page_used bm n \<longleftrightarrow> page_used bm' n"
  shows "bm = bm'"
proof (rule nth_equalityI [OF len])
  fix i assume i: "i < length bm"
  show "bm ! i = bm' ! i"
  proof (rule bit_word_eqI)
    fix k :: nat assume "k < LENGTH(8)"
    then have "(8 * i + k) div 8 = i" and "(8 * i + k) mod 8 = k" and "8 * i + k < 8 * length bm"
      using i by auto
    with used [of "8 * i + k"] len show "bit (bm ! i) k \<longleftrightarrow> bit (bm' ! i) k"
      by (simp add: page_used_def)
  qed
qed

subsection \<open>The loops of \<open>palloc\<close> and \<open>freepg\<close>\<close>

lemma window_free_True:
  "window_free bm i n = Inr True \<longleftrightarrow> (\<forall>k \<in> {i..<i + n}. k < 8 * length bm \<and> \<not> page_used bm k)"
proof (induction n arbitrary: i)
  case (Suc n)
  have "{i..<i + Suc n} = insert i {Suc i..<Suc i + n}" by auto
  with Suc.IH [of "Suc i"] show ?case
    by (cases "i < 8 * length bm") (auto simp: bitmap_test_eq bitmap_test_out not_less)
qed simp

lemma window_free_False:
  "window_free bm i n = Inr False \<Longrightarrow> \<exists>k \<in> {i..<i + n}. page_used bm k"
proof (induction n arbitrary: i)
  case (Suc n)
  show ?case
  proof (cases "page_used bm i")
    case False
    with Suc.prems have "window_free bm (Suc i) n = Inr False"
      by (auto simp: ebind_eq_Inr bitmap_test_Inr split: if_splits)
    from Suc.IH [OF this] show ?thesis by force
  qed auto
qed simp

lemma window_free_total:
  "i + n \<le> 8 * length bm \<Longrightarrow> \<exists>b. window_free bm i n = Inr b"
  by (induction n arbitrary: i) (auto simp: bitmap_test_eq)

lemma scanbitmap_first_fit:
  "scanbitmap bm p n = Inr q \<Longrightarrow>
     p \<le> q \<and> (\<forall>k \<in> {q..<q + n}. k < 8 * length bm \<and> \<not> page_used bm k) \<and>
     (\<forall>r. p \<le> r \<longrightarrow> r < q \<longrightarrow> (\<exists>k \<in> {r..<r + n}. page_used bm k))"
proof (induction bm p n rule: scanbitmap.induct)
  case (1 bm p n)
  from "1.prems" obtain b where b: "window_free bm p n = Inr b"
    and q: "(if b then Inr p else scanbitmap bm (Suc p) n) = Inr q"
    by (subst (asm) scanbitmap.simps) (auto elim: ebindE)
  show ?case
  proof (cases b)
    case True
    with b q show ?thesis by (auto simp: window_free_True)
  next
    case False
    with q have "scanbitmap bm (Suc p) n = Inr q" by simp
    from "1.IH" [OF b False this]
    have IH: "Suc p \<le> q" "\<forall>k \<in> {q..<q + n}. k < 8 * length bm \<and> \<not> page_used bm k"
      "\<And>r. Suc p \<le> r \<Longrightarrow> r < q \<Longrightarrow> \<exists>k \<in> {r..<r + n}. page_used bm k"
      by blast+
    have "\<exists>k \<in> {r..<r + n}. page_used bm k" if "p \<le> r" "r < q" for r
      using that IH(3) [of r] window_free_False [of bm p n] b False by (cases "r = p") auto
    with IH(1,2) show ?thesis by auto
  qed
qed

lemma scanbitmap_finds:
  "p \<le> q \<Longrightarrow> \<forall>k \<in> {q..<q + n}. k < 8 * length bm \<and> \<not> page_used bm k \<Longrightarrow>
     \<exists>r. scanbitmap bm p n = Inr r"
proof (induction bm p n rule: scanbitmap.induct)
  case (1 bm p n)
  show ?case
  proof (cases "n = 0")
    case True
    then show ?thesis by (subst scanbitmap.simps) simp
  next
    case False
    with "1.prems"(2) have "q + n \<le> 8 * length bm" by (intro interval_bounded) auto
    with "1.prems"(1) obtain b where b: "window_free bm p n = Inr b"
      using window_free_total [of p n bm] by auto
    show ?thesis
    proof (cases b)
      case True
      with b show ?thesis by (subst scanbitmap.simps) simp
    next
      case False
      with b "1.prems" have "p \<noteq> q"
        using window_free_True [of bm p n] by auto
      with "1.prems" have "\<exists>r. scanbitmap bm (Suc p) n = Inr r"
        using "1.IH" [OF b False] by simp
      with b False show ?thesis by (subst scanbitmap.simps) simp
    qed
  qed
qed

lemma bitmap_set_range_spec:
  "i + n \<le> 8 * length bm \<Longrightarrow>
     \<exists>bm'. bitmap_set_range bm i n = Inr bm' \<and> length bm' = length bm \<and>
       (\<forall>k. page_used bm' k \<longleftrightarrow> page_used bm k \<or> k \<in> {i..<i + n})"
proof (induction n arbitrary: i bm)
  case (Suc n)
  from Suc.prems obtain bm1 where b1: "bitmap_set bm i = Inr bm1" "length bm1 = length bm"
    "\<forall>k. page_used bm1 k \<longleftrightarrow> page_used bm k \<or> k = i"
    using bitmap_set_eq [of i bm] by auto
  with Suc.prems Suc.IH [of "Suc i" bm1] obtain bm2 where
    "bitmap_set_range bm1 (Suc i) n = Inr bm2" "length bm2 = length bm1"
    "\<forall>k. page_used bm2 k \<longleftrightarrow> page_used bm1 k \<or> k \<in> {Suc i..<Suc i + n}"
    by auto
  with b1 show ?case by auto
qed simp

lemma freepg_loop_spec:
  "i + n \<le> 8 * length (bitmap s) \<Longrightarrow>
     \<exists>s'. freepg_loop i n s = Inr s' \<and> length (bitmap s') = length (bitmap s) \<and>
       (\<forall>k. page_used (bitmap s') k \<longleftrightarrow> page_used (bitmap s) k \<and> k \<notin> {i..<i + n}) \<and>
       (\<forall>b x. s'\<lparr>bitmap := b, dbg_g := x\<rparr> = s\<lparr>bitmap := b, dbg_g := x\<rparr>) \<and>
       ((\<forall>k \<in> {i..<i + n}. page_used (bitmap s) k) \<longrightarrow> dbg_g s' = dbg_g s)"
proof (induction n arbitrary: i s)
  case (Suc n)
  from Suc.prems obtain bm1 where b1: "bitmap_reset (bitmap s) i = Inr bm1"
    "length bm1 = length (bitmap s)" "\<forall>k. page_used bm1 k \<longleftrightarrow> page_used (bitmap s) k \<and> k \<noteq> i"
    using bitmap_reset_eq [of i "bitmap s"] by auto
  define s2 where "s2 = (if page_used (bitmap s) i then s else s\<lparr>dbg_g := 69\<rparr>)\<lparr>bitmap := bm1\<rparr>"
  have step: "freepg_loop i (Suc n) s = freepg_loop (Suc i) n s2"
    using Suc.prems b1 by (simp add: bitmap_test_eq s2_def)
  have s2: "bitmap s2 = bm1" by (simp add: s2_def)
  from Suc.prems b1 s2 Suc.IH [of "Suc i" s2] obtain s' where
    s': "freepg_loop (Suc i) n s2 = Inr s'" "length (bitmap s') = length (bitmap s)"
      "\<And>k. page_used (bitmap s') k \<longleftrightarrow> page_used bm1 k \<and> k \<notin> {Suc i..<Suc i + n}"
      "\<And>b x. s'\<lparr>bitmap := b, dbg_g := x\<rparr> = s2\<lparr>bitmap := b, dbg_g := x\<rparr>"
      "(\<forall>k \<in> {Suc i..<Suc i + n}. page_used bm1 k) \<Longrightarrow> dbg_g s' = dbg_g s2"
    by auto
  have "s'\<lparr>bitmap := b, dbg_g := x\<rparr> = s\<lparr>bitmap := b, dbg_g := x\<rparr>" for b x
    by (simp add: s'(4) s2_def)
  moreover have "dbg_g s' = dbg_g s" if "\<forall>k \<in> {i..<i + Suc n}. page_used (bitmap s) k"
    using that s'(5) b1 by (simp add: s2_def)
  moreover have "page_used (bitmap s') k \<longleftrightarrow> page_used (bitmap s) k \<and> k \<notin> {i..<i + Suc n}" for k
    by (auto simp: s'(3) b1(3)[rule_format])
  ultimately show ?case
    unfolding step s'(1) by (intro exI [of _ s'] conjI allI impI refl) (simp_all add: s'(2))
qed simp

lemma freepg_loop_effect:
  assumes "i + n \<le> 8 * length (bitmap s)"
  obtains s' where "freepg_loop i n s = Inr s'" and "length (bitmap s') = length (bitmap s)"
    and "\<forall>k. page_used (bitmap s') k \<longleftrightarrow> page_used (bitmap s) k \<and> k \<notin> {i..<i + n}"
    and "\<forall>b x. s'\<lparr>bitmap := b, dbg_g := x\<rparr> = s\<lparr>bitmap := b, dbg_g := x\<rparr>"
    and "(\<forall>k \<in> {i..<i + n}. page_used (bitmap s) k) \<longrightarrow> dbg_g s' = dbg_g s"
  using freepg_loop_spec [OF assms] by (elim exE conjE) (rule that)

subsection \<open>The 64-bit view of the bitmap\<close>

lemma bit_le_word:
  "m \<le> 8 \<Longrightarrow> bit (le_word b m) n \<longleftrightarrow> n < 8 * m \<and> bit (b (n div 8)) (n mod 8)"
proof (induction m)
  case (Suc m)
  have "bit (push_bit (8 * m) (ucast (b m)) :: u64) n \<longleftrightarrow>
      8 * m \<le> n \<and> n < 8 * m + 8 \<and> bit (b m) (n - 8 * m)"
    using Suc.prems by (auto simp: bit_push_bit_iff bit_ucast_iff dest: bit_imp_le_length)
  with Suc div_mod_8_interval [of m n] show ?case by (auto simp: bit_or_iff)
qed simp

text \<open>The word that holds a page's bit lies inside a bitmap made of whole 64-bit words.\<close>

lemma word_in_bitmap: "8 dvd length bm \<Longrightarrow> n < 8 * length bm \<Longrightarrow> 8 * (n div 64) + 8 \<le> length bm"
  for n :: nat and bm :: "u8 list"
proof -
  assume "8 dvd length bm" "n < 8 * length bm"
  then obtain m where m: "length bm = 8 * m" by blast
  with \<open>n < 8 * length bm\<close> have "n div 64 < m" by (simp add: less_mult_imp_div_less mult.commute)
  with m show ?thesis by simp
qed

lemma bit_of_load64:
  assumes "8 dvd length bm" and "n < 8 * length bm"
  shows "\<exists>w. load64 bm (n div 64) = Inr w \<and> (\<forall>k < 64. bit w k \<longleftrightarrow> page_used bm (n div 64 * 64 + k))"
proof -
  let ?w = "le_word (\<lambda>i. bm ! (8 * (n div 64) + i)) 8"
  have "bit ?w k \<longleftrightarrow> page_used bm (n div 64 * 64 + k)" if "k < 64" for k
  proof -
    have "(n div 64 * 64 + k) div 8 = 8 * (n div 64) + k div 8"
      and "(n div 64 * 64 + k) mod 8 = k mod 8"
      and "n div 64 * 64 + k < 8 * length bm"
      using div_mod_8_of_64 [of "n div 64 * 64 + k"] that word_in_bitmap [OF assms]
      by (auto simp: mod_8_of_64)
    with that show ?thesis by (simp add: bit_le_word page_used_def)
  qed
  then show ?thesis using word_in_bitmap [OF assms] by (auto simp: load64_def)
qed

lemma isfree_page_used:
  assumes "8 dvd length bm" and "unat page < 8 * length bm"
  shows "isfree bm page = Inr (\<not> page_used bm (unat page))"
proof -
  obtain w where "load64 bm (unat page div 64) = Inr w"
    and "bit w (unat page mod 64) \<longleftrightarrow> page_used bm (unat page)"
    using bit_of_load64 [OF assms] by (metis div_mult_mod_eq mod_less_divisor zero_less_numeral)
  then show ?thesis by (simp add: isfree_def and_power_eq_0)
qed

lemma nth_store64:
  assumes "8 * k + 8 \<le> length bm"
  shows "\<exists>bm'. store64 bm k w = Inr bm' \<and> length bm' = length bm \<and>
    (\<forall>i < length bm. bm' ! i = (if 8 * k \<le> i \<and> i < 8 * k + 8 then ucast (drop_bit (8 * (i - 8 * k)) w)
      else bm ! i))"
  using assms by (auto simp: store64_def nth_append not_less)

lemma togglepage_page_used:
  assumes "8 dvd length bm" and "unat page < 8 * length bm"
  shows "\<exists>bm'. togglepage bm page = Inr bm' \<and> length bm' = length bm \<and>
    (\<forall>n. page_used bm' n \<longleftrightarrow> page_used bm n \<noteq> (n = unat page))"
proof -
  let ?k = "unat page div 64" and ?b = "unat page mod 64"
  obtain w where w: "load64 bm ?k = Inr w" "\<forall>i < 64. bit w i \<longleftrightarrow> page_used bm (?k * 64 + i)"
    using bit_of_load64 [OF assms] by blast
  define v where "v = w XOR push_bit ?b 1"
  have v: "bit v i \<longleftrightarrow> bit w i \<noteq> (i = ?b)" if "i < 64" for i
    using that by (auto simp: v_def bit_xor_iff bit_push_bit_iff bit_1_iff simp del: push_bit_of_1)
  obtain bm' where st: "store64 bm ?k v = Inr bm'" "length bm' = length bm"
    "\<And>i. i < length bm \<Longrightarrow> bm' ! i = (if 8 * ?k \<le> i \<and> i < 8 * ?k + 8
       then ucast (drop_bit (8 * (i - 8 * ?k)) v) else bm ! i)"
    using nth_store64 [OF word_in_bitmap [OF assms]] by blast
  have "page_used bm' n \<longleftrightarrow> page_used bm n \<noteq> (n = unat page)" for n
  proof (cases "n div 64 = ?k \<and> n < 8 * length bm")
    case True
    let ?i = "n mod 64"
    have n: "n = ?k * 64 + ?i" using True by (metis div_mult_mod_eq)
    have i: "8 * ?k \<le> n div 8" "n div 8 < 8 * ?k + 8" "n div 8 - 8 * ?k = ?i div 8" "n div 8 < length bm"
      using True div_mod_8_of_64 [of n] by (auto simp: div8_less_iff less_mult_imp_div_less)
    have im: "8 * (?i div 8) + n mod 8 = ?i"
      using mult_div_mod_eq [of 8 ?i] by (simp add: mod_mod_cancel)
    have "page_used bm' n \<longleftrightarrow> bit v (8 * (?i div 8) + n mod 8)"
      using st(2) st(3) [OF i(4)] i True
      by (simp add: page_used_def bit_ucast_iff bit_drop_bit_eq)
    also have "\<dots> \<longleftrightarrow> page_used bm n \<noteq> (?i = ?b)"
      using w(2) v [of ?i] n unfolding im by simp
    also have "?i = ?b \<longleftrightarrow> n = unat page"
      using True by (metis div_mult_mod_eq)
    finally show ?thesis .
  next
    case False
    have "n div 8 div 8 = n div 64" by (simp add: div_mult2_eq [symmetric])
    then have "\<not> (8 * ?k \<le> n div 8 \<and> n div 8 < 8 * ?k + 8)" if "n < 8 * length bm"
      using that False div_mod_8_interval [of ?k "n div 8"] by auto
    then have "page_used bm' n = page_used bm n"
      using st(2) st(3) [of "n div 8"] by (cases "n < 8 * length bm") (auto simp: page_used_def div8_less_iff)
    with False assms(2) show ?thesis by auto
  qed
  with st w show ?thesis by (auto simp: togglepage_def v_def)
qed

subsection \<open>The allocator meets the contract\<close>

text \<open>
  The direct map at \<open>HHDM_OFFSET\<close> has \<open>2 ^ 47\<close> bytes; a bitmap describes fewer than the \<open>2 ^ 35\<close> frames
  the kernel could reach there.
\<close>

definition pmm_wf :: "'a pmm_scheme \<Rightarrow> bool" where
  "pmm_wf s \<longleftrightarrow> length (bitmap s) < 2 ^ 32"

definition used_pages :: "'a pmm_scheme \<Rightarrow> nat set" where
  "used_pages s = {n. page_used (bitmap s) n}"

lemma used_pages_bound: "n \<in> used_pages s \<Longrightarrow> n < 8 * length (bitmap s)"
  by (simp add: used_pages_def page_used_def)

lemma page_number_of_addr:
  assumes "p < 2 ^ 52"
  shows "unat (of_nat p * 4096 :: u64) = p * 4096"
proof -
  have "unat (of_nat (p * 4096) :: u64) = p * 4096"
    by (rule unat_of_nat_64) (use assms in simp)
  then show ?thesis by simp
qed

lemma scanbitmap_then_set:
  assumes "scanbitmap bm 0 n = Inr p"
  shows "\<exists>bm'. bitmap_set_range bm p n = Inr bm' \<and> length bm' = length bm \<and>
    (\<forall>k. page_used bm' k \<longleftrightarrow> page_used bm k \<or> k \<in> {p..<p + n})"
proof (cases "n = 0")
  case False
  then have "p + n \<le> 8 * length bm"
    using scanbitmap_first_fit [OF assms] by (intro interval_bounded) auto
  then show ?thesis by (rule bitmap_set_range_spec)
qed simp

text \<open>The full effect of a successful \<open>palloc\<close>; every client lemma follows from it.\<close>

lemma palloc_cases:
  assumes "palloc n s = Inr (a, s')"
  obtains p bm' g' where "scanbitmap (bitmap s) 0 n = Inr p"
    and "a = of_nat (p * 4096)" and "s' = s\<lparr>bitmap := bm', dbg_g := g'\<rparr>"
    and "length bm' = length (bitmap s)"
    and "\<And>k. page_used bm' k \<longleftrightarrow> page_used (bitmap s) k \<or> k \<in> {p..<p + n}"
proof -
  from assms obtain p where p: "scanbitmap (bitmap s) 0 n = Inr p"
    by (auto simp: palloc_def elim: ebindE)
  obtain bm' where bm': "bitmap_set_range (bitmap s) p n = Inr bm'"
    "length bm' = length (bitmap s)"
    "\<And>k. page_used bm' k \<longleftrightarrow> page_used (bitmap s) k \<or> k \<in> {p..<p + n}"
    using scanbitmap_then_set [OF p] by blast
  have "a = of_nat (p * 4096)" and "s' = s\<lparr>bitmap := bm', dbg_g := dbg_g s'\<rparr>"
    using assms p bm'(1) by (auto simp: palloc_def Let_def split: if_splits)
  with p bm' that show ?thesis by blast
qed

lemma palloc_total:
  assumes "scanbitmap (bitmap s) 0 n = Inr p"
  shows "\<exists>a s'. palloc n s = Inr (a, s')"
  using assms scanbitmap_then_set [OF assms] by (auto simp: palloc_def Let_def)

lemma palloc_returns: "(\<exists>r. palloc n s = Inr r) \<longleftrightarrow> (\<exists>p. scanbitmap (bitmap s) 0 n = Inr p)"
proof
  assume "\<exists>r. palloc n s = Inr r"
  then show "\<exists>p. scanbitmap (bitmap s) 0 n = Inr p" by (auto simp: palloc_def elim: ebindE)
qed (use palloc_total in blast)

lemma palloc_frames:
  assumes "pmm_wf s" and "palloc n s = Inr (a, s')"
  shows "\<exists>p. scanbitmap (bitmap s) 0 n = Inr p \<and> unat a = p * 4096 \<and> frames a n = {p..<p + n} \<and>
    p \<le> 8 * length (bitmap s)"
  using assms(2)
proof (cases rule: palloc_cases)
  case (1 p bm' g')
  have p: "p \<le> 8 * length (bitmap s)"
  proof (cases "n = 0")
    case True
    with 1(1) show ?thesis by (simp add: scanbitmap.simps)
  next
    case False
    then have "p + n \<le> 8 * length (bitmap s)"
      using scanbitmap_first_fit [OF 1(1)] by (intro interval_bounded) auto
    then show ?thesis by simp
  qed
  with assms(1) have "p < 2 ^ 52" by (simp add: pmm_wf_def)
  with 1(1,2) p show ?thesis by (simp add: page_number_of_addr frames_def)
qed

interpretation pm: page_allocator palloc freepg used_pages pmm_wf
proof
  fix s s' :: "'a pmm_scheme" and n :: nat and a :: u64
  assume wf: "pmm_wf s" and al: "palloc n s = Inr (a, s')"
  obtain p where p: "scanbitmap (bitmap s) 0 n = Inr p" "unat a = p * 4096" "frames a n = {p..<p + n}"
    using palloc_frames [OF wf al] by blast
  from al obtain bm' g' where s': "s' = s\<lparr>bitmap := bm', dbg_g := g'\<rparr>" "length bm' = length (bitmap s)"
    "\<And>k. page_used bm' k \<longleftrightarrow> page_used (bitmap s) k \<or> k \<in> {p..<p + n}"
    by (rule palloc_cases) (use p(1) in auto)
  show "pmm_wf s'" using wf s' by (simp add: pmm_wf_def)
  show "unat a mod 4096 = 0" using p by simp
  show "frames a n \<inter> used_pages s = {}"
    using p scanbitmap_first_fit [OF p(1)] by (auto simp: used_pages_def)
  show "used_pages s' = used_pages s \<union> frames a n"
    using p s' by (auto simp: used_pages_def)
next
  fix s :: "'a pmm_scheme" and a :: u64 and k :: u32
  assume wf: "pmm_wf s" and fr: "frames a (unat k) \<subseteq> used_pages s"
  let ?p = "unat a div 4096"
  show "\<exists>s'. freepg a k s = Inr s' \<and> pmm_wf s' \<and> used_pages s' = used_pages s - frames a (unat k)"
  proof (cases "unat k = 0")
    case True
    with wf show ?thesis by (simp add: freepg_def frames_def)
  next
    case False
    with fr have "?p + unat k \<le> 8 * length (bitmap s)"
      using used_pages_bound by (intro interval_bounded) (auto simp: frames_def)
    then obtain s' where "freepg_loop ?p (unat k) s = Inr s'" and len: "length (bitmap s') = length (bitmap s)"
      and us: "\<forall>i. page_used (bitmap s') i \<longleftrightarrow> page_used (bitmap s) i \<and> i \<notin> {?p..<?p + unat k}"
      by (rule freepg_loop_effect)
    then have "freepg a k s = Inr s'" by (simp add: freepg_def unat_div)
    moreover have "pmm_wf s'" using wf len by (simp add: pmm_wf_def)
    moreover have "used_pages s' = used_pages s - frames a (unat k)"
      unfolding used_pages_def frames_def set_eq_iff mem_Collect_eq Diff_iff using us by simp
    ultimately show ?thesis by blast
  qed
qed

text \<open>One page, the request the page tables and the slabs make.\<close>

lemma palloc_page:
  assumes "pmm_wf s" and "palloc 1 s = Inr (a, s')"
  obtains bm' g' where "s' = s\<lparr>bitmap := bm', dbg_g := g'\<rparr>" and "length bm' = length (bitmap s)"
    and "pmm_wf s'" and "unat a mod PGSIZE = 0" and "unat a + 8 * PGSIZE < 2 ^ 47"
    and "unat a div PGSIZE \<notin> used_pages s"
    and "used_pages s' = insert (unat a div PGSIZE) (used_pages s)"
proof -
  obtain bm' g' where s': "s' = s\<lparr>bitmap := bm', dbg_g := g'\<rparr>" "length bm' = length (bitmap s)"
    using assms(2) by (rule palloc_cases)
  have fr: "frames a 1 = {unat a div PGSIZE}" by (auto simp: frames_def)
  have used: "used_pages s' = insert (unat a div PGSIZE) (used_pages s)"
    using pm.alloc_used [OF assms] fr by auto
  then have "unat a div PGSIZE < 8 * length (bitmap s')" by (intro used_pages_bound) simp
  then have "unat a div PGSIZE + 8 < 2 ^ 35" using s' assms(1) by (simp add: pmm_wf_def)
  then have small: "unat a + 8 * PGSIZE < 2 ^ 47" using pm.alloc_aligned [OF assms] by (auto simp: mod_eq_0_iff_dvd)
  have new: "unat a div PGSIZE \<notin> used_pages s" using pm.alloc_fresh [OF assms] fr by auto
  show ?thesis
    by (rule that [OF s' pm.alloc_wf [OF assms] pm.alloc_aligned [OF assms] small new used])
qed

subsection \<open>Evaluation on concrete bitmaps\<close>

lemma window_free_unfold:
  "window_free bm i n = (if n = 0 then Inr True
     else ebind (bitmap_test bm i) (\<lambda>used. if used then Inr False else window_free bm (i + 1) (n - 1)))"
  by (cases n) (simp_all cong: if_cong)

lemma bitmap_set_range_unfold:
  "bitmap_set_range bm i n = (if n = 0 then Inr bm
     else ebind (bitmap_set bm i) (\<lambda>bm. if True then bitmap_set_range bm (i + 1) (n - 1) else Inr bm))"
  by (cases n) simp_all

lemmas bitmap_eval = bitmap_test_def bitmap_set_def bitmap_reset_def

lemmas palloc_eval = palloc_def scanbitmap.simps window_free_unfold bitmap_set_range_unfold bitmap_eval

subsection \<open>Properties of \<open>palloc\<close> and \<open>freepg\<close>\<close>



text \<open>
  C27 (success).  \<open>palloc(n)\<close> returns whenever some window of \<open>n\<close> consecutive frames inside the bitmap is
  free: the retry loop \<open>p++; goto scanbitmap\<close> terminates and stays inside the bitmap.
\<close>
theorem palloc_succeeds:
  assumes "\<forall>k \<in> {q..<q + n}. k < 8 * length (bitmap s) \<and> \<not> page_used (bitmap s) k"
  shows "\<exists>a s'. palloc n s = Inr (a, s')"
  using scanbitmap_finds [of 0 q n "bitmap s"] assms palloc_total by blast

theorem palloc_succeeds_witness:
  "\<exists>a s'. palloc 3 \<lparr>bitmap = [0xff, 0xf1], bitmap_addr = 0, spinlock = 0, dbg_g = 10\<rparr> = Inr (a, s')"
proof (rule palloc_succeeds [of 9])
  have "{9..<9 + 3} = {9, 10, 11 :: nat}" by auto
  then show "\<forall>k \<in> {9..<9 + 3}. k < 8 * length (bitmap \<lparr>bitmap = [0xff, 0xf1], bitmap_addr = 0, spinlock = 0, dbg_g = 10\<rparr>) \<and>
      \<not> page_used (bitmap \<lparr>bitmap = [0xff, 0xf1], bitmap_addr = 0, spinlock = 0, dbg_g = 10\<rparr>) k"
    by (auto simp: page_used_def)
qed

text \<open>
  C23 (round trip).  Freeing what \<open>palloc\<close> just returned restores the bitmap byte for byte, and the
  double-free flag \<open>g = 69\<close> is not raised.
\<close>
theorem palloc_freepg_roundtrip:
  assumes "pmm_wf s" and "palloc (unat n) s = Inr (a, s1)"
  shows "\<exists>s2. freepg a n s1 = Inr s2 \<and> bitmap s2 = bitmap s \<and> dbg_g s2 = dbg_g s1"
proof -
  obtain p where p: "scanbitmap (bitmap s) 0 (unat n) = Inr p" "unat a = p * 4096"
    using palloc_frames [OF assms] by blast
  from assms(2) obtain bm' g' where s1: "s1 = s\<lparr>bitmap := bm', dbg_g := g'\<rparr>" "length bm' = length (bitmap s)"
    "\<And>k. page_used bm' k \<longleftrightarrow> page_used (bitmap s) k \<or> k \<in> {p..<p + unat n}"
    by (rule palloc_cases) (use p(1) in auto)
  note ff = scanbitmap_first_fit [OF p(1)]
  show ?thesis
  proof (cases "unat n = 0")
    case True
    with s1 have "bitmap s1 = bitmap s" by (auto intro: bitmap_eqI)
    with True show ?thesis by (simp add: freepg_def)
  next
    case False
    with ff s1 have "p + unat n \<le> 8 * length (bitmap s1)" by (simp, intro interval_bounded) auto
    then obtain s2 where s2: "freepg_loop p (unat n) s1 = Inr s2" "length (bitmap s2) = length (bitmap s1)"
      "\<forall>k. page_used (bitmap s2) k \<longleftrightarrow> page_used (bitmap s1) k \<and> k \<notin> {p..<p + unat n}"
      "(\<forall>k \<in> {p..<p + unat n}. page_used (bitmap s1) k) \<longrightarrow> dbg_g s2 = dbg_g s1"
      by (rule freepg_loop_effect)
    have "bitmap s2 = bitmap s"
    proof (rule bitmap_eqI)
      show "length (bitmap s2) = length (bitmap s)" using s1 s2(2) by simp
      show "page_used (bitmap s2) k \<longleftrightarrow> page_used (bitmap s) k" for k
        using s1 s2(3) ff by auto
    qed
    moreover have "dbg_g s2 = dbg_g s1" using s1 s2(4) by simp
    moreover have "freepg a n s1 = Inr s2" using s2(1) p(2) by (simp add: freepg_def unat_div)
    ultimately show ?thesis by blast
  qed
qed

theorem palloc_freepg_roundtrip_witness:
  "\<exists>s2. freepg 0x4000 2 \<lparr>bitmap = [0x3b, 0], bitmap_addr = 0, spinlock = 0, dbg_g = 10\<rparr> = Inr s2 \<and>
     bitmap s2 = [0x0b, 0]"
proof -
  let ?s = "\<lparr>bitmap = [0x0b, 0], bitmap_addr = 0, spinlock = 0, dbg_g = 10\<rparr>"
  have "palloc (unat (2 :: u32)) ?s = Inr (0x4000, ?s\<lparr>bitmap := [0x3b, 0]\<rparr>)"
    by (simp add: palloc_eval)
  moreover have "pmm_wf ?s" by (simp add: pmm_wf_def)
  ultimately show ?thesis using palloc_freepg_roundtrip [of ?s 2] by fastforce
qed



subsection \<open>The 64-bit view agrees with the byte view; \<open>pallocaddr\<close>\<close>

text \<open>
  The two views of the bitmap agree: \<open>isfree\<close>, which reads the bitmap as little-endian 64-bit
  words, is the negation of \<open>bitmap_test\<close>, which reads it byte by byte; \<open>togglepage\<close> flips exactly the
  bit \<open>bitmap_test\<close> looks at.
\<close>
lemma isfree_iff_bitmap_test:
  assumes "8 dvd length bm" and "unat page < 8 * length bm"
  shows "ebind (isfree bm page) (\<lambda>free. Inr (\<not> free)) = bitmap_test bm (unat page) \<and>
    (\<exists>bm'. togglepage bm page = Inr bm' \<and> length bm' = length bm \<and>
       (\<forall>n < 8 * length bm. bitmap_test bm' n =
          (if n = unat page then ebind (isfree bm page) Inr else bitmap_test bm n)))"
proof -
  obtain bm' where "togglepage bm page = Inr bm'" "length bm' = length bm"
    "\<And>n. page_used bm' n \<longleftrightarrow> page_used bm n \<noteq> (n = unat page)"
    using togglepage_page_used [OF assms] by blast
  with assms show ?thesis
    by (auto simp: isfree_page_used bitmap_test_eq)
qed

lemma pallocaddr_loop_free:
  "8 dvd length bm \<Longrightarrow> unat i + n < 2 ^ 32 \<Longrightarrow> unat i + n \<le> 8 * length bm \<Longrightarrow>
   \<forall>k. unat i \<le> k \<and> k < unat i + n \<longrightarrow> \<not> page_used bm k \<Longrightarrow>
   \<exists>bm'. pallocaddr_loop i n bm = Inr bm' \<and> length bm' = length bm \<and>
       (\<forall>k. page_used bm' k \<longleftrightarrow> page_used bm k \<or> unat i \<le> k \<and> k < unat i + n)"
proof (induction n arbitrary: i bm)
  case (Suc n)
  have i: "unat (i + 1) = Suc (unat i)"
    using Suc.prems(2) by (subst unat_add_no_wrap) simp_all
  obtain bm1 where b1: "togglepage bm i = Inr bm1" "length bm1 = length bm"
    "\<And>k. page_used bm1 k \<longleftrightarrow> page_used bm k \<noteq> (k = unat i)"
    using togglepage_page_used [of bm i] Suc.prems by auto
  have free: "\<not> page_used bm (unat i)" using Suc.prems by simp
  then have step: "pallocaddr_loop i (Suc n) bm = pallocaddr_loop (i + 1) n bm1"
    using Suc.prems b1 by (simp add: isfree_page_used)
  have "\<exists>bm'. pallocaddr_loop (i + 1) n bm1 = Inr bm' \<and> length bm' = length bm1 \<and>
      (\<forall>k. page_used bm' k \<longleftrightarrow> page_used bm1 k \<or> unat (i + 1) \<le> k \<and> k < unat (i + 1) + n)"
    using Suc.prems b1 by (intro Suc.IH) (auto simp: i)
  then obtain bm' where "pallocaddr_loop (i + 1) n bm1 = Inr bm'" "length bm' = length bm1"
    and u: "\<And>k. page_used bm' k \<longleftrightarrow> page_used bm1 k \<or> unat (i + 1) \<le> k \<and> k < unat (i + 1) + n"
    by blast
  moreover have "page_used bm' k \<longleftrightarrow> page_used bm k \<or> unat i \<le> k \<and> k < unat i + Suc n" for k
    using u [of k] b1(3) [of k] free i by auto
  ultimately show ?case using step b1(2) by simp
qed auto

lemma pallocaddr_loop_used:
  "8 dvd length bm \<Longrightarrow> unat i + n < 2 ^ 32 \<Longrightarrow> unat i + n \<le> 8 * length bm \<Longrightarrow>
   unat i \<le> k \<Longrightarrow> k < unat i + n \<Longrightarrow> page_used bm k \<Longrightarrow>
   pallocaddr_loop i n bm = Inl (Panic ''panic: pallocaddr, page is not free'')"
proof (induction n arbitrary: i bm)
  case (Suc n)
  have i: "unat (i + 1) = Suc (unat i)"
    using Suc.prems(2) by (subst unat_add_no_wrap) simp_all
  show ?case
  proof (cases "page_used bm (unat i)")
    case True
    with Suc.prems show ?thesis by (simp add: isfree_page_used)
  next
    case False
    obtain bm1 where b1: "togglepage bm i = Inr bm1" "length bm1 = length bm"
      "\<And>k. page_used bm1 k \<longleftrightarrow> page_used bm k \<noteq> (k = unat i)"
      using togglepage_page_used [of bm i] Suc.prems by auto
    have "k \<noteq> unat i" using False Suc.prems by auto
    then have "pallocaddr_loop (i + 1) n bm1 = Inl (Panic ''panic: pallocaddr, page is not free'')"
      using Suc.prems b1 by (intro Suc.IH) (auto simp: i)
    with False Suc.prems b1(1) show ?thesis by (simp add: isfree_page_used)
  qed
qed simp

text \<open>
  C28 (\<open>pallocaddr\<close> takes the named frames or panics).  With the lock free and the range inside the
  bitmap, \<open>pallocaddr(n, paddr)\<close> marks exactly the \<open>n\<close> frames from \<open>paddr\<close> on and releases the lock if
  all of them were free; if one of them was in use it panics.
\<close>
theorem pallocaddr_spec:
  assumes "8 dvd length (bitmap s)" and "spinlock s = 0"
    and "unat paddr div 4096 + unat n < 2 ^ 32"
    and "unat paddr div 4096 + unat n \<le> 8 * length (bitmap s)"
  shows "if frames paddr (unat n) \<inter> used_pages s = {}
    then \<exists>s'. pallocaddr n paddr s = Inr (paddr, s') \<and> spinlock s' = 0 \<and>
           used_pages s' = used_pages s \<union> frames paddr (unat n)
    else pallocaddr n paddr s = Inl (Panic ''panic: pallocaddr, page is not free'')"
proof -
  let ?p = "ucast (paddr div 4096) :: u32"
  have p: "unat ?p = unat paddr div 4096"
    using assms(3) by (simp add: unsigned_ucast_eq unsigned_take_bit_eq unat_div take_bit_nat_eq_self)
  have n: "unat (?p + n) - unat ?p = unat n"
    using assms(3) p by (subst unat_add_no_wrap) simp_all
  have eq: "pallocaddr n paddr s =
      ebind (pallocaddr_loop ?p (unat n) (bitmap s)) (\<lambda>bm. Inr (paddr, s\<lparr>bitmap := bm, spinlock := 0\<rparr>))"
    using assms(2) n by (simp add: pallocaddr_def Let_def)
  show ?thesis
  proof (cases "frames paddr (unat n) \<inter> used_pages s = {}")
    case True
    then have "\<forall>k. unat ?p \<le> k \<and> k < unat ?p + unat n \<longrightarrow> \<not> page_used (bitmap s) k"
      unfolding p frames_def used_pages_def by auto
    then obtain bm' where "pallocaddr_loop ?p (unat n) (bitmap s) = Inr bm'"
      and u: "\<forall>k. page_used bm' k \<longleftrightarrow> page_used (bitmap s) k \<or> unat ?p \<le> k \<and> k < unat ?p + unat n"
      using pallocaddr_loop_free [OF assms(1), of ?p "unat n"] assms(3,4) p by auto
    moreover have "used_pages (s\<lparr>bitmap := bm', spinlock := 0\<rparr>) = used_pages s \<union> frames paddr (unat n)"
      unfolding used_pages_def frames_def p [symmetric] set_eq_iff using u by simp
    ultimately show ?thesis using True eq by simp
  next
    case False
    then obtain k where "page_used (bitmap s) k" "unat ?p \<le> k" "k < unat ?p + unat n"
      unfolding p frames_def used_pages_def by auto
    then show ?thesis
      using False eq pallocaddr_loop_used [OF assms(1), of ?p "unat n" k] assms(3,4) p by simp
  qed
qed

theorem pallocaddr_spec_witness:
  "pallocaddr 2 0x3000 \<lparr>bitmap = 0x10 # replicate 7 0, bitmap_addr = 0, spinlock = 0, dbg_g = 10\<rparr>
     = Inl (Panic ''panic: pallocaddr, page is not free'')"
proof -
  let ?s = "\<lparr>bitmap = 0x10 # replicate 7 0, bitmap_addr = 0, spinlock = 0, dbg_g = 10\<rparr> :: pmm"
  have "4 \<in> frames 0x3000 (unat (2 :: u32)) \<inter> used_pages ?s"
    by (simp add: frames_def used_pages_def page_used_def)
  then have "frames 0x3000 (unat (2 :: u32)) \<inter> used_pages ?s \<noteq> {}" by blast
  with pallocaddr_spec [of ?s "0x3000" 2] show ?thesis by (simp split: if_splits)
qed

subsection \<open>\<open>initbmap\<close>\<close>

text \<open>The frames the third pass clears for one usable entry: one per step of \<open>j\<close>.\<close>

definition entry_pages :: "memmap_entry \<Rightarrow> nat set" where
  "entry_pages e = {unat ((me_base e + of_nat (i * 4096)) div 4096) | i. i * 4096 < unat (me_len e)}"

lemma page_used_Nil: "\<not> page_used [] n"
  by (simp add: page_used_def)

lemma page_used_full: "page_used (replicate m 0xff) n \<longleftrightarrow> n < 8 * m"
proof -
  have "bit (0xff :: u8) k" if "k < 8" for k
    using bit_mask_iff [where 'a = u8, of 8 k] that by (simp add: mask_eq_exp_minus_1)
  then show ?thesis by (auto simp: page_used_def div8_less_iff)
qed

lemma reset_loop_spec:
  "reset_loop bm b l j = Inr bm' \<Longrightarrow> length bm' = length bm \<and>
     (\<forall>n. page_used bm' n \<longleftrightarrow> page_used bm n \<and>
        \<not> (\<exists>i. unat j + i * 4096 < unat l \<and> n = unat ((b + j + of_nat (i * 4096)) div 4096))) \<and>
     (\<forall>i. unat j + i * 4096 < unat l \<longrightarrow> unat ((b + j + of_nat (i * 4096)) div 4096) < 8 * length bm)"
proof (induction bm b l j rule: reset_loop.induct)
  case (1 bm b l j)
  show ?case
  proof (cases "j < l")
    case False
    with "1.prems" show ?thesis
      by (subst (asm) reset_loop.simps) (auto simp: word_less_nat_alt)
  next
    case True
    from "1.prems" True obtain bm1 where
      r: "bitmap_reset bm (unat ((b + j) div 4096)) = Inr bm1" and nw: "\<not> 2 ^ 64 \<le> unat j + 4096"
      and rec: "reset_loop bm1 b l (j + 4096) = Inr bm'"
      by (subst (asm) reset_loop.simps) (auto simp: ebind_eq_Inr split: if_splits)
    have j: "unat (j + 4096) = unat j + 4096"
      using nw by (subst unat_add_no_wrap) simp_all
    note IH = "1.IH" [OF True r nw rec, unfolded j]
    have in_range: "unat ((b + j) div 4096) < 8 * length bm"
      using r bitmap_reset_out [of bm "unat ((b + j) div 4096)"] by fastforce
    have b1: "length bm1 = length bm"
      "\<And>n. page_used bm1 n \<longleftrightarrow> page_used bm n \<and> n \<noteq> unat ((b + j) div 4096)"
      using bitmap_reset_eq [OF in_range] r by auto
    have off: "b + j + of_nat (Suc i * 4096) = b + (j + 4096) + of_nat (i * 4096)" for i
      by (simp add: algebra_simps)
    have lim: "unat j + Suc i * 4096 < unat l \<longleftrightarrow> unat j + 4096 + i * 4096 < unat l" for i
      by (simp only: mult_Suc add.assoc)
    have "page_used bm' n \<longleftrightarrow> page_used bm n \<and>
        \<not> (\<exists>i. unat j + i * 4096 < unat l \<and> n = unat ((b + j + of_nat (i * 4096)) div 4096))" for n
      unfolding ex_nat_0_Suc [of "\<lambda>i. unat j + i * 4096 < unat l \<and> n = unat ((b + j + of_nat (i * 4096)) div 4096)"]
        off lim using IH b1(2) [of n] True by (auto simp: word_less_nat_alt)
    moreover have "\<forall>i. unat j + i * 4096 < unat l \<longrightarrow> unat ((b + j + of_nat (i * 4096)) div 4096) < 8 * length bm"
      unfolding all_nat_0_Suc [of "\<lambda>i. unat j + i * 4096 < unat l \<longrightarrow> unat ((b + j + of_nat (i * 4096)) div 4096) < 8 * length bm"]
        off lim using IH b1(1) in_range by simp
    ultimately show ?thesis using IH b1(1) by simp
  qed
qed

lemma carve_loop_cases:
  "carve_loop sz mm s = (mm', s') \<Longrightarrow>
     s' = s \<or> (\<exists>a. s' = s\<lparr>bitmap_addr := a, bitmap := replicate (unat sz) 0xff\<rparr>)"
  by (induction sz mm s arbitrary: mm' rule: carve_loop.induct) (auto split: if_splits prod.splits)

lemma free_usable_spec:
  "free_usable es bm = Inr bm' \<Longrightarrow> length bm' = length bm \<and>
     (\<forall>n. page_used bm' n \<longleftrightarrow> page_used bm n \<and> \<not> (\<exists>e \<in> set es. me_type e = 0 \<and> n \<in> entry_pages e)) \<and>
     (\<forall>e \<in> set es. me_type e = 0 \<longrightarrow> (\<forall>n \<in> entry_pages e. n < 8 * length bm))"
proof (induction es bm rule: free_usable.induct)
  case (2 e es bm)
  show ?case
  proof (cases "me_type e = 0")
    case True
    with "2.prems" obtain bm1 where r: "reset_loop bm (me_base e) (me_len e) 0 = Inr bm1"
      and rec: "free_usable es bm1 = Inr bm'"
      by (auto simp: ebind_eq_Inr)
    have b1: "length bm1 = length bm" "\<And>n. page_used bm1 n \<longleftrightarrow> page_used bm n \<and> n \<notin> entry_pages e"
      "\<forall>n \<in> entry_pages e. n < 8 * length bm"
      using reset_loop_spec [OF r] by (auto simp: entry_pages_def)
    from "2.IH"(2) [OF _ r rec] True b1 show ?thesis by auto
  next
    case False
    with 2 show ?thesis by auto
  qed
qed simp


lemma initbmap_example:
  "initbmap [\<lparr>me_base = 0, me_len = 0x8000, me_type = 0\<rparr>]
     \<lparr>bitmap = [], bitmap_addr = 0, spinlock = 0, dbg_g = 10\<rparr> =
   Inr ([\<lparr>me_base = 1, me_len = 0x7fff, me_type = 0\<rparr>],
     \<lparr>bitmap = [0], bitmap_addr = P2V 0, spinlock = 0, dbg_g = 10\<rparr>)"
  by (simp add: initbmap_def reset_loop.simps bitmap_reset_def)


text \<open>
  The bitmap can give away its own memory: its size in bytes is not rounded up to whole pages when it is
  carved out, so the first frame cleared for the rest of that entry is the one that holds the last
  bytes of the bitmap.
\<close>
lemma initbmap_frees_bitmap_frame:
  "\<exists>memmap' s'. initbmap [\<lparr>me_base = 0, me_len = 0x8000, me_type = 0\<rparr>]
       \<lparr>bitmap = [], bitmap_addr = 0, spinlock = 0, dbg_g = 10\<rparr> = Inr (memmap', s') \<and>
     bitmap s' = [0] \<and> \<not> page_used (bitmap s') (unat (V2P (bitmap_addr s') div 4096))"
  by (simp add: initbmap_example page_used_def)

end
