(* ===== verification/Cstring.thy ===== *)
theory Cstring
  imports Kernel_Prelude
begin

section \<open>Byte strings (kernel/string.c)\<close>

text \<open>
  A buffer is the list of its bytes, from the pointer on to the end of the object it points into;
  reading or writing past that end is \<open>BadAccess\<close>.  A C string is a buffer with a zero byte in it;
  \<open>cstr s\<close> is the buffer that holds the bytes \<open>s\<close> and their terminator.  The loops are written with the
  index running as it does in C.
\<close>

definition rd :: "u8 list \<Rightarrow> nat \<Rightarrow> u8 result" where
  "rd s i = (if i < length s then Inr (s ! i) else Inl BadAccess)"

definition wr :: "u8 list \<Rightarrow> nat \<Rightarrow> u8 \<Rightarrow> u8 list result" where
  "wr d i v = (if i < length d then Inr (d[i := v]) else Inl BadAccess)"

subsection \<open>Copying and filling\<close>

text \<open>\<open>for (i = i0; i < n; ++i) d[i] = s[i]\<close>, with \<open>k = n - i\<close> iterations to go.\<close>

fun copy_loop :: "u8 list \<Rightarrow> u8 list \<Rightarrow> nat \<Rightarrow> nat \<Rightarrow> u8 list result" where
  "copy_loop d s i 0 = Inr d"
| "copy_loop d s i (Suc k) =
     ebind (rd s i) (\<lambda>c. ebind (wr d i c) (\<lambda>d. copy_loop d s (Suc i) k))"

definition memcpy :: "u8 list \<Rightarrow> u8 list \<Rightarrow> nat \<Rightarrow> u8 list result" where
  "memcpy dest src n = copy_loop dest src 0 n"

fun fill_loop :: "u8 list \<Rightarrow> u8 \<Rightarrow> nat \<Rightarrow> nat \<Rightarrow> u8 list result" where
  "fill_loop s c i 0 = Inr s"
| "fill_loop s c i (Suc k) = ebind (wr s i c) (\<lambda>s. fill_loop s c (Suc i) k)"

definition memset :: "u8 list \<Rightarrow> u32 \<Rightarrow> nat \<Rightarrow> u8 list result" where
  \<comment> \<open>\<open>ss[i] = c\<close> truncates the \<open>int\<close> to a \<open>char\<close>\<close>
  "memset s c n = fill_loop s (ucast c) 0 n"

definition memzero :: "u8 list \<Rightarrow> nat \<Rightarrow> u8 list result" where
  "memzero mem n = fill_loop mem 0 0 n"

subsection \<open>Length, comparison, search\<close>

text \<open>\<open>while (++n && s[n]);\<close> increments before it looks, so \<open>s[0]\<close> is never examined.\<close>

function strlen_loop :: "u8 list \<Rightarrow> nat \<Rightarrow> nat result" where
  "strlen_loop s n =
     (let n = n + 1 in ebind (rd s n) (\<lambda>c. if c \<noteq> 0 then strlen_loop s n else Inr n))"
  by pat_completeness auto
termination
  by (relation "measure (\<lambda>(s, n). length s - n)") (auto simp: rd_def split: if_splits)

declare strlen_loop.simps [simp del]

definition strlen :: "u8 list \<Rightarrow> nat result" where
  "strlen s = strlen_loop s 0"

fun cmp_loop :: "u8 list \<Rightarrow> u8 list \<Rightarrow> nat \<Rightarrow> nat \<Rightarrow> int result" where
  "cmp_loop s s2 i 0 = Inr 0"
| "cmp_loop s s2 i (Suc k) =
     ebind (rd s i) (\<lambda>a. ebind (rd s2 i) (\<lambda>b. if a \<noteq> b then Inr (- 1) else cmp_loop s s2 (Suc i) k))"

definition strcmp :: "u8 list \<Rightarrow> u8 list \<Rightarrow> int result" where
  "strcmp s s2 =
     ebind (strlen s) (\<lambda>len. ebind (strlen s2) (\<lambda>len2.
     if len \<noteq> len2 then Inr (- 1) else cmp_loop s s2 0 len))"

definition strncmp :: "u8 list \<Rightarrow> u8 list \<Rightarrow> nat \<Rightarrow> int result" where
  "strncmp s s2 n = cmp_loop s s2 0 n"

text \<open>The position \<open>strchr\<close> returns, as an index; at the terminator it stops there (\<open>s - 1\<close>).\<close>

function strchr_loop :: "u8 list \<Rightarrow> u8 \<Rightarrow> nat \<Rightarrow> nat result" where
  "strchr_loop s c i =
     ebind (rd s i) (\<lambda>a. if a = c then Inr i else if a \<noteq> 0 then strchr_loop s c (i + 1) else Inr i)"
  by pat_completeness auto
termination
  by (relation "measure (\<lambda>(s, c, i). length s - i)") (auto simp: rd_def split: if_splits)

declare strchr_loop.simps [simp del]

definition strchr :: "u8 list \<Rightarrow> u8 \<Rightarrow> nat result" where
  "strchr s c = strchr_loop s c 0"

subsection \<open>Copying strings\<close>

definition strcpy :: "u8 list \<Rightarrow> u8 list \<Rightarrow> u8 list result" where
  "strcpy s s2 =
     ebind (strlen s2) (\<lambda>i. ebind (copy_loop s s2 0 i) (\<lambda>s. wr s i 0))"

text \<open>
  \<open>strdup\<close> and \<open>strldup\<close> fill a block fresh from \<open>kalloc\<close>; what the block held before is the
  parameter \<open>fresh\<close>, a function of its size.
\<close>

definition strldup :: "(nat \<Rightarrow> u8 list) \<Rightarrow> u8 list \<Rightarrow> nat \<Rightarrow> u8 list result" where
  "strldup fresh s len =
     ebind (copy_loop (fresh (len + 1)) s 0 len) (\<lambda>ss. wr ss len 0)"

definition strdup :: "(nat \<Rightarrow> u8 list) \<Rightarrow> u8 list \<Rightarrow> u8 list result" where
  "strdup fresh s =
     ebind (strlen s) (\<lambda>len. ebind (copy_loop (fresh (len + 1)) s 0 len) (\<lambda>ss. wr ss len 0))"

subsection \<open>Decimal conversion\<close>

text \<open>
  \<open>itoa\<close> collects the remainders (C's \<open>%\<close> and \<open>/\<close> truncate towards zero) in \<open>int arr[10]\<close> and then
  writes them in reverse.  It does not write a terminator.
\<close>

definition c_div10 :: "int \<Rightarrow> int" where
  "c_div10 x = sgn x * (\<bar>x\<bar> div 10)"

definition c_mod10 :: "int \<Rightarrow> int" where
  "c_mod10 x = sgn x * (\<bar>x\<bar> mod 10)"

function digits_loop :: "int \<Rightarrow> int list \<Rightarrow> int list" where
  "digits_loop x arr =
     (let arr = arr @ [c_mod10 x]; x = c_div10 x in if x \<noteq> 0 then digits_loop x arr else arr)"
  by pat_completeness auto
termination
proof (relation "measure (\<lambda>(x, arr). nat \<bar>x\<bar>)", goal_cases)
  case (2 x arr arr' x')
  then have "\<bar>x\<bar> div 10 \<noteq> 0" by (auto simp: c_div10_def)
  then have "\<bar>x\<bar> > 0" by (cases "x = 0") auto
  then have "\<bar>x\<bar> div 10 < \<bar>x\<bar>" by linarith
  with 2 \<open>\<bar>x\<bar> > 0\<close> show ?case by (auto simp: c_div10_def abs_mult sgn_if)
qed simp

declare digits_loop.simps [simp del]

fun put_digits :: "int list \<Rightarrow> u8 list \<Rightarrow> nat \<Rightarrow> u8 list result" where
  "put_digits [] s r = Inr s"
| "put_digits (d # ds) s r = ebind (wr s r (of_int (d + 48))) (\<lambda>s. put_digits ds s (r + 1))"

definition itoa :: "int \<Rightarrow> u8 list \<Rightarrow> u8 list result" where
  "itoa x s = (let arr = digits_loop x [] in
     if length arr \<le> 10 then put_digits (rev arr) s 0 else Inl BadAccess)"

subsection \<open>The loops\<close>

definition cstr :: "u8 list \<Rightarrow> u8 list" where
  "cstr s = s @ [0]"

text \<open>The bytes of a HOL string literal.\<close>

definition bytes :: "string \<Rightarrow> u8 list" where
  "bytes s = map of_char s"

named_theorems cstring_spec \<open>what the string routines compute on well-formed arguments\<close>

lemma copy_loop_spec:
  "i + k \<le> length d \<Longrightarrow> i + k \<le> length s \<Longrightarrow>
     copy_loop d s i k = Inr (take i d @ take k (drop i s) @ drop (i + k) d)"
proof (induction k arbitrary: d i)
  case (Suc k)
  have "copy_loop d s i (Suc k) = copy_loop (d[i := s ! i]) s (Suc i) k"
    using Suc.prems by (simp add: rd_def wr_def)
  also have "\<dots> = Inr (take (Suc i) (d[i := s ! i]) @ take k (drop (Suc i) s) @ drop (Suc i + k) (d[i := s ! i]))"
    using Suc.prems by (intro Suc.IH) auto
  also have "take (Suc i) (d[i := s ! i]) = take i d @ [s ! i]"
    using Suc.prems by (simp add: take_Suc_conv_app_nth)
  also have "drop (Suc i + k) (d[i := s ! i]) = drop (i + Suc k) d" by simp
  finally show ?case using Suc.prems by (simp add: Cons_nth_drop_Suc [symmetric])
qed simp

lemma memcpy_spec [cstring_spec]:
  "n \<le> length d \<Longrightarrow> n \<le> length s \<Longrightarrow> memcpy d s n = Inr (take n s @ drop n d)"
  by (simp add: memcpy_def copy_loop_spec)

lemma fill_loop_spec:
  "i + k \<le> length s \<Longrightarrow> fill_loop s c i k = Inr (take i s @ replicate k c @ drop (i + k) s)"
proof (induction k arbitrary: s i)
  case (Suc k)
  have "fill_loop s c i (Suc k) = fill_loop (s[i := c]) c (Suc i) k"
    using Suc.prems by (simp add: wr_def)
  also have "\<dots> = Inr (take (Suc i) (s[i := c]) @ replicate k c @ drop (Suc i + k) (s[i := c]))"
    using Suc.prems by (intro Suc.IH) auto
  also have "take (Suc i) (s[i := c]) = take i s @ [c]"
    using Suc.prems by (simp add: take_Suc_conv_app_nth)
  finally show ?case by simp
qed simp

lemma memset_spec [cstring_spec]:
  "n \<le> length s \<Longrightarrow> memset s c n = Inr (replicate n (ucast c) @ drop n s)"
  by (simp add: memset_def fill_loop_spec)

lemma memzero_spec [cstring_spec]:
  "n \<le> length s \<Longrightarrow> memzero s n = Inr (replicate n 0 @ drop n s)"
  by (simp add: memzero_def fill_loop_spec)

lemma strlen_loop_spec:
  "n < m \<Longrightarrow> m < length s \<Longrightarrow> s ! m = 0 \<Longrightarrow> \<forall>j. n < j \<and> j < m \<longrightarrow> s ! j \<noteq> 0 \<Longrightarrow> strlen_loop s n = Inr m"
proof (induction s n rule: strlen_loop.induct)
  case (1 s n)
  show ?case
  proof (cases "Suc n = m")
    case True
    with "1.prems" show ?thesis by (subst strlen_loop.simps) (auto simp: rd_def)
  next
    case False
    with "1.prems" have nz: "s ! (n + 1) \<noteq> 0" and lt: "n + 1 < length s" by auto
    then have "strlen_loop s (n + 1) = Inr m"
      using "1.IH" [OF refl, of "s ! (n + 1)"] "1.prems" False by (auto simp: rd_def)
    with nz lt show ?thesis by (subst strlen_loop.simps) (simp add: rd_def)
  qed
qed

lemma strlen_spec [cstring_spec]:
  assumes "s \<noteq> []" and "0 \<notin> set s"
  shows "strlen (s @ 0 # r) = Inr (length s)"
  unfolding strlen_def
proof (rule strlen_loop_spec)
  show "\<forall>j. 0 < j \<and> j < length s \<longrightarrow> (s @ 0 # r) ! j \<noteq> 0"
    using assms(2) by (auto simp: nth_append in_set_conv_nth)
qed (use assms(1) in \<open>auto simp: nth_append\<close>)

text \<open>On an empty string the length is that of the bytes \<^emph>\<open>behind\<close> the terminator, plus one.\<close>

lemma strlen_empty:
  "0 \<notin> set t \<Longrightarrow> strlen (0 # t @ 0 # r) = Inr (length t + 1)"
  unfolding strlen_def
  by (rule strlen_loop_spec) (auto simp: nth_append nth_Cons in_set_conv_nth split: nat.splits)

lemma cmp_loop_eq:
  "i + k \<le> length s \<Longrightarrow> i + k \<le> length t \<Longrightarrow>
     cmp_loop s t i k = Inr (if \<forall>j \<in> {i..<i + k}. s ! j = t ! j then 0 else - 1)"
proof (induction k arbitrary: i)
  case (Suc k)
  have "{i..<i + Suc k} = insert i {Suc i..<Suc i + k}" by auto
  with Suc.prems Suc.IH [of "Suc i"] show ?case by (simp add: rd_def)
qed simp

lemma cmp_loop_differs:
  "i \<le> m \<Longrightarrow> m < i + k \<Longrightarrow> m < length s \<Longrightarrow> m < length t \<Longrightarrow> s ! m \<noteq> t ! m \<Longrightarrow>
     cmp_loop s t i k = Inr (- 1)"
proof (induction k arbitrary: i)
  case (Suc k)
  show ?case
  proof (cases "s ! i = t ! i")
    case True
    with Suc.prems have "i \<noteq> m" by auto
    with Suc.prems have "cmp_loop s t (Suc i) k = Inr (- 1)" by (intro Suc.IH) auto
    with Suc.prems True show ?thesis by (simp add: rd_def)
  next
    case False
    with Suc.prems show ?thesis by (simp add: rd_def)
  qed
qed simp

lemma strncmp_spec [cstring_spec]:
  assumes "n \<le> length t" and "0 \<notin> set (take n t)"
  shows "strncmp (s @ 0 # r) t n = Inr (if take n s = take n t then 0 else - 1)"
proof (cases "n \<le> length s")
  case True
  have "(\<forall>j \<in> {0..<0 + n}. (s @ 0 # r) ! j = t ! j) \<longleftrightarrow> take n s = take n t"
    using True assms(1) by (auto simp: list_eq_iff_nth_eq nth_append)
  with True assms(1) show ?thesis by (simp add: strncmp_def cmp_loop_eq)
next
  case False
  let ?m = "length s"
  have "t ! ?m \<noteq> 0" using False assms by (metis in_set_conv_nth length_take min.absorb2 not_le nth_take)
  then have "cmp_loop (s @ 0 # r) t 0 n = Inr (- 1)"
    using False assms(1) by (intro cmp_loop_differs [of 0 ?m]) auto
  moreover have "take n s \<noteq> take n t"
    using False assms(1) by (metis length_take min.absorb2 nat_le_linear take_all)
  ultimately show ?thesis by (simp add: strncmp_def)
qed

lemma strcmp_spec [cstring_spec]:
  assumes "s \<noteq> []" "0 \<notin> set s" and "t \<noteq> []" "0 \<notin> set t"
  shows "strcmp (s @ 0 # r) (t @ 0 # q) = Inr (if s = t then 0 else - 1)"
proof (cases "length s = length t")
  case True
  have "(\<forall>j \<in> {0..<0 + length t}. (s @ 0 # r) ! j = (t @ 0 # q) ! j) \<longleftrightarrow> s = t"
    unfolding list_eq_iff_nth_eq [of s] using True by (auto simp: nth_append)
  with True assms show ?thesis by (simp add: strcmp_def strlen_spec cmp_loop_eq)
next
  case False
  with assms show ?thesis by (auto simp: strcmp_def strlen_spec)
qed

lemma strcpy_spec [cstring_spec]:
  assumes "s \<noteq> []" "0 \<notin> set s" and "length s < length d"
  shows "strcpy d (s @ 0 # r) = Inr (s @ 0 # drop (Suc (length s)) d)"
  using assms
  by (simp add: strcpy_def strlen_spec copy_loop_spec wr_def list_update_append
      Cons_nth_drop_Suc [symmetric])

lemma strldup_spec [cstring_spec]:
  assumes "n \<le> length s" and "\<And>k. length (fresh k) = k"
  shows "strldup fresh s n = Inr (take n s @ [0])"
proof -
  have "drop n (fresh (Suc n)) = [fresh (Suc n) ! n]"
    using assms(2) by (simp add: Cons_nth_drop_Suc [symmetric])
  with assms show ?thesis by (simp add: strldup_def copy_loop_spec wr_def list_update_append)
qed

lemma strdup_spec [cstring_spec]:
  assumes "s \<noteq> []" "0 \<notin> set s" and "\<And>k. length (fresh k) = k"
  shows "strdup fresh (s @ 0 # r) = Inr (s @ [0])"
  using assms strldup_spec [of "length s" "s @ 0 # r" fresh]
  by (simp add: strdup_def strldup_def strlen_spec)

lemma strchr_loop_spec:
  "i \<le> m \<Longrightarrow> m < length s \<Longrightarrow> s ! m = c \<or> s ! m = 0 \<Longrightarrow>
   \<forall>j. i \<le> j \<and> j < m \<longrightarrow> s ! j \<noteq> c \<and> s ! j \<noteq> 0 \<Longrightarrow> strchr_loop s c i = Inr m"
proof (induction s c i rule: strchr_loop.induct)
  case (1 s c i)
  show ?case
  proof (cases "i = m")
    case True
    with "1.prems" show ?thesis by (subst strchr_loop.simps) (auto simp: rd_def)
  next
    case False
    with "1.prems" have nz: "s ! i \<noteq> c" "s ! i \<noteq> 0" and lt: "i < length s" by auto
    then have "strchr_loop s c (i + 1) = Inr m"
      using "1.IH" [of "s ! i"] "1.prems" False by (auto simp: rd_def)
    with nz lt show ?thesis by (subst strchr_loop.simps) (simp add: rd_def)
  qed
qed

lemma strcmp_cstr:
  assumes "s \<noteq> []" "0 \<notin> set s" and "t \<noteq> []" "0 \<notin> set t"
  shows "strcmp (cstr s) (cstr t) = Inr (if s = t then 0 else - 1)"
  using assms by (simp add: cstr_def strcmp_spec)

lemma strncmp_cstr:
  assumes "n \<le> length t" and "0 \<notin> set t"
  shows "strncmp (cstr s) (cstr t) n = Inr (if take n s = take n t then 0 else - 1)"
proof -
  have "take n (cstr t) = take n t" and "n \<le> length (cstr t)" and "0 \<notin> set (take n t)"
    using assms by (auto simp: cstr_def dest: in_set_takeD)
  with strncmp_spec [of n "cstr t" s "[]"] show ?thesis by (simp add: cstr_def [of s])
qed

lemma strcpy_cstr:
  assumes "s \<noteq> []" "0 \<notin> set s" and "length s < length d"
  shows "strcpy d (cstr s) = Inr (cstr s @ drop (Suc (length s)) d)"
  using strcpy_spec [OF assms, of "[]"] by (simp add: cstr_def)

lemma strdup_cstr:
  assumes "s \<noteq> []" "0 \<notin> set s" and "\<And>k. length (fresh k) = k"
  shows "strdup fresh (cstr s) = Inr (cstr s)"
  using strdup_spec [OF assms, of "[]"] by (simp add: cstr_def)

lemma strldup_cstr:
  assumes "n \<le> length s" and "\<And>k. length (fresh k) = k"
  shows "strldup fresh (cstr s) n = Inr (cstr (take n s))"
  using strldup_spec [of n "cstr s" fresh] assms by (simp add: cstr_def)

subsection \<open>Properties\<close>

text \<open>
  Copies: \<open>strcpy\<close> into a large enough buffer, \<open>strdup\<close> and \<open>strldup\<close> reproduce a non-empty string
  with its terminator; a duplicate compares equal to the original.
\<close>
lemma strcpy_strdup_roundtrip:
  assumes "s \<noteq> []" "0 \<notin> set s" and "length s < length d" and "\<And>k. length (fresh k) = k"
  shows "strcpy d (cstr s) = Inr (cstr s @ drop (Suc (length s)) d) \<and>
    strdup fresh (cstr s) = Inr (cstr s) \<and>
    strldup fresh (cstr s) (length s) = Inr (cstr s) \<and>
    ebind (strdup fresh (cstr s)) (\<lambda>t. strcmp t (cstr s)) = Inr 0"
  using assms strcmp_cstr [of s s] strldup_cstr [of "length s" s fresh]
  by (simp add: strcpy_cstr strdup_cstr)

subsection \<open>\<open>itoa\<close>\<close>

lemma digits_loop_nonneg:
  "0 \<le> x \<Longrightarrow> \<exists>ds. digits_loop x arr = arr @ ds \<and> ds \<noteq> [] \<and> (\<forall>d \<in> set ds. 0 \<le> d \<and> d < 10) \<and>
     foldr (\<lambda>d v. 10 * v + d) ds 0 = x \<and> (\<forall>k. 0 < k \<longrightarrow> x < 10 ^ k \<longrightarrow> length ds \<le> k)"
proof (induction x arr rule: digits_loop.induct)
  case (1 x arr)
  have q: "c_div10 x = x div 10" "c_mod10 x = x mod 10"
    using "1.prems" by (auto simp: c_div10_def c_mod10_def sgn_if)
  show ?case
  proof (cases "x div 10 = 0")
    case True
    then have "digits_loop x arr = arr @ [x mod 10]"
      by (subst digits_loop.simps) (simp add: q)
    moreover have "x mod 10 = x" using True by (metis add.left_neutral mult_zero_right mult_div_mod_eq)
    ultimately show ?thesis using "1.prems" True by (intro exI [of _ "[x mod 10]"]) auto
  next
    case False
    have "digits_loop x arr = digits_loop (x div 10) (arr @ [x mod 10])"
      using False by (subst digits_loop.simps) (simp add: q)
    moreover obtain ds where ds: "digits_loop (x div 10) (arr @ [x mod 10]) = (arr @ [x mod 10]) @ ds"
      "\<forall>d \<in> set ds. 0 \<le> d \<and> d < 10" "foldr (\<lambda>d v. 10 * v + d) ds 0 = x div 10"
      "\<And>k. 0 < k \<Longrightarrow> x div 10 < 10 ^ k \<Longrightarrow> length ds \<le> k"
      using "1.IH" [OF refl refl] False pos_imp_zdiv_nonneg_iff [of 10 x] "1.prems" by (auto simp: q)
    moreover have "length (x mod 10 # ds) \<le> k" if "0 < k" "x < 10 ^ k" for k
    proof -
      have "k \<noteq> 1" using False "1.prems" that by auto
      with that obtain k' where k': "k = Suc k'" "0 < k'" by (cases k) auto
      have "x div 10 < 10 ^ k'" using that k' by simp
      with ds(4) [OF k'(2)] k'(1) show ?thesis by simp
    qed
    ultimately show ?thesis by (intro exI [of _ "x mod 10 # ds"]) auto
  qed
qed

lemma put_digits_spec:
  "r + length ds \<le> length s \<Longrightarrow>
     put_digits ds s r = Inr (take r s @ map (\<lambda>d. of_int (d + 48)) ds @ drop (r + length ds) s)"
proof (induction ds arbitrary: s r)
  case (Cons d ds)
  have "put_digits (d # ds) s r = put_digits ds (s[r := of_int (d + 48)]) (r + 1)"
    using Cons.prems by (simp add: wr_def)
  also have "\<dots> = Inr (take (r + 1) (s[r := of_int (d + 48)]) @ map (\<lambda>d. of_int (d + 48)) ds
      @ drop (r + 1 + length ds) (s[r := of_int (d + 48)]))"
    using Cons.prems by (intro Cons.IH) auto
  also have "take (r + 1) (s[r := of_int (d + 48)]) = take r s @ [of_int (d + 48)]"
    using Cons.prems by (simp add: take_Suc_conv_app_nth)
  finally show ?case by simp
qed simp

text \<open>The number a string of decimal digits stands for.\<close>

definition dec_value :: "u8 list \<Rightarrow> int" where
  "dec_value s = foldl (\<lambda>v c. 10 * v + (uint c - 48)) 0 s"

lemma uint_digit:
  assumes "0 \<le> d" "d < 10"
  shows "uint (word_of_int (d + 48) :: u8) = d + 48"
proof -
  have "(d + 48) mod 2 ^ 8 = d + 48" using assms by (intro mod_pos_pos_trivial) auto
  then show ?thesis by (simp only: uint_word_of_int) simp
qed

lemma dec_value_digits:
  "\<forall>d \<in> set ds. 0 \<le> d \<and> d < 10 \<Longrightarrow>
     dec_value (map (\<lambda>d. of_int (d + 48)) (rev ds)) = foldr (\<lambda>d v. 10 * v + d) ds 0"
proof (induction ds)
  case (Cons d ds)
  have "uint (word_of_int (d + 48) :: u8) = d + 48"
    using Cons.prems by (intro uint_digit) auto
  then have "uint (word_of_int d + 48 :: u8) = d + 48" by simp
  with Cons show ?case by (simp add: dec_value_def)
qed (simp add: dec_value_def)

text \<open>
  Decimal printing: For a non-negative \<open>int\<close> and a buffer of ten bytes, \<open>itoa\<close> terminates, writes
  between one and ten decimal digits from the start of the buffer whose value is the number, and leaves the
  rest of the buffer alone (in particular it writes no terminator).
\<close>
lemma itoa_prints_decimal:
  assumes "0 \<le> x" "x < 2 ^ 31" and "10 \<le> length s"
  shows "\<exists>ds. itoa x s = Inr (ds @ drop (length ds) s) \<and> 1 \<le> length ds \<and> length ds \<le> 10 \<and>
    dec_value ds = x \<and> (\<forall>c \<in> set ds. 48 \<le> c \<and> c \<le> 57)"
proof -
  obtain ds where ds: "digits_loop x [] = ds" "ds \<noteq> []" "\<forall>d \<in> set ds. 0 \<le> d \<and> d < 10"
    "foldr (\<lambda>d v. 10 * v + d) ds 0 = x" "\<And>k. 0 < k \<Longrightarrow> x < 10 ^ k \<Longrightarrow> length ds \<le> k"
    using digits_loop_nonneg [OF assms(1), of "[]"] by auto
  have len: "length ds \<le> 10" using ds(5) [of 10] assms(2) by simp
  let ?out = "map (\<lambda>d. of_int (d + 48)) (rev ds) :: u8 list"
  have "itoa x s = Inr (?out @ drop (length ?out) s)"
    using len ds(1) assms(3) by (simp add: itoa_def put_digits_spec)
  moreover have "48 \<le> (of_int (d + 48) :: u8) \<and> (of_int (d + 48) :: u8) \<le> 57" if "d \<in> set ds" for d
  proof -
    have "uint (word_of_int (d + 48) :: u8) = d + 48" using ds(3) that by (intro uint_digit) auto
    moreover have "0 \<le> d" "d < 10" using ds(3) that by auto
    ultimately show ?thesis by (simp add: word_le_def del: of_int_add)
  qed
  moreover have "1 \<le> length ?out" using ds(2) by (cases ds) auto
  ultimately show ?thesis using len dec_value_digits [OF ds(3)] ds(4)
    by (intro exI [of _ ?out]) auto
qed

end
