(* ===== verification/Slab.thy ===== *)
theory Slab
  imports Pmm
begin

section \<open>Slab allocator (kernel/slab.c, include/franklin/list.h)\<close>

text \<open>
  The kernel's memory is added to the state of the page allocator: \<open>mem\<close> gives the 8-byte word at a virtual
  address (all pointers and \<open>size_t\<close> fields the allocator and the page tables use are 8-byte aligned words of
  the direct map).  The static variables of \<^verbatim>\<open>slab.c\<close> are the fields \<open>slabber_first\<close>
  (\<open>slabber.slabs.first\<close>), \<open>slabber_lock\<close> and \<open>slab_id\<close>.

  Layout of \<open>struct slab\<close> (40 bytes): \<open>slabs.next\<close> at 0, \<open>size\<close> at 8, \<open>refcount\<close> at 16, the \<open>int id\<close> at 24,
  \<open>freelist.first\<close> at 32.  \<open>struct block\<close> has its \<open>next\<close> pointer at 0.
\<close>

record machine = pmm +
  mem :: "u64 \<Rightarrow> u64"
  slabber_first :: u64
  slabber_lock :: u32
  slab_id :: u32

text \<open>\<open>p->field\<close> read and written, the field at offset \<open>off\<close> of the object.\<close>

definition ld :: "u64 \<Rightarrow> u64 \<Rightarrow> 'a machine_scheme \<Rightarrow> u64 result" where
  "ld p off s = (if p = 0 then Inl NullDeref else Inr (mem s (p + off)))"

definition st :: "u64 \<Rightarrow> u64 \<Rightarrow> u64 \<Rightarrow> 'a machine_scheme \<Rightarrow> ('a machine_scheme) result" where
  "st p off v s = (if p = 0 then Inl NullDeref else Inr (s\<lparr>mem := (mem s)(p + off := v)\<rparr>))"

text \<open>A 4-byte store into the lower half of a word.\<close>

definition st32 :: "u64 \<Rightarrow> u64 \<Rightarrow> u32 \<Rightarrow> 'a machine_scheme \<Rightarrow> ('a machine_scheme) result" where
  "st32 p off v s =
     ebind (ld p off s) (\<lambda>old. st p off ((old AND NOT (mask 32)) OR ucast v) s)"

subsection \<open>Singly linked lists\<close>

text \<open>
  The macros of \<^verbatim>\<open>list.h\<close>.  A list head lives in a variable or in a field; the macros here take its value
  and return the new one, which the caller stores.  Both list entries of \<^verbatim>\<open>slab.c\<close> have \<open>next\<close> at offset 0.
\<close>

definition SLIST_NEXT :: "u64 \<Rightarrow> 'a machine_scheme \<Rightarrow> u64 result" where
  "SLIST_NEXT item s = ld item 0 s"

definition SLIST_INSERT_HEAD :: "u64 \<Rightarrow> u64 \<Rightarrow> 'a machine_scheme \<Rightarrow> (u64 \<times> 'a machine_scheme) result" where
  "SLIST_INSERT_HEAD item first s = ebind (st item 0 first s) (\<lambda>s. Inr (item, s))"

definition SLIST_INSERT_AFTER :: "u64 \<Rightarrow> u64 \<Rightarrow> 'a machine_scheme \<Rightarrow> (u64 \<times> 'a machine_scheme) result" where
  \<comment> \<open>returns the new value of the variable \<open>prev\<close>\<close>
  "SLIST_INSERT_AFTER item prev s =
     ebind (st prev 0 item s) (\<lambda>s. ebind (SLIST_NEXT prev s) (\<lambda>prev. Inr (prev, s)))"

definition SLIST_REMOVE_HEAD :: "u64 \<Rightarrow> 'a machine_scheme \<Rightarrow> (u64 \<times> u64) result" where
  \<comment> \<open>the removed item and the new head\<close>
  "SLIST_REMOVE_HEAD first s = ebind (SLIST_NEXT first s) (\<lambda>n. Inr (first, n))"

text \<open>
  A list of slabs has at most one node per page frame, so the number of frames of the bitmap bounds the
  iterations of a loop over it.
\<close>

definition list_fuel :: "'a pmm_scheme \<Rightarrow> nat" where
  "list_fuel s = Suc (8 * length (bitmap s))"

fun slist_find_prev :: "nat \<Rightarrow> u64 \<Rightarrow> u64 \<Rightarrow> 'a machine_scheme \<Rightarrow> u64 result" where
  "slist_find_prev 0 current item s = Inl NoFuel"
| "slist_find_prev (Suc k) current item s =
     ebind (SLIST_NEXT current s) (\<lambda>n. if n \<noteq> item then slist_find_prev k n item s else Inr current)"

definition SLIST_REMOVE_ITEM :: "u64 \<Rightarrow> u64 \<Rightarrow> 'a machine_scheme \<Rightarrow> (u64 \<times> 'a machine_scheme) result" where
  "SLIST_REMOVE_ITEM item first s =
     (if item = first then ebind (SLIST_REMOVE_HEAD first s) (\<lambda>(item, first). Inr (first, s))
      else ebind (slist_find_prev (list_fuel s) first item s) (\<lambda>current.
           ebind (SLIST_NEXT current s) (\<lambda>n.
           ebind (SLIST_NEXT n s) (\<lambda>nn.
           ebind (st current 0 nn s) (\<lambda>s. Inr (first, s))))))"

subsection \<open>Slabs\<close>

definition roundup :: "u32 \<Rightarrow> u32" where
  "roundup n =
     (let n = n - 1;
          n = n OR drop_bit 1 n;
          n = n OR drop_bit 2 n;
          n = n OR drop_bit 4 n;
          n = n OR drop_bit 8 n;
          n = n OR drop_bit 16 n
      in n + 1)"

text \<open>The loop that chains the blocks of a fresh slab; 512 iterations suffice as a block has at least 8 bytes.\<close>

fun newslab_loop :: "nat \<Rightarrow> u64 \<Rightarrow> u64 \<Rightarrow> u64 \<Rightarrow> u64 \<Rightarrow> 'a machine_scheme \<Rightarrow> ('a machine_scheme) result" where
  "newslab_loop 0 slab block start sz s = Inl NoFuel"
| "newslab_loop (Suc k) slab block start sz s =
     (if block + sz < slab + 4096
      then ebind (SLIST_INSERT_AFTER start block s) (\<lambda>(block, s).
           newslab_loop k slab block (start + sz) sz s)
      else Inr s)"

definition newslab :: "u64 \<Rightarrow> 'a machine_scheme \<Rightarrow> (u64 \<times> 'a machine_scheme) result" where
  "newslab sz s =
     ebind (palloc 1 s) (\<lambda>(p, s).
     let slab = P2V p; block = slab + 40 in
     ebind (st slab 8 sz s) (\<lambda>s.
     ebind (st slab 16 0 s) (\<lambda>s.
     ebind (st32 slab 24 (slab_id s) s) (\<lambda>s.
     let s = s\<lparr>slab_id := slab_id s + 1\<rparr> in
     ebind (st slab 32 block s) (\<lambda>s.
     ebind (newslab_loop 512 slab block (block + sz) sz s) (\<lambda>s.
     ebind (SLIST_INSERT_HEAD slab (slabber_first s) s) (\<lambda>(first, s).
     Inr (slab, s\<lparr>slabber_first := first\<rparr>))))))))"

definition allocblock :: "u64 \<Rightarrow> 'a machine_scheme \<Rightarrow> (u64 \<times> 'a machine_scheme) result" where
  "allocblock slab s =
     ebind (ld slab 16 s) (\<lambda>r.
     ebind (st slab 16 (r + 1) s) (\<lambda>s.
     ebind (ld slab 32 s) (\<lambda>first.
     ebind (SLIST_REMOVE_HEAD first s) (\<lambda>(block, n).
     ebind (st slab 32 n s) (\<lambda>s. Inr (block, s))))))"

definition freeslab :: "u64 \<Rightarrow> 'a machine_scheme \<Rightarrow> ('a machine_scheme) result" where
  "freeslab slab s =
     ebind (SLIST_REMOVE_ITEM slab (slabber_first s) s) (\<lambda>(first, s).
     freepg (V2P slab) 1 (s\<lparr>slabber_first := first\<rparr>))"

subsection \<open>Large allocations\<close>

definition kalloclarge :: "u64 \<Rightarrow> 'a machine_scheme \<Rightarrow> (u64 \<times> 'a machine_scheme) result" where
  "kalloclarge sz s =
     (let pagecount = DIV_ROUNDUP sz 4096 in
      ebind (palloc (unat (pagecount + 1)) s) (\<lambda>(metadata, s).
      if metadata = 0 then Inr (0, s)
      else let metadata = P2V metadata in
           ebind (st metadata 0 pagecount s) (\<lambda>s. Inr (metadata + 4096, s))))"

definition kfreelarge :: "u64 \<Rightarrow> 'a machine_scheme \<Rightarrow> ('a machine_scheme) result" where
  "kfreelarge ptr s =
     (let metadata = ptr - 4096 in
      ebind (ld metadata 0 s) (\<lambda>pagecount. freepg (V2P metadata) (ucast pagecount) s))"

subsection \<open>\<open>kalloc\<close> and \<open>kfree\<close>\<close>

text \<open>The loop of \<open>kalloc\<close>: the first slab of the right size with a free block, 0 at the end of the list.\<close>

fun find_slab :: "nat \<Rightarrow> u64 \<Rightarrow> u64 \<Rightarrow> 'a machine_scheme \<Rightarrow> u64 result" where
  "find_slab 0 slab sz s = Inl NoFuel"
| "find_slab (Suc k) slab sz s =
     (if slab = 0 then Inr 0
      else ebind (ld slab 8 s) (\<lambda>size'.
           ebind (if size' = sz then ld slab 32 s else Inr 0) (\<lambda>first.
           if size' = sz \<and> first \<noteq> 0 then Inr slab
           else ebind (SLIST_NEXT slab s) (\<lambda>slab. find_slab k slab sz s))))"

definition kalloc :: "u64 \<Rightarrow> 'a machine_scheme \<Rightarrow> (u64 \<times> 'a machine_scheme) result" where
  "kalloc sz s =
     (if sz > 4096 then kalloclarge sz s
      else
        let sz = (if sz < 8 then 8 else sz);
            sz = ucast (roundup (ucast sz)) in
        ebind (acquire (slabber_lock s)) (\<lambda>l.
        let s = s\<lparr>slabber_lock := l\<rparr> in
        ebind (find_slab (list_fuel s) (slabber_first s) sz s) (\<lambda>slab.
        ebind (if slab \<noteq> 0 then allocblock slab s
               else ebind (newslab sz s) (\<lambda>(slab, s). allocblock slab s)) (\<lambda>(block, s).
        Inr (block, s\<lparr>slabber_lock := release (slabber_lock s)\<rparr>)))))"

text \<open>
  The loop of \<open>kfree\<close>.  \<open>startaddr\<close> is computed as if \<open>struct slab\<close> lay at the end of its page; the guard
  compares the pointer with it and with the slab.
\<close>

fun kfree_loop :: "nat \<Rightarrow> u64 \<Rightarrow> u64 \<Rightarrow> 'a machine_scheme \<Rightarrow> ('a machine_scheme) result" where
  "kfree_loop 0 slab ptr s = Inl NoFuel"
| "kfree_loop (Suc k) slab ptr s =
     (if slab = 0 then Inr s
      else let startaddr = slab - (4096 - 40) in
      if ptr < startaddr \<or> ptr \<ge> slab
      then ebind (SLIST_NEXT slab s) (\<lambda>slab. kfree_loop k slab ptr s)
      else ebind (ld slab 16 s) (\<lambda>refcount.
           if refcount = 0 then Inl (Panic ''kfree, double free'')
           else ebind (st slab 16 (refcount - 1) s) (\<lambda>s.
                if refcount - 1 = 0 then freeslab slab s
                else ebind (ld slab 32 s) (\<lambda>first.
                     ebind (SLIST_INSERT_HEAD ptr first s) (\<lambda>(first, s). st slab 32 first s)))))"

definition kfree :: "u64 \<Rightarrow> 'a machine_scheme \<Rightarrow> ('a machine_scheme) result" where
  "kfree ptr s =
     (if ptr = 0 then Inr s
      else if ptr AND 0xfff = 0 then kfreelarge ptr s
      else ebind (acquire (slabber_lock s)) (\<lambda>l.
           let s = s\<lparr>slabber_lock := l\<rparr> in
           ebind (kfree_loop (list_fuel s) (slabber_first s) ptr s) (\<lambda>s.
           Inr (s\<lparr>slabber_lock := release (slabber_lock s)\<rparr>))))"

subsection \<open>Rounding up to a power of two\<close>

text \<open>\<open>m\<close> has a bit wherever \<open>n\<close> has one among the \<open>w\<close> positions from there on.\<close>

definition smeared :: "u32 \<Rightarrow> nat \<Rightarrow> u32 \<Rightarrow> bool" where
  "smeared n w m \<longleftrightarrow> (\<forall>i. bit m i \<longleftrightarrow> (\<exists>d < w. bit n (i + d)))"

lemma smeared_step:
  assumes "smeared n w m" and "w' = w + w"
  shows "smeared n w' (m OR drop_bit w m)"
  unfolding smeared_def assms(2)
proof (intro allI iffI)
  fix i assume "bit (m OR drop_bit w m) i"
  then have "(\<exists>d < w. bit n (i + d)) \<or> (\<exists>d < w. bit n (w + i + d))"
    using assms by (simp add: smeared_def bit_or_iff bit_drop_bit_eq)
  then show "\<exists>d < w + w. bit n (i + d)"
  proof (elim disjE exE conjE)
    fix d assume "d < w" "bit n (w + i + d)"
    then show ?thesis by (intro exI [of _ "w + d"]) (simp add: add_ac)
  next
    fix d assume "d < w" "bit n (i + d)"
    then show ?thesis by (intro exI [of _ d]) simp
  qed
next
  fix i assume "\<exists>d < w + w. bit n (i + d)"
  then obtain d where d: "d < w + w" "bit n (i + d)" by blast
  show "bit (m OR drop_bit w m) i"
  proof (cases "d < w")
    case True
    with d assms show ?thesis by (auto simp: smeared_def bit_or_iff)
  next
    case False
    with d have "d - w < w" "bit n (w + i + (d - w))" by (simp_all add: add_ac)
    with assms have "bit m (w + i)" unfolding smeared_def by blast
    then show ?thesis by (simp add: bit_or_iff bit_drop_bit_eq)
  qed
qed

lemma bits_of_interval:
  fixes n :: u32
  assumes "2 ^ k \<le> unat n" "unat n < 2 ^ Suc k"
  shows "bit n k" and "k < j \<Longrightarrow> \<not> bit n j"
proof -
  have b: "bit n j \<longleftrightarrow> odd (unat n div 2 ^ j)" for j
    using bit_unsigned_iff [of n j, where ?'a = nat] by (simp add: bit_iff_odd)
  have "unat n div 2 ^ k = 1" using assms by (intro div_nat_eqI) auto
  then show "bit n k" by (simp add: b)
  assume "k < j"
  then have "2 ^ Suc k \<le> (2 ^ j :: nat)" by (intro power_increasing) auto
  with assms(2) show "\<not> bit n j" by (simp add: b)
qed

lemma smeared_mask:
  assumes "smeared n 32 m" and "2 ^ k \<le> unat n" "unat n < 2 ^ Suc k" "k < 32"
  shows "m = mask (Suc k)"
proof (rule bit_word_eqI)
  fix i :: nat assume i: "i < LENGTH(32)"
  have "(\<exists>d < 32. bit n (i + d)) \<longleftrightarrow> i \<le> k"
  proof
    assume "\<exists>d < 32. bit n (i + d)"
    then show "i \<le> k" using bits_of_interval(2) [OF assms(2,3)] by (metis leI le_add1 le_trans)
  next
    assume "i \<le> k"
    then show "\<exists>d < 32. bit n (i + d)"
      using bits_of_interval(1) [OF assms(2,3)] assms(4) by (intro exI [of _ "k - i"]) simp
  qed
  with assms(1) i show "bit m i \<longleftrightarrow> bit (mask (Suc k) :: u32) i"
    by (simp add: smeared_def bit_mask_iff less_Suc_eq_le)
qed

lemma roundup_smeared: "\<exists>m. smeared (n - 1) 32 m \<and> roundup n = m + 1"
proof -
  define a b c d e where "a = n - 1" and "b = a OR drop_bit 1 a" and "c = b OR drop_bit 2 b"
    and "d = c OR drop_bit 4 c" and "e = d OR drop_bit 8 d"
  note defs = this
  have "smeared a 1 a" by (simp add: smeared_def)
  then have "smeared a 2 b" unfolding defs(2) by (rule smeared_step) simp
  then have "smeared a 4 c" unfolding defs(3) by (rule smeared_step) simp
  then have "smeared a 8 d" unfolding defs(4) by (rule smeared_step) simp
  then have "smeared a 16 e" unfolding defs(5) by (rule smeared_step) simp
  then have "smeared a 32 (e OR drop_bit 16 e)" by (rule smeared_step) simp
  moreover have "roundup n = (e OR drop_bit 16 e) + 1" by (simp add: roundup_def Let_def defs)
  ultimately show ?thesis unfolding defs(1) by blast
qed

lemma roundup_interval:
  assumes "2 ^ k < unat n" "unat n \<le> 2 ^ Suc k"
  shows "roundup n = 2 ^ Suc k"
proof -
  obtain m where m: "smeared (n - 1) 32 m" "roundup n = m + 1" using roundup_smeared by blast
  have pred: "unat (n - 1) = unat n - 1" 
    using assms by (intro unat_minus_one) auto
  have "unat n < 2 ^ 32" using unsigned_less [of n, where ?'a = nat] by simp
  with assms have "(2::nat) ^ k < 2 ^ 32" by simp
  then have "k < 32" by (rule power_less_imp_less_exp [rotated]) simp
  moreover have "2 ^ k \<le> unat (n - 1)" "unat (n - 1) < 2 ^ Suc k" using pred assms by auto
  ultimately have "m = mask (Suc k)" using smeared_mask [OF m(1)] by blast
  then show ?thesis using m(2) by (simp add: mask_eq_exp_minus_1)
qed

lemma roundup_power:
  assumes "1 \<le> unat n" "unat n \<le> 2 ^ 31"
  shows "\<exists>k. unat (roundup n) = 2 ^ k \<and> unat n \<le> 2 ^ k \<and> (\<forall>j. unat n \<le> 2 ^ j \<longrightarrow> k \<le> j)"
proof (cases "unat n = 1")
  case True
  then have "n = 1" by (simp add: word_unat_eq_iff)
  then show ?thesis by (intro exI [of _ 0]) (simp add: roundup_def)
next
  case False
  then obtain k where k: "2 ^ k < unat n" "unat n \<le> 2 ^ Suc k"
    using assms ex_power_ivl2 [of 2 "unat n"] by auto
  with assms(2) have "(2::nat) ^ k < 2 ^ 31" by simp
  then have "k < 31" by (rule power_less_imp_less_exp [rotated]) simp
  then have "(2::nat) ^ Suc k < 2 ^ 32" by (intro power_strict_increasing) auto
  then have "unat (of_nat (2 ^ Suc k) :: u32) = 2 ^ Suc k"
    by (simp only: unat_of_nat) simp
  then have "unat (2 ^ Suc k :: u32) = 2 ^ Suc k" by simp
  moreover have "Suc k \<le> j" if "unat n \<le> 2 ^ j" for j
  proof -
    have "(2::nat) ^ k < 2 ^ j" using k(1) that by (rule less_le_trans)
    then have "k < j" by (rule power_less_imp_less_exp [rotated]) simp
    then show ?thesis by simp
  qed
  ultimately show ?thesis using roundup_interval [OF k] k(2) by (intro exI [of _ "Suc k"]) auto
qed

subsection \<open>The lists of slabs and of free blocks\<close>

text \<open>
  \<open>blk a n k\<close> is the address of block \<open>k\<close> of the slab at \<open>a\<close> with blocks of \<open>n\<close> bytes; \<open>blocks a n\<close> are the
  addresses that start inside the page, which are those \<open>newslab\<close> chains.
\<close>

definition blk :: "u64 \<Rightarrow> nat \<Rightarrow> nat \<Rightarrow> u64" where
  "blk a n k = a + of_nat (40 + k * n)"

definition blocks :: "u64 \<Rightarrow> nat \<Rightarrow> u64 set" where
  "blocks a n = blk a n ` {k. 40 + k * n < PGSIZE}"

fun blk_chain :: "(u64 \<Rightarrow> u64) \<Rightarrow> u64 \<Rightarrow> u64 list \<Rightarrow> bool" where
  "blk_chain m p [] \<longleftrightarrow> p = 0"
| "blk_chain m p (b # bs) \<longleftrightarrow> p = b \<and> b \<noteq> 0 \<and> blk_chain m (m b) bs"

type_synonym slab_entry = "u64 \<times> nat \<times> u64 list"

text \<open>\<open>slab_chain m p L\<close>: from \<open>p\<close> the memory holds the slabs \<open>L\<close>, each with its block size and free list.\<close>

fun slab_chain :: "(u64 \<Rightarrow> u64) \<Rightarrow> u64 \<Rightarrow> slab_entry list \<Rightarrow> bool" where
  "slab_chain m p [] \<longleftrightarrow> p = 0"
| "slab_chain m p ((a, n, fl) # L) \<longleftrightarrow>
     p = a \<and> a \<noteq> 0 \<and> m (a + 8) = of_nat n \<and> blk_chain m (m (a + 32)) fl \<and> slab_chain m (m a) L"

definition size_class :: "nat \<Rightarrow> bool" where
  "size_class n \<longleftrightarrow> (\<exists>e. 3 \<le> e \<and> e \<le> 12 \<and> n = 2 ^ e)"

definition entry_ok :: "slab_entry \<Rightarrow> bool" where
  "entry_ok x \<longleftrightarrow> (case x of (a, n, fl) \<Rightarrow>
     dm_page a \<and> size_class n \<and> distinct fl \<and> set fl \<subseteq> blocks a n)"

definition slab_wf :: "'a machine_scheme \<Rightarrow> slab_entry list \<Rightarrow> bool" where
  "slab_wf s L \<longleftrightarrow> pmm_wf s \<and> slab_chain (mem s) (slabber_first s) L \<and> (\<forall>x \<in> set L. entry_ok x) \<and>
     distinct (map fst L) \<and> (\<forall>x \<in> set L. vframe (fst x) \<in> used_pages s)"

text \<open>The blocks that have been handed out.\<close>

definition taken :: "slab_entry list \<Rightarrow> u64 set" where
  "taken L = (\<Union>(a, n, fl) \<in> set L. blocks a n - set fl)"

text \<open>Memory that belongs to no allocated frame is zero; \<open>newslab\<close> relies on it for the end of its list.\<close>

definition clean_frames :: "'a machine_scheme \<Rightarrow> bool" where
  "clean_frames s \<longleftrightarrow> (\<forall>x. vframe x \<notin> used_pages s \<longrightarrow> mem s x = 0)"

text \<open>
  What an allocation leaves alone: frames stay allocated, and the memory of allocated frames keeps its contents
  except for the reference count and the free list head of the slabs.
\<close>

definition heap_kept :: "'a machine_scheme \<Rightarrow> slab_entry list \<Rightarrow> 'a machine_scheme \<Rightarrow> bool" where
  "heap_kept s L s' \<longleftrightarrow> used_pages s \<subseteq> used_pages s' \<and> machine.more s' = machine.more s \<and>
     (\<forall>y. vframe y \<in> used_pages s \<longrightarrow> (\<forall>x \<in> set L. y \<noteq> fst x + 16 \<and> y \<noteq> fst x + 32) \<longrightarrow> mem s' y = mem s y)"

lemma size_class_bounds: "size_class n \<Longrightarrow> 8 \<le> n \<and> n \<le> PGSIZE"
proof -
  assume "size_class n"
  then obtain e where "3 \<le> e" "e \<le> 12" "n = 2 ^ e" by (auto simp: size_class_def)
  moreover have "(2::nat) ^ 3 \<le> 2 ^ e" by (rule power_increasing) (use \<open>3 \<le> e\<close> in auto)
  moreover have "(2::nat) ^ e \<le> 2 ^ 12" by (rule power_increasing) (use \<open>e \<le> 12\<close> in auto)
  ultimately show ?thesis by simp
qed

lemma blk_props:
  assumes "dm_page a" and "40 + k * n < PGSIZE"
  shows "unat (blk a n k) = unat a + 40 + k * n" and "vframe (blk a n k) = vframe a"
    and "blk a n k \<noteq> 0"
proof -
  define d where "d = 40 + k * n"
  have d: "d < PGSIZE" "d \<le> 8 * PGSIZE" using assms(2) by (simp_all add: d_def)
  have b: "blk a n k = a + of_nat d" by (simp only: blk_def d_def)
  show "unat (blk a n k) = unat a + 40 + k * n"
    using dm_page_offset [OF assms(1) d(2)] by (simp add: b d_def)
  have "unat (of_nat d :: u64) = d" using d by (intro unat_of_nat_64) simp
  then show "vframe (blk a n k) = vframe a"
    unfolding b using d assms(1) by (intro vframe_offset) auto
  show "blk a n k \<noteq> 0" unfolding b by (rule dm_page_offset_nonzero [OF assms(1) d(2)])
qed

lemma blk_inj:
  assumes "dm_page a" "40 + k * n < PGSIZE" "40 + j * n < PGSIZE" "0 < n"
  shows "blk a n k = blk a n j \<longleftrightarrow> k = j"
proof
  assume "blk a n k = blk a n j"
  then have "unat a + 40 + k * n = unat a + 40 + j * n"
    by (metis blk_props(1) [OF assms(1,2)] blk_props(1) [OF assms(1,3)])
  then have "k * n = j * n" by (simp only: add_left_cancel)
  with assms(4) show "k = j" by simp
qed simp

lemma blk_not_field:
  assumes "dm_page a" "40 + k * n < PGSIZE" "unat d < 40"
  shows "blk a n k \<noteq> a + d"
proof
  assume "blk a n k = a + d"
  then have "d = of_nat (40 + k * n)" by (simp only: blk_def add_left_cancel)
  moreover have "unat (of_nat (40 + k * n) :: u64) = 40 + k * n"
    by (rule unat_of_nat_64, rule less_trans [OF assms(2)]) simp
  ultimately show False using assms(3) by simp
qed

lemma blocks_vframe: "dm_page a \<Longrightarrow> b \<in> blocks a n \<Longrightarrow> vframe b = vframe a"
  by (auto simp: blocks_def blk_props(2))

lemma blocks_not_field: "dm_page a \<Longrightarrow> b \<in> blocks a n \<Longrightarrow> unat d < 40 \<Longrightarrow> b \<noteq> a + d"
  by (auto simp: blocks_def blk_not_field)

lemma blocks_nonzero: "dm_page a \<Longrightarrow> b \<in> blocks a n \<Longrightarrow> b \<noteq> 0"
  by (auto simp: blocks_def blk_props(3))

lemma blocks_not_page_base:
  assumes "dm_page a" "b \<in> blocks a n"
  shows "\<not> page_base b"
proof
  assume "page_base b"
  then have "b = a" using assms page_base_eq_iff blocks_vframe by blast
  with blocks_not_field [OF assms, of 0] show False by simp
qed

lemma field_vframe: "dm_page a \<Longrightarrow> unat d < PGSIZE \<Longrightarrow> vframe (a + d) = vframe a"
  by (intro vframe_offset) auto

lemma blk_chain_cong:
  "(\<And>b. b \<in> set fl \<Longrightarrow> m' b = m b) \<Longrightarrow> blk_chain m' p fl \<longleftrightarrow> blk_chain m p fl"
  by (induction fl arbitrary: p) auto

lemma entry_cells_cong:
  assumes "entry_ok (a, n, fl)" and "\<And>y. vframe y = vframe a \<Longrightarrow> m' y = m y"
  shows "m' a = m a" "m' (a + 8) = m (a + 8)" "m' (a + 32) = m (a + 32)"
    and "blk_chain m' q fl \<longleftrightarrow> blk_chain m q fl"
proof -
  have ok: "dm_page a" "set fl \<subseteq> blocks a n" using assms(1) by (auto simp: entry_ok_def)
  show "m' a = m a" "m' (a + 8) = m (a + 8)" "m' (a + 32) = m (a + 32)"
    using assms(2) field_vframe [OF ok(1)] by auto
  show "blk_chain m' q fl \<longleftrightarrow> blk_chain m q fl"
    using ok assms(2) blocks_vframe by (intro blk_chain_cong) blast
qed

lemma slab_chain_cong:
  assumes "\<And>x. x \<in> set L \<Longrightarrow> entry_ok x"
    and "\<And>x y. x \<in> set L \<Longrightarrow> vframe y = vframe (fst x) \<Longrightarrow> m' y = m y"
  shows "slab_chain m' p L \<longleftrightarrow> slab_chain m p L"
  using assms
proof (induction L arbitrary: p)
  case (Cons x L)
  obtain a n fl where x: "x = (a, n, fl)" by (cases x)
  have ok: "entry_ok (a, n, fl)" using Cons.prems(1) [of x] by (simp add: x)
  have same: "\<And>y. vframe y = vframe a \<Longrightarrow> m' y = m y" using Cons.prems(2) [of x] by (simp add: x)
  have "slab_chain m' q L \<longleftrightarrow> slab_chain m q L" for q
    by (rule Cons.IH) (use Cons.prems in \<open>meson list.set_intros(2)\<close>)+
  with entry_cells_cong [where m' = m' and m = m, OF ok same] show ?case by (simp add: x)
qed simp

lemma slab_chain_update:
  assumes "slab_chain m p (L1 @ (a, n, fl) # L2)"
    and "\<And>x. x \<in> set L1 \<union> set L2 \<Longrightarrow> entry_ok x \<and> vframe (fst x) \<noteq> vframe a"
    and "\<And>y. vframe y \<noteq> vframe a \<Longrightarrow> m' y = m y"
    and "m' a = m a" "m' (a + 8) = m (a + 8)" "blk_chain m' (m' (a + 32)) fl'"
  shows "slab_chain m' p (L1 @ (a, n, fl') # L2)"
  using assms(1,2)
proof (induction L1 arbitrary: p)
  case Nil
  have "slab_chain m' q L2 \<longleftrightarrow> slab_chain m q L2" for q
    by (rule slab_chain_cong) (use Nil.prems(2) assms(3) in auto)
  with Nil.prems(1) assms(4-6) show ?case by simp
next
  case (Cons x L1)
  obtain a' n' fl1 where x: "x = (a', n', fl1)" by (cases x)
  have "vframe a' \<noteq> vframe a" "entry_ok x" using Cons.prems(2) [of x] by (auto simp: x)
  then have "m' a' = m a'" "m' (a' + 8) = m (a' + 8)" "m' (a' + 32) = m (a' + 32)"
    "blk_chain m' q fl1 \<longleftrightarrow> blk_chain m q fl1" for q
    using entry_cells_cong [of a' n' fl1 m' m] assms(3) by (simp_all add: x)
  moreover have "slab_chain m' (m a') (L1 @ (a, n, fl') # L2)"
    by (rule Cons.IH) (use Cons.prems x in auto)
  ultimately show ?case using Cons.prems(1) by (auto simp: x)
qed

lemma slab_chain_mid:
  "slab_chain m p (L1 @ (a, n, fl) # L2) \<Longrightarrow> m (a + 8) = of_nat n \<and> blk_chain m (m (a + 32)) fl"
  by (induction L1 arbitrary: p) auto

lemma slab_wf_length:
  assumes "slab_wf s L"
  shows "length L < list_fuel s"
proof -
  have ok: "\<And>x. x \<in> set L \<Longrightarrow> page_base (fst x)"
    using assms by (fastforce simp: slab_wf_def entry_ok_def)
  have "inj_on vframe (set (map fst L))"
    by (rule inj_onI) (use ok page_base_eq_iff in auto)
  then have "card (vframe ` set (map fst L)) = length L"
    using assms distinct_card [of "map fst L"] by (simp add: card_image slab_wf_def)
  moreover have "vframe ` set (map fst L) \<subseteq> {..<8 * length (bitmap s)}"
    using assms used_pages_bound by (auto simp: slab_wf_def)
  ultimately have "length L \<le> 8 * length (bitmap s)"
    by (metis card_lessThan card_mono finite_lessThan)
  then show ?thesis by (simp add: list_fuel_def)
qed

lemma of_nat_size_class: "size_class n \<Longrightarrow> size_class k \<Longrightarrow> (of_nat n :: u64) = of_nat k \<longleftrightarrow> n = k"
  using size_class_bounds [of n] size_class_bounds [of k] by (intro of_nat_inj_64) auto

lemma blk_chain_null: "blk_chain m p fl \<Longrightarrow> p = 0 \<longleftrightarrow> fl = []"
  by (cases fl) auto

text \<open>The search of \<open>kalloc\<close> finds the first slab of the size with a free block, if there is one.\<close>

lemma find_slab_spec:
  "slab_chain (mem s) p L \<Longrightarrow> (\<And>x. x \<in> set L \<Longrightarrow> entry_ok x) \<Longrightarrow> size_class n \<Longrightarrow> length L < fuel \<Longrightarrow>
     find_slab fuel p (of_nat n) s = Inr (case find (\<lambda>(a, k, fl). k = n \<and> fl \<noteq> []) L of
       None \<Rightarrow> 0 | Some (a, _) \<Rightarrow> a)"
proof (induction L arbitrary: p fuel)
  case Nil
  then show ?case by (cases fuel) auto
next
  case (Cons x L)
  obtain a k fl where x: "x = (a, k, fl)" by (cases x)
  obtain f where f: "fuel = Suc f" "length L < f" using Cons.prems(4) by (cases fuel) auto
  have "size_class k" using Cons.prems(2) [of x] by (simp add: x entry_ok_def)
  then have k: "(of_nat k :: u64) = of_nat n \<longleftrightarrow> k = n" using Cons.prems(3) by (rule of_nat_size_class)
  have chain: "p = a" "a \<noteq> 0" "mem s (a + 8) = of_nat k" "blk_chain (mem s) (mem s (a + 32)) fl"
    "slab_chain (mem s) (mem s a) L"
    using Cons.prems(1) by (auto simp: x)
  have IH: "find_slab f (mem s a) (of_nat n) s = Inr (case find (\<lambda>(a, k, fl). k = n \<and> fl \<noteq> []) L of
       None \<Rightarrow> 0 | Some (a, _) \<Rightarrow> a)"
    by (rule Cons.IH) (use Cons.prems chain f in auto)
  show ?case using chain k IH blk_chain_null [OF chain(4)]
    by (auto simp: x f(1) ld_def SLIST_NEXT_def)
qed

subsection \<open>Taking a block from a slab\<close>

lemma allocblock_eq:
  assumes "dm_page a" and "mem s (a + 32) = b" and "b \<in> blocks a n"
  shows "allocblock a s = Inr (b, s\<lparr>mem := (mem s)(a + 16 := mem s (a + 16) + 1, a + 32 := mem s b)\<rparr>)"
proof -
  have "a \<noteq> 0" "b \<noteq> 0" using assms dm_page_nonzero blocks_nonzero by auto
  moreover have "b \<noteq> a + 16" using assms blocks_not_field by auto
  ultimately show ?thesis
    using assms(2) by (simp add: allocblock_def ld_def st_def SLIST_REMOVE_HEAD_def SLIST_NEXT_def)
qed

lemma allocblock_wf:
  assumes wf: "slab_wf s (L1 @ (a, n, b # bs) # L2)"
  shows "\<exists>m'. allocblock a s = Inr (b, s\<lparr>mem := m'\<rparr>) \<and> slab_wf (s\<lparr>mem := m'\<rparr>) (L1 @ (a, n, bs) # L2) \<and>
    (\<forall>y. y \<noteq> a + 16 \<longrightarrow> y \<noteq> a + 32 \<longrightarrow> m' y = mem s y)"
proof -
  let ?L = "L1 @ (a, n, b # bs) # L2"
  define m where "m = (mem s)(a + 16 := mem s (a + 16) + 1, a + 32 := mem s b)"
  have ok: "dm_page a" "b \<in> blocks a n" "set bs \<subseteq> blocks a n" "distinct (b # bs)" "size_class n"
    using wf by (auto simp: slab_wf_def entry_ok_def)
  have chain: "slab_chain (mem s) (slabber_first s) ?L" using wf by (simp add: slab_wf_def)
  have blk: "mem s (a + 32) = b" "blk_chain (mem s) (mem s b) bs"
    using slab_chain_mid [OF chain] by auto
  have others: "entry_ok x \<and> vframe (fst x) \<noteq> vframe a" if "x \<in> set L1 \<union> set L2" for x
  proof -
    have "entry_ok x" using wf that by (auto simp: slab_wf_def)
    moreover have "fst x \<noteq> a" using wf that by (auto simp: slab_wf_def)
    ultimately show ?thesis using ok(1) page_base_eq_iff [of "fst x" a] by (cases x) (auto simp: entry_ok_def)
  qed
  have far: "m y = mem s y" if "vframe y \<noteq> vframe a" for y
    using that field_vframe [OF ok(1), of 16] field_vframe [OF ok(1), of 32] by (auto simp: m_def)
  have fields: "x \<noteq> a + 16" "x \<noteq> a + 32" if "x \<in> set bs" for x
    using that ok(3) blocks_not_field [OF ok(1), of x n 16] blocks_not_field [OF ok(1), of x n 32] by auto
  have "blk_chain m (mem s b) bs \<longleftrightarrow> blk_chain (mem s) (mem s b) bs"
    by (rule blk_chain_cong) (simp add: fields m_def)
  then have "slab_chain m (slabber_first s) (L1 @ (a, n, bs) # L2)"
    by (intro slab_chain_update [where m' = m, OF chain others far]) (use blk in \<open>simp_all add: m_def\<close>)
  then have "slab_wf (s\<lparr>mem := m\<rparr>) (L1 @ (a, n, bs) # L2)"
    using wf by (auto simp: slab_wf_def entry_ok_def pmm_wf_def used_pages_def)
  with allocblock_eq [OF ok(1) blk(1) ok(2)] show ?thesis unfolding m_def
    by (intro exI conjI) auto
qed

subsection \<open>A fresh slab\<close>

definition nblk :: "nat \<Rightarrow> nat" where
  "nblk n = Suc (4055 div n)"

lemma less_nblk: "0 < n \<Longrightarrow> k < nblk n \<longleftrightarrow> 40 + k * n < PGSIZE"
proof -
  assume "0 < n"
  then have "k \<le> 4055 div n \<longleftrightarrow> k * n \<le> 4055" by (rule less_eq_div_iff_mult_less_eq)
  then show ?thesis by (auto simp: nblk_def less_Suc_eq_le)
qed

lemma blk_inj_nblk:
  "dm_page a \<Longrightarrow> 0 < n \<Longrightarrow> k < nblk n \<Longrightarrow> j < nblk n \<Longrightarrow> blk a n k = blk a n j \<longleftrightarrow> k = j"
  by (simp add: less_nblk blk_inj)

lemma blocks_nblk: "0 < n \<Longrightarrow> blocks a n = blk a n ` {..<nblk n}"
  by (simp add: blocks_def less_nblk lessThan_def)

lemma nblk_le: "size_class n \<Longrightarrow> nblk n \<le> 507"
proof -
  assume "size_class n"
  then have "4055 div n \<le> 4055 div 8" using size_class_bounds [of n] by (intro div_le_mono2) auto
  then show ?thesis by (simp add: nblk_def)
qed

lemma newslab_guard:
  assumes "dm_page a" "size_class n" "k < nblk n"
  shows "blk a n k + of_nat n < a + 4096 \<longleftrightarrow> Suc k < nblk n"
proof -
  have n: "8 \<le> n" "n \<le> PGSIZE" using size_class_bounds [OF assms(2)] by auto
  have k: "40 + k * n < PGSIZE" using assms(3) n less_nblk by auto
  define d where "d = 40 + Suc k * n"
  have "d \<le> 8 * PGSIZE" using k n by (simp add: d_def)
  then have "unat (a + of_nat d) = unat a + d" by (rule dm_page_offset [OF assms(1)])
  moreover have "unat (a + of_nat PGSIZE) = unat a + PGSIZE" by (rule dm_page_offset [OF assms(1)]) simp
  moreover have "blk a n k + of_nat n = a + of_nat d" by (simp add: blk_def d_def)
  ultimately have "blk a n k + of_nat n < a + 4096 \<longleftrightarrow> d < PGSIZE" by (simp add: word_less_nat_alt)
  then show ?thesis using n less_nblk [of n "Suc k"] by (simp add: d_def)
qed

lemma newslab_loop_spec:
  assumes "dm_page a" "size_class n"
  shows "k < nblk n \<Longrightarrow> nblk n - k \<le> fuel \<Longrightarrow>
    \<exists>m'. newslab_loop fuel a (blk a n k) (blk a n (Suc k)) (of_nat n) s = Inr (s\<lparr>mem := m'\<rparr>) \<and>
      (\<forall>j. k \<le> j \<longrightarrow> Suc j < nblk n \<longrightarrow> m' (blk a n j) = blk a n (Suc j)) \<and>
      (\<forall>y. (\<forall>j. k \<le> j \<longrightarrow> Suc j < nblk n \<longrightarrow> y \<noteq> blk a n j) \<longrightarrow> m' y = mem s y)"
proof (induction fuel arbitrary: k s)
  case (Suc fuel)
  have n: "0 < n" using size_class_bounds [OF assms(2)] by simp
  show ?case
  proof (cases "Suc k < nblk n")
    case False
    then show ?thesis using newslab_guard [OF assms Suc.prems(1)]
      by (intro exI [of _ "mem s"]) auto
  next
    case True
    have nz: "blk a n k \<noteq> 0" using blk_props(3) [OF assms(1)] Suc.prems(1) n less_nblk by simp
    let ?s = "s\<lparr>mem := (mem s)(blk a n k := blk a n (Suc k))\<rparr>"
    have next': "blk a n (Suc k) + of_nat n = blk a n (Suc (Suc k))" by (simp add: blk_def algebra_simps)
    have "nblk n - Suc k \<le> fuel" using Suc.prems(2) by simp
    with Suc.IH [of "Suc k" ?s] True obtain m' where
      m': "newslab_loop fuel a (blk a n (Suc k)) (blk a n (Suc (Suc k))) (of_nat n) ?s = Inr (?s\<lparr>mem := m'\<rparr>)"
        "\<And>j. Suc k \<le> j \<Longrightarrow> Suc j < nblk n \<Longrightarrow> m' (blk a n j) = blk a n (Suc j)"
        "\<And>y. (\<And>j. Suc k \<le> j \<Longrightarrow> Suc j < nblk n \<Longrightarrow> y \<noteq> blk a n j) \<Longrightarrow> m' y = mem ?s y"
      by blast
    have "newslab_loop (Suc fuel) a (blk a n k) (blk a n (Suc k)) (of_nat n) s = Inr (s\<lparr>mem := m'\<rparr>)"
      using newslab_guard [OF assms Suc.prems(1)] True nz m'(1)
      by (simp add: SLIST_INSERT_AFTER_def SLIST_NEXT_def st_def ld_def next')
    moreover have "m' (blk a n j) = blk a n (Suc j)" if "k \<le> j" "Suc j < nblk n" for j
    proof (cases "j = k")
      case True
      have "m' (blk a n k) = mem ?s (blk a n k)"
        by (rule m'(3)) (use blk_inj_nblk [OF assms(1) n] in simp)
      then show ?thesis by (simp add: True)
    next
      case False
      then show ?thesis using that by (intro m'(2)) auto
    qed
    moreover have "m' y = mem s y" if "\<forall>j. k \<le> j \<longrightarrow> Suc j < nblk n \<longrightarrow> y \<noteq> blk a n j" for y
    proof -
      have "m' y = mem ?s y" by (rule m'(3)) (use that in auto)
      moreover have "y \<noteq> blk a n k" using that True by blast
      ultimately show ?thesis by simp
    qed
    ultimately show ?thesis by blast
  qed
qed simp

lemma blk_chain_upt:
  "k < N \<Longrightarrow> (\<And>j. k \<le> j \<Longrightarrow> Suc j < N \<Longrightarrow> m (f j) = f (Suc j)) \<Longrightarrow> m (f (N - 1)) = 0 \<Longrightarrow>
     (\<And>j. j < N \<Longrightarrow> f j \<noteq> 0) \<Longrightarrow> blk_chain m (f k) (map f [k..<N])"
proof (induction "N - k" arbitrary: k)
  case (Suc d)
  show ?case
  proof (cases "Suc k < N")
    case True
    have "blk_chain m (f (Suc k)) (map f [Suc k..<N])"
      by (rule Suc.hyps(1)) (use Suc.hyps(2) Suc.prems True in auto)
    then show ?thesis using Suc.prems True by (simp add: upt_conv_Cons)
  next
    case False
    with Suc.prems(1) have "N = Suc k" by simp
    then show ?thesis using Suc.prems by (simp add: upt_conv_Cons)
  qed
qed simp

lemma newslab_memory:
  fixes s :: "'a machine_scheme"
  assumes "dm_page a" "size_class n" and "palloc 1 s0 = Inr (p, s)" "a = P2V p"
  obtains m' where "newslab (of_nat n) s0 = Inr (a, s\<lparr>slab_id := slab_id s + 1, mem := m', slabber_first := a\<rparr>)"
    and "m' a = slabber_first s" "m' (a + 8) = of_nat n" "m' (a + 16) = 0" "m' (a + 32) = blk a n 0"
    and "\<And>j. Suc j < nblk n \<Longrightarrow> m' (blk a n j) = blk a n (Suc j)"
    and "m' (blk a n (nblk n - 1)) = mem s (blk a n (nblk n - 1))"
    and "\<And>y. vframe y \<noteq> vframe a \<Longrightarrow> m' y = mem s y"
proof -
  have n: "0 < n" "0 < nblk n" using size_class_bounds [OF assms(2)] by (auto simp: nblk_def)
  have a: "a \<noteq> 0" by (rule dm_page_nonzero [OF assms(1)])
  define s3 where "s3 = s\<lparr>mem := (mem s)(a + 8 := of_nat n, a + 16 := 0)\<rparr>"
  obtain v where v: "st32 a 24 (slab_id s) s3 = Inr (s3\<lparr>mem := (mem s3)(a + 24 := v)\<rparr>)"
    using a by (auto simp: st32_def st_def ld_def)
  define m4 where "m4 = (mem s)(a + 8 := of_nat n, a + 16 := 0, a + 24 := v, a + 32 := blk a n 0)"
  let ?s4 = "s\<lparr>slab_id := slab_id s + 1, mem := m4\<rparr>"
  have b0: "a + 40 = blk a n 0" "blk a n 0 + of_nat n = blk a n (Suc 0)" by (simp_all add: blk_def algebra_simps)
  obtain m5 where m5: "newslab_loop 512 a (blk a n 0) (blk a n (Suc 0)) (of_nat n) ?s4 = Inr (?s4\<lparr>mem := m5\<rparr>)"
    "\<And>j. Suc j < nblk n \<Longrightarrow> m5 (blk a n j) = blk a n (Suc j)"
    "\<And>y. (\<And>j. Suc j < nblk n \<Longrightarrow> y \<noteq> blk a n j) \<Longrightarrow> m5 y = m4 y"
    using newslab_loop_spec [OF assms(1,2) n(2), of 512 ?s4] nblk_le [OF assms(2)] by auto
  have blkf: "blk a n j \<noteq> a + d" if "j < nblk n" "unat d < 40" for j d
    using blk_not_field [OF assms(1)] that less_nblk [OF n(1)] by blast
  have m5f: "m5 (a + d) = m4 (a + d)" if "unat d < 40" for d
    by (rule m5(3), rule not_sym, rule blkf) (use that in auto)
  have blka: "blk a n j \<noteq> a" if "j < nblk n" for j using blkf [OF that, of 0] by simp
  show ?thesis
  proof (rule that [of "m5(a := slabber_first s)"])
    show "\<And>j. Suc j < nblk n \<Longrightarrow> (m5(a := slabber_first s)) (blk a n j) = blk a n (Suc j)"
      using m5(2) blka by simp
    have "m5 (blk a n (nblk n - 1)) = m4 (blk a n (nblk n - 1))"
      by (rule m5(3)) (use blk_inj_nblk [OF assms(1) n(1)] n(2) in auto)
    then show "(m5(a := slabber_first s)) (blk a n (nblk n - 1)) = mem s (blk a n (nblk n - 1))"
      using blka [of "nblk n - 1"] blkf [of "nblk n - 1"] n(2) by (simp add: m4_def)
    show "(m5(a := slabber_first s)) y = mem s y" if y: "vframe y \<noteq> vframe a" for y
    proof -
      have "y \<noteq> a + d" if "unat d < PGSIZE" for d using y field_vframe [OF assms(1) that] by auto
      from this [of 0] this [of 8] this [of 16] this [of 24] this [of 32]
      have "y \<noteq> a" "m4 y = mem s y" by (auto simp: m4_def)
      moreover have "m5 y = m4 y"
        by (rule m5(3)) (use y blk_props(2) [OF assms(1)] less_nblk [OF n(1)] in fastforce)
      ultimately show ?thesis by simp
    qed
    show "newslab (of_nat n) s0 = Inr (a, s\<lparr>slab_id := slab_id s + 1, mem := m5(a := slabber_first s), slabber_first := a\<rparr>)"
      using a v m5(1) assms(3) by (simp add: newslab_def assms(4) [symmetric] st_def s3_def m4_def b0 SLIST_INSERT_HEAD_def fun_upd_upd)
  qed (use m5f [of 8] m5f [of 16] m5f [of 32] in \<open>simp_all add: m4_def\<close>)
qed

lemma newslab_wf:
  fixes s0 :: "'a machine_scheme"
  assumes wf: "slab_wf s0 L" and clean: "clean_frames s0" and n: "size_class n"
    and al: "palloc 1 s0 = Inr (p, s1)"
  shows "\<exists>a s2. newslab (of_nat n) s0 = Inr (a, s2) \<and> slab_wf s2 ((a, n, map (blk a n) [0..<nblk n]) # L) \<and>
    clean_frames s2 \<and> slabber_lock s2 = slabber_lock s0 \<and>
    heap_kept s0 L s2 \<and> vframe a \<notin> used_pages s0"
proof -
  define a where "a = P2V p"
  have pwf: "pmm_wf s0" using wf by (simp add: slab_wf_def)
  obtain bm' g' where s1: "s1 = s0\<lparr>bitmap := bm', dbg_g := g'\<rparr>" and pwf1: "pmm_wf s1"
    and p: "unat p mod PGSIZE = 0" "unat p + 8 * PGSIZE < 2 ^ 47" "unat p div PGSIZE \<notin> used_pages s0"
    and used: "used_pages s1 = insert (unat p div PGSIZE) (used_pages s0)"
    using palloc_page [OF pwf al] by metis
  have a: "dm_page a" "vframe a = unat p div PGSIZE" using dm_page_P2V [OF p(1,2)] by (simp_all add: a_def)
  obtain m' where ns: "newslab (of_nat n) s0 = Inr (a, s1\<lparr>slab_id := slab_id s1 + 1, mem := m', slabber_first := a\<rparr>)"
    and m': "m' a = slabber_first s1" "m' (a + 8) = of_nat n" "m' (a + 16) = 0" "m' (a + 32) = blk a n 0"
      "\<And>j. Suc j < nblk n \<Longrightarrow> m' (blk a n j) = blk a n (Suc j)"
      "m' (blk a n (nblk n - 1)) = mem s1 (blk a n (nblk n - 1))"
      "\<And>y. vframe y \<noteq> vframe a \<Longrightarrow> m' y = mem s1 y"
    using newslab_memory [OF a(1) n al a_def] by metis
  let ?s2 = "s1\<lparr>slab_id := slab_id s1 + 1, mem := m', slabber_first := a\<rparr>"
  have n0: "0 < n" "0 < nblk n" using size_class_bounds [OF n] by (auto simp: nblk_def)
  have fresh: "vframe (fst x) \<noteq> vframe a" if "x \<in> set L" for x
    using wf that p(3) a(2) by (auto simp: slab_wf_def)
  have "slab_chain m' q L \<longleftrightarrow> slab_chain (mem s0) q L" for q
    by (rule slab_chain_cong) (use wf fresh m'(7) s1 in \<open>auto simp: slab_wf_def\<close>)
  moreover have "blk_chain m' (blk a n 0) (map (blk a n) [0..<nblk n])"
  proof (rule blk_chain_upt)
    have "vframe (blk a n (nblk n - 1)) = vframe a"
      using a(1) n0 less_nblk [of n "nblk n - 1"] by (intro blk_props(2)) auto
    then show "m' (blk a n (nblk n - 1)) = 0"
      using m'(6) clean p(3) a(2) s1 by (simp add: clean_frames_def)
  qed (use m'(5) n0 less_nblk [OF n0(1)] blk_props(3) [OF a(1)] in auto)
  ultimately have "slab_chain m' a ((a, n, map (blk a n) [0..<nblk n]) # L)"
    using wf m' s1 a(1) dm_page_nonzero by (auto simp: slab_wf_def)
  moreover have "entry_ok (a, n, map (blk a n) [0..<nblk n])"
    using a(1) n n0 blk_inj_nblk [OF a(1) n0(1)]
    by (auto simp: entry_ok_def distinct_map inj_on_def blocks_nblk)
  moreover have "used_pages ?s2 = used_pages s1" "pmm_wf ?s2" using pwf1 by (simp_all add: used_pages_def pmm_wf_def)
  ultimately have "slab_wf ?s2 ((a, n, map (blk a n) [0..<nblk n]) # L)"
    using wf fresh used a(2) by (auto simp: slab_wf_def)
  moreover have "clean_frames ?s2"
    using clean m'(7) used a(2) s1 by (auto simp: clean_frames_def used_pages_def)
  moreover have "mem ?s2 y = mem s0 y" if "vframe y \<in> used_pages s0" for y
  proof -
    have "vframe y \<noteq> vframe a" using that a(2) p(3) by metis
    then show ?thesis using m'(7) s1 by simp
  qed
  then have "heap_kept s0 L ?s2"
    using used s1 by (auto simp: heap_kept_def used_pages_def)
  ultimately show ?thesis using ns p(3) a(2) s1 by (intro exI [of _ a] exI [of _ ?s2]) simp
qed

subsection \<open>\<open>kalloc\<close>\<close>

lemma slab_wf_lock [simp]: "slab_wf (s\<lparr>slabber_lock := l\<rparr>) L \<longleftrightarrow> slab_wf s L"
  by (simp add: slab_wf_def pmm_wf_def used_pages_def)

lemma clean_frames_lock [simp]: "clean_frames (s\<lparr>slabber_lock := l\<rparr>) \<longleftrightarrow> clean_frames s"
  by (simp add: clean_frames_def used_pages_def)

text \<open>The block size a request is served with: the least size class that is large enough.\<close>

lemma kalloc_class:
  fixes sz :: u64
  assumes "unat sz \<le> PGSIZE"
  shows "\<exists>n. ucast (roundup (ucast (if sz < 8 then 8 else sz))) = (of_nat n :: u64) \<and> size_class n \<and>
    unat sz \<le> n \<and> (\<forall>m. size_class m \<longrightarrow> unat sz \<le> m \<longrightarrow> n \<le> m)"
proof -
  define z :: u64 where "z = (if sz < 8 then 8 else sz)"
  have z: "8 \<le> unat z" "unat z \<le> PGSIZE" "unat sz \<le> unat z" "unat z = max 8 (unat sz)"
    using assms by (auto simp: z_def word_less_nat_alt)
  have zz: "unat (ucast z :: u32) = unat z"
    using z(2) by (simp add: unsigned_ucast_eq unsigned_take_bit_eq take_bit_nat_eq_self)
  obtain k where k: "unat (roundup (ucast z)) = 2 ^ k" "unat z \<le> 2 ^ k" "\<And>j. unat z \<le> 2 ^ j \<Longrightarrow> k \<le> j"
    using roundup_power [of "ucast z"] z zz by auto
  have "unat z \<le> 2 ^ 12" using z(2) by simp
  then have "k \<le> 12" by (rule k(3))
  moreover have "3 \<le> k"
  proof (rule ccontr)
    assume "\<not> 3 \<le> k"
    then have "(2::nat) ^ k \<le> 2 ^ 2" by (intro power_increasing) auto
    with k(2) z(1) show False by simp
  qed
  ultimately have "size_class (2 ^ k)" by (auto simp: size_class_def)
  moreover have "ucast (roundup (ucast z)) = (of_nat (2 ^ k) :: u64)"
    unfolding k(1) [symmetric] by simp
  moreover have "2 ^ k \<le> m" if m: "size_class m" "unat sz \<le> m" for m
  proof -
    obtain e where e: "m = 2 ^ e" "3 \<le> e" using m(1) by (auto simp: size_class_def)
    have "unat z \<le> m" using z(4) m size_class_bounds [of m] by auto
    then have "k \<le> e" using k(3) e(1) by blast
    then show ?thesis by (simp add: e(1) power_increasing)
  qed
  ultimately show ?thesis using k(2) z(3) unfolding z_def [symmetric] by (intro exI [of _ "2 ^ k"]) auto
qed

lemma blocks_of_other_slab:
  assumes "dm_page a" "dm_page a'" "vframe a \<noteq> vframe a'"
  shows "b \<in> blocks a n \<Longrightarrow> b \<notin> blocks a' n'"
  using blocks_vframe [OF assms(1)] blocks_vframe [OF assms(2)] assms(3) by metis

lemma taken_step:
  assumes wf: "slab_wf s (L1 @ (a, n, b # bs) # L2)"
  shows "b \<notin> taken (L1 @ (a, n, b # bs) # L2)"
    and "taken (L1 @ (a, n, bs) # L2) = insert b (taken (L1 @ (a, n, b # bs) # L2))"
proof -
  have ok: "dm_page a" "b \<in> blocks a n" "b \<notin> set bs" using wf by (auto simp: slab_wf_def entry_ok_def)
  have "b \<notin> blocks a' n'" if "(a', n', fl') \<in> set L1 \<union> set L2" for a' n' fl'
  proof -
    have "entry_ok (a', n', fl')" using wf that by (auto simp: slab_wf_def)
    then have d: "dm_page a'" by (simp add: entry_ok_def)
    have "distinct (map fst L1 @ a # map fst L2)" using wf by (simp add: slab_wf_def)
    moreover have "a' \<in> set (map fst L1) \<union> set (map fst L2)" using that by force
    ultimately have "a \<noteq> a'" by auto
    then have "vframe a \<noteq> vframe a'" using page_base_eq_iff d ok(1) by blast
    then show ?thesis using blocks_of_other_slab [OF ok(1) d] ok(2) by blast
  qed
  then show "b \<notin> taken (L1 @ (a, n, b # bs) # L2)" by (auto simp: taken_def)
  show "taken (L1 @ (a, n, bs) # L2) = insert b (taken (L1 @ (a, n, b # bs) # L2))"
    using ok by (auto simp: taken_def)
qed

text \<open>What a request of at most a page does to the heap.\<close>

definition kalloc_out :: "u64 \<Rightarrow> 'a machine_scheme \<Rightarrow> slab_entry list \<Rightarrow> u64 \<Rightarrow> 'a machine_scheme \<Rightarrow> slab_entry list \<Rightarrow> bool" where
  "kalloc_out sz s L b s' L' \<longleftrightarrow> (\<exists>a n fl. slab_wf s' L' \<and> clean_frames s' \<and> slabber_lock s' = 0 \<and>
     b \<notin> taken L \<and> taken L' = insert b (taken L) \<and> (a, n, fl) \<in> set L' \<and> b \<in> blocks a n \<and>
     (\<forall>x \<in> set L'. fst x \<in> fst ` set L \<or> vframe (fst x) \<notin> used_pages s) \<and> unat sz \<le> n \<and> (\<forall>m. size_class m \<longrightarrow> unat sz \<le> m \<longrightarrow> n \<le> m)) \<and> heap_kept s L s'"

definition kalloc_post :: "u64 \<Rightarrow> 'a machine_scheme \<Rightarrow> slab_entry list \<Rightarrow> u64 \<Rightarrow> 'a machine_scheme \<Rightarrow> bool" where
  "kalloc_post sz s L b s' \<longleftrightarrow> (\<exists>L'. kalloc_out sz s L b s' L')"

lemmas kalloc_post_defs = kalloc_post_def kalloc_out_def

lemma taken_new:
  assumes "0 < n"
  shows "taken ((a, n, map (blk a n) [0..<nblk n]) # L) = taken L"
  using assms by (auto simp: taken_def blocks_nblk)

lemma kalloc_from_slab:
  assumes wf: "slab_wf s (L1 @ (a, n, b # bs) # L2)" and clean: "clean_frames s"
    and n: "unat sz \<le> n" "\<forall>m. size_class m \<longrightarrow> unat sz \<le> m \<longrightarrow> n \<le> m"
    and L: "taken L = taken (L1 @ (a, n, b # bs) # L2)"
    and kept: "heap_kept s0 L s" "\<forall>x \<in> set (L1 @ (a, n, b # bs) # L2). fst x \<in> fst ` set L \<or> vframe (fst x) \<notin> used_pages s0"
  shows "\<exists>m'. allocblock a s = Inr (b, s\<lparr>mem := m'\<rparr>) \<and> kalloc_out sz s0 L b (s\<lparr>mem := m', slabber_lock := 0\<rparr>) (L1 @ (a, n, bs) # L2) \<and>
    (\<forall>y. y \<noteq> a + 16 \<longrightarrow> y \<noteq> a + 32 \<longrightarrow> m' y = mem s y)"
proof -
  obtain m' where m': "allocblock a s = Inr (b, s\<lparr>mem := m'\<rparr>)"
    "slab_wf (s\<lparr>mem := m'\<rparr>) (L1 @ (a, n, bs) # L2)" "\<And>y. y \<noteq> a + 16 \<Longrightarrow> y \<noteq> a + 32 \<Longrightarrow> m' y = mem s y"
    using allocblock_wf [OF wf] by blast
  have a: "vframe a \<in> used_pages s" "b \<in> blocks a n" "dm_page a"
    using wf by (auto simp: slab_wf_def entry_ok_def)
  have vf: "vframe (a + 16) = vframe a" "vframe (a + 32) = vframe a" using field_vframe [OF a(3)] by auto
  then have "clean_frames (s\<lparr>mem := m'\<rparr>)"
    using clean m'(3) a(1) by (simp add: clean_frames_def used_pages_def) metis
  moreover have "heap_kept s0 L (s\<lparr>mem := m', slabber_lock := 0\<rparr>)"
    unfolding heap_kept_def
  proof (intro conjI allI impI)
    fix y assume y: "vframe y \<in> used_pages s0" "\<forall>x \<in> set L. y \<noteq> fst x + 16 \<and> y \<noteq> fst x + 32"
    have "y \<noteq> a + 16 \<and> y \<noteq> a + 32" using kept(2) y vf by auto
    then show "mem (s\<lparr>mem := m', slabber_lock := 0\<rparr>) y = mem s0 y"
      using m'(3) kept(1) y by (auto simp: heap_kept_def)
  qed (use kept(1) in \<open>auto simp: heap_kept_def used_pages_def\<close>)
  ultimately have "kalloc_out sz s0 L b (s\<lparr>mem := m', slabber_lock := 0\<rparr>) (L1 @ (a, n, bs) # L2)"
    unfolding kalloc_out_def using m'(2) n taken_step [OF wf] L a(2) kept(2)
    by (intro conjI exI [of _ a] exI [of _ n] exI [of _ bs]) simp_all
  with m'(1,3) show ?thesis by blast
qed

lemma kalloc_unfold:
  assumes wf: "slab_wf s L" and lock: "slabber_lock s = 0" and sz: "unat sz \<le> PGSIZE"
    and n: "ucast (roundup (ucast (if sz < 8 then 8 else sz))) = (of_nat n :: u64)" "size_class n"
  shows "kalloc sz s = ebind (case find (\<lambda>(a, k, fl). k = n \<and> fl \<noteq> []) L of Some (a, _) \<Rightarrow> allocblock a (s\<lparr>slabber_lock := 1\<rparr>)
             | None \<Rightarrow> ebind (newslab (of_nat n) (s\<lparr>slabber_lock := 1\<rparr>)) (\<lambda>(slab, s). allocblock slab s)) (\<lambda>(block, s).
      Inr (block, s\<lparr>slabber_lock := 0\<rparr>))"
proof -
  let ?s = "s\<lparr>slabber_lock := 1\<rparr>" and ?fit = "\<lambda>(a, k, fl). k = n \<and> fl \<noteq> []"
  have find: "find_slab (list_fuel ?s) (slabber_first s) (of_nat n) ?s = Inr (case find ?fit L of None \<Rightarrow> 0 | Some (a, _) \<Rightarrow> a)"
    by (rule find_slab_spec) (use wf n(2) slab_wf_length [OF wf] in \<open>auto simp: slab_wf_def list_fuel_def\<close>)
  have small: "\<not> sz > 4096" using sz by (simp add: word_less_nat_alt)
  have kalloc: "kalloc sz s = ebind (find_slab (list_fuel ?s) (slabber_first s) (of_nat n) ?s) (\<lambda>slab.
      ebind (if slab \<noteq> 0 then allocblock slab ?s
             else ebind (newslab (of_nat n) ?s) (\<lambda>(slab, s). allocblock slab s)) (\<lambda>(block, s).
      Inr (block, s\<lparr>slabber_lock := 0\<rparr>)))"
    using small lock n(1) by (cases "sz < 8") (simp_all add: kalloc_def Let_def cong: if_cong)
  show ?thesis
  proof (cases "find ?fit L")
    case (Some x)
    obtain a k fl where x: "x = (a, k, fl)" by (cases x)
    have "x \<in> set L" using Some unfolding find_Some_iff by (metis nth_mem)
    then have "dm_page a" using wf x by (auto simp: slab_wf_def entry_ok_def)
    then have "a \<noteq> 0" by (rule dm_page_nonzero)
    then show ?thesis unfolding kalloc find using Some x by simp
  next
    case None
    then show ?thesis unfolding kalloc find by simp
  qed
qed

text \<open>When the first slab of the right size with a free block is known, so is the block and the new heap.\<close>

lemma kalloc_first:
  assumes wf: "slab_wf s L" and clean: "clean_frames s" and lock: "slabber_lock s = 0" and sz: "unat sz \<le> PGSIZE"
    and n: "ucast (roundup (ucast (if sz < 8 then 8 else sz))) = (of_nat n :: u64)" "size_class n"
      "unat sz \<le> n" "\<forall>m. size_class m \<longrightarrow> unat sz \<le> m \<longrightarrow> n \<le> m"
    and L: "L = L1 @ (a, n, b # bs) # L2" "\<forall>(a', k, fl) \<in> set L1. k = n \<longrightarrow> fl = []"
  obtains m' where "kalloc sz s = Inr (b, s\<lparr>mem := m'\<rparr>)" "kalloc_out sz s L b (s\<lparr>mem := m'\<rparr>) (L1 @ (a, n, bs) # L2)"
    "\<forall>y. y \<noteq> a + 16 \<longrightarrow> y \<noteq> a + 32 \<longrightarrow> m' y = mem s y"
proof -
  let ?s = "s\<lparr>slabber_lock := 1\<rparr>"
  have "find (\<lambda>(a, k, fl). k = n \<and> fl \<noteq> []) L1 = None" using L(2) by (auto simp: find_None_iff)
  then have f: "find (\<lambda>(a, k, fl). k = n \<and> fl \<noteq> []) L = Some (a, n, b # bs)" by (simp add: L(1) find_append)
  have "heap_kept s L ?s" by (simp add: heap_kept_def used_pages_def)
  then obtain m' where m': "allocblock a ?s = Inr (b, ?s\<lparr>mem := m'\<rparr>)"
    "kalloc_out sz s L b (?s\<lparr>mem := m', slabber_lock := 0\<rparr>) (L1 @ (a, n, bs) # L2)" "\<forall>y. y \<noteq> a + 16 \<longrightarrow> y \<noteq> a + 32 \<longrightarrow> m' y = mem s y"
    using kalloc_from_slab [of ?s L1 a n b bs L2 sz L s] wf clean n(3,4) L(1) by auto
  have e: "?s\<lparr>mem := m', slabber_lock := 0\<rparr> = s\<lparr>mem := m'\<rparr>" using lock by simp
  show thesis
    by (rule that [of m']) (use m' f lock in \<open>simp_all add: kalloc_unfold [OF wf lock sz n(1,2)] e\<close>)
qed

lemma kalloc_spec:
  assumes wf: "slab_wf s L" and clean: "clean_frames s" and lock: "slabber_lock s = 0"
    and sz: "unat sz \<le> PGSIZE" and ret: "(\<exists>r. palloc 1 s = Inr r) \<or> (\<exists>r. kalloc sz s = Inr r)"
  shows "\<exists>b s'. kalloc sz s = Inr (b, s') \<and> kalloc_post sz s L b s'"
proof -
  obtain n where n: "ucast (roundup (ucast (if sz < 8 then 8 else sz))) = (of_nat n :: u64)" "size_class n"
    "unat sz \<le> n" "\<forall>m. size_class m \<longrightarrow> unat sz \<le> m \<longrightarrow> n \<le> m"
    using kalloc_class [OF sz] by blast
  let ?s = "s\<lparr>slabber_lock := 1\<rparr>" and ?fit = "\<lambda>(a, k, fl). k = n \<and> fl \<noteq> []"
  note kalloc = kalloc_unfold [OF wf lock sz n(1,2)]
  show ?thesis
  proof (cases "find ?fit L")
    case (Some x)
    then obtain i a fl where i: "i < length L" "L ! i = (a, n, fl)" "fl \<noteq> []" "\<forall>j < i. \<not> ?fit (L ! j)"
      by (auto simp: find_Some_iff)
    obtain b bs where fl: "fl = b # bs" using i(3) by (cases fl) auto
    have L: "L = take i L @ (a, n, b # bs) # drop (Suc i) L" using i(1,2) fl by (metis id_take_nth_drop)
    have no: "\<forall>(a', k, fl) \<in> set (take i L). k = n \<longrightarrow> fl = []"
    proof
      fix x assume "x \<in> set (take i L)"
      then obtain j where "j < i" "x = L ! j" using i(1) by (auto simp: in_set_conv_nth)
      then show "case x of (a', k, fl) \<Rightarrow> k = n \<longrightarrow> fl = []" using i(4) by (cases x) auto
    qed
    show ?thesis
      by (rule kalloc_first [OF wf clean lock sz n L no]) (auto simp: kalloc_post_def)
  next
    case None
    have "\<exists>r. palloc 1 ?s = Inr r"
      using ret
    proof
      assume "\<exists>r. kalloc sz s = Inr r"
      then have "\<exists>r. newslab (of_nat n) ?s = Inr r" using kalloc None by (auto elim!: ebindE)
      then show ?thesis by (auto simp: newslab_def elim!: ebindE)
    qed (unfold palloc_returns, simp)
    then obtain p s1 where "palloc 1 ?s = Inr (p, s1)" by auto
    then obtain a s2 where ns: "newslab (of_nat n) ?s = Inr (a, s2)"
      "slab_wf s2 ((a, n, map (blk a n) [0..<nblk n]) # L)" "clean_frames s2"
      "heap_kept ?s L s2" "vframe a \<notin> used_pages ?s"
      using newslab_wf [of ?s L n p s1] wf clean n(2) by auto
    have kept: "heap_kept s L s2" "vframe a \<notin> used_pages s"
      using ns(4,5) by (simp_all add: heap_kept_def used_pages_def)
    have n0: "0 < n" "0 < nblk n" using size_class_bounds [OF n(2)] by (auto simp: nblk_def)
    have "map (blk a n) [0..<nblk n] = blk a n 0 # map (blk a n) [1..<nblk n]"
      using n0(2) by (simp add: upt_conv_Cons)
    then obtain m' where "allocblock a s2 = Inr (blk a n 0, s2\<lparr>mem := m'\<rparr>)"
      "kalloc_out sz s L (blk a n 0) (s2\<lparr>mem := m', slabber_lock := 0\<rparr>) ((a, n, map (blk a n) [1..<nblk n]) # L)"
      using kalloc_from_slab [of s2 "[]" a n "blk a n 0" "map (blk a n) [1..<nblk n]" L sz L s] ns(2,3) n
        taken_new [OF n0(1), of a L] kept by auto
    then show ?thesis unfolding kalloc_post_def using kalloc None ns(1) by auto
  qed
qed

text \<open>Memory that belongs to handed out blocks is not part of the heap's own structure.\<close>

lemma slab_chain_cells:
  assumes "\<And>a n fl. (a, n, fl) \<in> set L \<Longrightarrow> m' a = m a \<and> m' (a + 8) = m (a + 8) \<and> m' (a + 32) = m (a + 32) \<and> (\<forall>b \<in> set fl. m' b = m b)"
  shows "slab_chain m' p L \<longleftrightarrow> slab_chain m p L"
  using assms
proof (induction L arbitrary: p)
  case (Cons x L)
  obtain a n fl where x: "x = (a, n, fl)" by (cases x)
  have "m' a = m a" "m' (a + 8) = m (a + 8)" "m' (a + 32) = m (a + 32)" "\<forall>b \<in> set fl. m' b = m b"
    using Cons.prems [of a n fl] by (simp_all add: x)
  moreover have "slab_chain m' q L \<longleftrightarrow> slab_chain m q L" for q
    by (rule Cons.IH) (use Cons.prems in \<open>meson list.set_intros(2)\<close>)
  ultimately show ?case using blk_chain_cong [of fl m' m] by (simp add: x)
qed simp

lemma slab_wf_write_taken:
  assumes wf: "slab_wf s L" and b: "b \<in> taken L"
  shows "slab_wf (s\<lparr>mem := (mem s)(b := v)\<rparr>) L"
proof -
  obtain a n fl where a: "(a, n, fl) \<in> set L" "b \<in> blocks a n" "b \<notin> set fl" using b by (auto simp: taken_def)
  have ok: "entry_ok x" "dm_page (fst x)" if "x \<in> set L" for x using wf that by (fastforce simp: slab_wf_def entry_ok_def)+
  have da: "dm_page a" using ok(2) [OF a(1)] by simp
  have "b \<noteq> a' \<and> b \<noteq> a' + 8 \<and> b \<noteq> a' + 32 \<and> b \<notin> set fl'" if x: "(a', n', fl') \<in> set L" for a' n' fl'
  proof (cases "a' = a")
    case True
    then have "(n', fl') = (n, fl)" using wf a(1) x by (auto simp: slab_wf_def dest: eq_key_imp_eq_value)
    then show ?thesis using True a blocks_not_field [OF da a(2), of 0] blocks_not_field [OF da a(2), of 8] blocks_not_field [OF da a(2), of 32] by simp
  next
    case False
    have da': "dm_page a'" "set fl' \<subseteq> blocks a' n'" using ok [OF x] by (auto simp: entry_ok_def)
    have "vframe a' \<noteq> vframe b" using False page_base_eq_iff [of a' a] da da'(1) blocks_vframe [OF da a(2)] by (simp add: dm_page_base)
    then show ?thesis using field_vframe [OF da'(1), of 0] field_vframe [OF da'(1), of 8] field_vframe [OF da'(1), of 32] da'(2)
      blocks_vframe [OF da'(1)] by auto
  qed
  then have "slab_chain ((mem s)(b := v)) p L \<longleftrightarrow> slab_chain (mem s) p L" for p by (intro slab_chain_cells) auto
  then show ?thesis using wf by (simp add: slab_wf_def pmm_wf_def used_pages_def)
qed

lemma slab_wf_kept:
  assumes "slab_wf s L" and "\<And>x y. x \<in> set L \<Longrightarrow> vframe y = vframe (fst x) \<Longrightarrow> mem s' y = mem s y"
    and "slabber_first s' = slabber_first s" "pmm_wf s'" "used_pages s \<subseteq> used_pages s'"
  shows "slab_wf s' L"
  using assms slab_chain_cong [of L "mem s'" "mem s"] by (auto simp: slab_wf_def)

lemma palloc_one:
  assumes "q < 8 * length (bitmap s)" "q \<notin> used_pages s"
  shows "\<exists>r. palloc 1 s = Inr r"
proof -
  have "\<exists>r. scanbitmap (bitmap s) 0 1 = Inr r"
    by (rule scanbitmap_finds [of 0 q]) (use assms in \<open>auto simp: used_pages_def\<close>)
  then show ?thesis using palloc_total by blast
qed

text \<open>
  C4 (\<open>kalloc\<close> serves a request).  In a well-formed heap with its lock free, frames that come zeroed and
  at least one frame free, a request of at most a page returns, whatever its size: the block starts inside the
  page of a slab whose block size is the least power of two (8 at least) that holds the request, it was not handed
  out before, it is the only block that becomes handed out, the lock is free again, the heap is well-formed, and
  the memory in use keeps its contents but for the reference count and list head of the slab structures.
\<close>
theorem kalloc_correct:
  assumes "slab_wf s L" "clean_frames s" "slabber_lock s = 0" "unat sz \<le> PGSIZE"
    and "q < 8 * length (bitmap s)" "q \<notin> used_pages s"
  shows "\<exists>b s' L' a n fl. kalloc sz s = Inr (b, s') \<and> slab_wf s' L' \<and> clean_frames s' \<and> slabber_lock s' = 0 \<and>
     b \<notin> taken L \<and> taken L' = insert b (taken L) \<and> (a, n, fl) \<in> set L' \<and> b \<in> blocks a n \<and>
     unat sz \<le> n \<and> (\<forall>m. size_class m \<longrightarrow> unat sz \<le> m \<longrightarrow> n \<le> m) \<and> heap_kept s L s'"
proof -
  obtain b s' where "kalloc sz s = Inr (b, s')" "kalloc_post sz s L b s'"
    using kalloc_spec [OF assms(1-4)] palloc_one [OF assms(5,6)] by blast
  then show ?thesis unfolding kalloc_post_defs by blast
qed


definition boot_machine :: machine where
  "boot_machine = \<lparr>bitmap = [0xf0], bitmap_addr = 0, spinlock = 0, dbg_g = 10,
     mem = (\<lambda>_. 0), slabber_first = 0, slabber_lock = 0, slab_id = 0\<rparr>"

lemma boot_machine_wf:
  "slab_wf boot_machine []" "clean_frames boot_machine" "slabber_lock boot_machine = 0"
  "0 < 8 * length (bitmap boot_machine)" "0 \<notin> used_pages boot_machine"
  by (simp_all add: boot_machine_def slab_wf_def clean_frames_def pmm_wf_def used_pages_def page_used_def)

theorem kalloc_correct_witness: "\<exists>b s'. kalloc 50 boot_machine = Inr (b, s') \<and> slabber_lock s' = 0"
  using kalloc_correct [OF boot_machine_wf(1-3) _ boot_machine_wf(4,5), of 50] by auto

lemma kalloc_run_spec:
  "slab_wf s L \<Longrightarrow> clean_frames s \<Longrightarrow> slabber_lock s = 0 \<Longrightarrow> \<forall>n \<in> set ns. n \<le> PGSIZE \<Longrightarrow>
   alloc_run (\<lambda>n. kalloc (of_nat n)) ns s = Inr (as, s') \<Longrightarrow>
     distinct as \<and> set as \<inter> taken L = {} \<and>
     (\<exists>L'. slab_wf s' L' \<and> taken L' = taken L \<union> set as \<and> (\<forall>b \<in> set as. \<exists>(a, n, fl) \<in> set L'. b \<in> blocks a n))"
proof (induction ns arbitrary: s L as)
  case Nil
  then show ?case by auto
next
  case (Cons n ns)
  from Cons.prems(5) obtain b s1 as1 where b: "kalloc (of_nat n) s = Inr (b, s1)"
    and r: "alloc_run (\<lambda>n. kalloc (of_nat n)) ns s1 = Inr (as1, s')" and as: "as = b # as1"
    by (auto simp: ebind_eq_Inr)
  have "unat (of_nat n :: u64) = n" using Cons.prems(4) by (intro unat_of_nat_64) auto
  then have "kalloc_post (of_nat n) s L b s1"
    using kalloc_spec [OF Cons.prems(1-3), of "of_nat n"] b Cons.prems(4) by auto
  then obtain L1 where L1: "slab_wf s1 L1" "clean_frames s1" "slabber_lock s1 = 0" "b \<notin> taken L"
    "taken L1 = insert b (taken L)"
    by (auto simp: kalloc_post_defs)
  from Cons.IH [OF L1(1-3) _ r] Cons.prems(4) obtain L' where IH: "distinct as1" "set as1 \<inter> taken L1 = {}"
    "slab_wf s' L'" "taken L' = taken L1 \<union> set as1"
    by auto
  have "\<exists>(a, n, fl) \<in> set L'. c \<in> blocks a n" if "c \<in> set as" for c
  proof -
    have "c \<in> taken L'" using that IH(4) L1(5) by (auto simp: as)
    then show ?thesis by (fastforce simp: taken_def)
  qed
  with IH L1 show ?case by (auto simp: as intro!: exI [of _ L'])
qed

text \<open>
  No block is handed out twice: Over any sequence of requests of at most a page, from a well-formed
  heap whose free frames are zeroed, the returned blocks are pairwise distinct, none was handed out before, each
  starts at a block boundary of a slab, and none is page aligned (so \<open>kfree\<close> tells it from a large allocation).
\<close>
lemma kalloc_run_distinct:
  assumes "slab_wf s L" "clean_frames s" "slabber_lock s = 0" "\<forall>n \<in> set ns. n \<le> PGSIZE"
    and "alloc_run (\<lambda>n. kalloc (of_nat n)) ns s = Inr (as, s')"
  shows "distinct as \<and> set as \<inter> taken L = {} \<and> (\<forall>b \<in> set as. b AND 0xfff \<noteq> 0) \<and>
    (\<exists>L'. slab_wf s' L' \<and> taken L' = taken L \<union> set as)"
proof -
  obtain L' where run: "distinct as" "set as \<inter> taken L = {}" "slab_wf s' L'" "taken L' = taken L \<union> set as"
    "\<forall>b \<in> set as. \<exists>(a, n, fl) \<in> set L'. b \<in> blocks a n"
    using kalloc_run_spec [OF assms] by blast
  have "b AND 0xfff \<noteq> 0" if "b \<in> set as" for b
  proof -
    from run(5) that obtain a n fl where "(a, n, fl) \<in> set L'" and bl: "b \<in> blocks a n" by blast
    then have "dm_page a" using run(3) by (auto simp: slab_wf_def entry_ok_def)
    then show ?thesis using blocks_not_page_base bl by (simp flip: page_base_and_fff)
  qed
  with run show ?thesis by blast
qed

lemmas slab_eval = kalloc_def roundup_def newslab_def allocblock_def SLIST_INSERT_HEAD_def SLIST_INSERT_AFTER_def
  SLIST_REMOVE_HEAD_def SLIST_NEXT_def ld_def st_def st32_def list_fuel_def boot_machine_def P2V_def HHDM_OFFSET_def

lemma find_slab_unfold:
  "find_slab k slab sz s = (if k = 0 then Inl NoFuel else if slab = 0 then Inr 0
      else ebind (ld slab 8 s) (\<lambda>size'.
           ebind (if size' = sz then ld slab 32 s else Inr 0) (\<lambda>first.
           if size' = sz \<and> first \<noteq> 0 then Inr slab
           else ebind (SLIST_NEXT slab s) (\<lambda>slab. find_slab (k - 1) slab sz s))))"
  by (cases k) (simp_all cong: if_cong)

lemma newslab_loop_unfold:
  "newslab_loop k slab block start sz s = (if k = 0 then Inl NoFuel else if block + sz < slab + 4096
      then ebind (SLIST_INSERT_AFTER start block s) (\<lambda>(block, s).
           newslab_loop (k - 1) slab block (start + sz) sz s)
      else Inr s)"
  by (cases k) simp_all

lemma kalloc_two_pages:
  "\<exists>b c s'. alloc_run (\<lambda>n. kalloc (of_nat n)) [4096, 4096] boot_machine = Inr ([b, c], s')"
  by (simp add: slab_eval find_slab_unfold newslab_loop_unfold palloc_eval Let_def)

subsection \<open>The end of a slab\<close>

text \<open>
  The free list of a new slab: \<open>newslab\<close> puts one frame, taken from the page allocator, at the head of the
  slab list; its free list holds every block boundary that starts inside the page, in address order.  Only blocks
  of 8 bytes end inside the page: from 16 bytes on the last block reaches beyond the end of the slab's page, into
  whatever frame follows.
\<close>
lemma newslab_free_list:
  assumes "slab_wf s L" "clean_frames s" "size_class n" "q < 8 * length (bitmap s)" "q \<notin> used_pages s"
  shows "\<exists>a s' fl. newslab (of_nat n) s = Inr (a, s') \<and> slab_wf s' ((a, n, fl) # L) \<and>
    fl = map (\<lambda>k. a + of_nat (40 + k * n)) [0..<length fl] \<and> set fl = blocks a n \<and>
    (n = 8 \<longrightarrow> unat (last fl) + n = unat a + PGSIZE) \<and>
    (16 \<le> n \<longrightarrow> unat a + PGSIZE < unat (last fl) + n)"
proof -
  obtain p s1 where "palloc 1 s = Inr (p, s1)" using palloc_one [OF assms(4,5)] by auto
  then obtain a s2 where ns: "newslab (of_nat n) s = Inr (a, s2)"
    "slab_wf s2 ((a, n, map (blk a n) [0..<nblk n]) # L)"
    using newslab_wf [OF assms(1-3)] by blast
  let ?fl = "map (blk a n) [0..<nblk n]" and ?k = "nblk n - 1"
  have n0: "0 < n" "0 < nblk n" using size_class_bounds [OF assms(3)] by (auto simp: nblk_def)
  have a: "dm_page a" using ns(2) by (simp add: slab_wf_def entry_ok_def)
  have last: "last ?fl = blk a n ?k" using n0(2) by (simp add: last_map)
  have k: "40 + ?k * n < PGSIZE" using less_nblk [OF n0(1), of ?k] n0(2) by simp
  have Sk: "PGSIZE \<le> 40 + Suc ?k * n" using less_nblk [OF n0(1), of "Suc ?k"] n0(2) by simp
  have end': "unat (last ?fl) + n = unat a + (40 + Suc ?k * n)"
    unfolding last blk_props(1) [OF a k] by simp
  have "PGSIZE < 40 + Suc ?k * n" if "16 \<le> n"
  proof -
    obtain e where e: "n = 2 ^ e" "3 \<le> e" using assms(3) by (auto simp: size_class_def)
    have "e \<noteq> 3" using that e(1) by auto
    then have "2 ^ 4 dvd n" unfolding e(1) using e(2) by (intro le_imp_power_dvd) simp
    then have "16 dvd Suc ?k * n" by simp
    then have "Suc ?k * n \<noteq> 4056" by auto
    then show ?thesis using Sk by simp
  qed
  moreover have "40 + Suc ?k * n = PGSIZE" if "n = 8" by (simp add: that nblk_def)
  moreover have "set ?fl = blocks a n" using n0(1) by (auto simp: blocks_nblk)
  moreover have "?fl = map (\<lambda>k. a + of_nat (40 + k * n)) [0..<length ?fl]" by (simp add: blk_def)
  ultimately show ?thesis using ns end' by (intro exI [of _ a] exI [of _ s2] exI [of _ ?fl]) auto
qed

subsection \<open>\<open>kfree\<close>\<close>

lemma dm_page_gap:
  assumes "dm_page a" "dm_page a'" "unat a < unat a'"
  shows "a' = a + 4096 \<or> unat a + 2 * PGSIZE \<le> unat a'"
proof -
  obtain k k' where k: "unat (V2P a) = 4096 * k" "unat (V2P a') = 4096 * k'"
    using assms by (auto simp: dm_page_def page_base_def mod_eq_0_iff_dvd dvd_def)
  have v: "unat (V2P x) = unat x - 0xffff800000000000" if "dm_page x" for x
  proof -
    have "HHDM_OFFSET \<le> x" using that by (simp add: dm_page_def HHDM_OFFSET_def word_le_nat_alt)
    then show ?thesis by (simp add: V2P_def unat_sub HHDM_OFFSET_def)
  qed
  have u: "unat a = 4096 * k + 0xffff800000000000" "unat a' = 4096 * k' + 0xffff800000000000"
    using v [OF assms(1)] v [OF assms(2)] k assms(1,2) by (auto simp: dm_page_def)
  then have "k < k'" using assms(3) by simp
  then consider "k' = k + 1" | "k + 2 \<le> k'" by linarith
  then show ?thesis
  proof cases
    case 1
    have "unat (a + of_nat PGSIZE) = unat a + PGSIZE" by (rule dm_page_offset [OF assms(1)]) simp
    then have "unat a' = unat (a + 4096)" using u 1 by simp
    then show ?thesis by (simp add: word_unat_eq_iff)
  next
    case 2
    then show ?thesis using u by simp
  qed
qed

lemma kfree_guard:
  assumes "dm_page a" "dm_page a'" "b \<in> blocks a n" "a' \<noteq> a + 4096"
  shows "b < a' - (4096 - 40) \<or> b \<ge> a'"
proof (cases "unat a < unat a'")
  case True
  then have gap: "unat a + 2 * PGSIZE \<le> unat a'" using dm_page_gap [OF assms(1,2)] assms(4) by blast
  obtain k where k: "b = blk a n k" "40 + k * n < PGSIZE" using assms(3) by (auto simp: blocks_def)
  have "unat b < unat a + PGSIZE" using blk_props(1) [OF assms(1) k(2)] k by simp
  moreover have "unat (a' - 4056) = unat a' - 4056"
    using gap by (simp add: unat_sub word_le_nat_alt)
  ultimately have "b < a' - 4056" using gap by (simp add: word_less_nat_alt)
  then show ?thesis by simp
next
  case False
  obtain k where k: "b = blk a n k" "40 + k * n < PGSIZE" using assms(3) by (auto simp: blocks_def)
  then show ?thesis using blk_props(1) [OF assms(1) k(2)] False by (simp add: word_le_nat_alt)
qed

lemma kfree_loop_skips:
  assumes "dm_page a" "b \<in> blocks a n"
  shows "slab_chain (mem s) p L \<Longrightarrow> (\<And>x. x \<in> set L \<Longrightarrow> dm_page (fst x) \<and> fst x \<noteq> a + 4096) \<Longrightarrow>
    length L < fuel \<Longrightarrow> kfree_loop fuel p b s = Inr s"
proof (induction L arbitrary: p fuel)
  case Nil
  then show ?case by (cases fuel) auto
next
  case (Cons x L)
  obtain a' k fl where x: "x = (a', k, fl)" by (cases x)
  obtain f where f: "fuel = Suc f" "length L < f" using Cons.prems(3) by (cases fuel) auto
  have chain: "p = a'" "a' \<noteq> 0" "slab_chain (mem s) (mem s a') L" using Cons.prems(1) by (auto simp: x)
  have a': "dm_page a'" "a' \<noteq> a + 4096" using Cons.prems(2) [of x] by (auto simp: x)
  have "kfree_loop f (mem s a') b s = Inr s"
    by (rule Cons.IH) (use Cons.prems chain f in auto)
  then show ?case using kfree_guard [OF assms(1) a'(1) assms(2) a'(2)] chain f
    by (simp add: SLIST_NEXT_def ld_def)
qed

text \<open>
  \<open>kfree\<close> does not give blocks back: For a block of a slab, in a well-formed heap whose lock is free, and
  unless another slab happens to occupy the very next page, \<open>kfree\<close> returns without any effect: the guard looks for
  a slab structure \<^emph>\<open>above\<close> the block although \<open>newslab\<close> puts it at the start of the page, so the loop passes over
  the block's own slab.
\<close>
lemma kfree_no_effect:
  assumes "slab_wf s L" "slabber_lock s = 0" "(a, n, fl) \<in> set L" "b \<in> blocks a n"
    and "a + 4096 \<notin> fst ` set L"
  shows "kfree b s = Inr s"
proof -
  have ok: "\<And>x. x \<in> set L \<Longrightarrow> dm_page (fst x)" using assms(1) by (fastforce simp: slab_wf_def entry_ok_def)
  then have a: "dm_page a" using assms(3) by force
  let ?s = "s\<lparr>slabber_lock := 1\<rparr>"
  have "kfree_loop (list_fuel ?s) (slabber_first ?s) b ?s = Inr ?s"
  proof (rule kfree_loop_skips [OF a assms(4)])
    show "length L < list_fuel ?s" using slab_wf_length [OF assms(1)] by (simp add: list_fuel_def)
    show "dm_page (fst x) \<and> fst x \<noteq> a + 4096" if "x \<in> set L" for x using ok [OF that] assms(5) that by force
  qed (use assms(1) in \<open>simp add: slab_wf_def\<close>)
  moreover have "b \<noteq> 0" by (rule blocks_nonzero [OF a assms(4)])
  moreover have "b AND 0xfff \<noteq> 0" using blocks_not_page_base [OF a assms(4)] by (simp flip: page_base_and_fff)
  ultimately show ?thesis using assms(2) by (simp add: kfree_def)
qed

lemma kfree_loop_unfold:
  "kfree_loop k slab ptr s = (if k = 0 then Inl NoFuel else if slab = 0 then Inr s
      else let startaddr = slab - (4096 - 40) in
      if ptr < startaddr \<or> ptr \<ge> slab
      then ebind (SLIST_NEXT slab s) (\<lambda>slab. kfree_loop (k - 1) slab ptr s)
      else ebind (ld slab 16 s) (\<lambda>refcount.
           if refcount = 0 then Inl (Panic ''kfree, double free'')
           else ebind (st slab 16 (refcount - 1) s) (\<lambda>s.
                if refcount - 1 = 0 then freeslab slab s
                else ebind (ld slab 32 s) (\<lambda>first.
                     ebind (SLIST_INSERT_HEAD ptr first s) (\<lambda>(first, s). st slab 32 first s)))))"
  by (cases k) (simp_all cong: if_cong)

text \<open>
  When the next page does hold a slab, that one is hit instead: here two blocks are allocated, \<open>b\<close> in the slab
  of frame 0 and \<open>c\<close> in the slab of frame 1, and freeing \<open>b\<close> releases frame 1 while \<open>c\<close> is in use.
\<close>
lemma kfree_frees_wrong_slab:
  "\<exists>b c s s'. alloc_run (\<lambda>n. kalloc (of_nat n)) [4096, 4096] boot_machine = Inr ([b, c], s) \<and>
     vframe b = 0 \<and> vframe c = 1 \<and> used_pages s \<supseteq> {0, 1} \<and> kfree b s = Inr s' \<and>
     0 \<in> used_pages s' \<and> 1 \<notin> used_pages s'"
  by (simp add: slab_eval find_slab_unfold newslab_loop_unfold palloc_eval Let_def kfree_def kfree_loop_unfold
      freeslab_def SLIST_REMOVE_ITEM_def freepg_def vframe_def V2P_def used_pages_def page_used_def)

subsection \<open>Large allocations\<close>

lemma kalloclarge_effect:
  assumes wf: "pmm_wf s" and sz: "PGSIZE < unat sz" "unat sz \<le> 2 ^ 43" and al: "kalloc sz s = Inr (ptr, s1)"
    and ok: "ptr \<noteq> 0"
  obtains a where "ptr = P2V a + 4096" "mem s1 (P2V a) = DIV_ROUNDUP sz 4096" "pmm_wf s1"
    and "unat (DIV_ROUNDUP sz 4096) = (unat sz + 4095) div PGSIZE"
    and "unat a mod PGSIZE = 0" "unat a + PGSIZE < 2 ^ 47"
    and "frames a (Suc (unat (DIV_ROUNDUP sz 4096))) \<inter> used_pages s = {}"
    and "used_pages s1 = used_pages s \<union> frames a (Suc (unat (DIV_ROUNDUP sz 4096)))"
proof -
  define k where "k = DIV_ROUNDUP sz 4096"
  have k: "unat k = (unat sz + 4095) div PGSIZE"
    unfolding k_def using sz by (subst unat_DIV_ROUNDUP) auto
  have "(PGSIZE + 4095) div PGSIZE \<le> unat k" unfolding k by (rule div_le_mono) (use sz in simp)
  moreover have "unat k \<le> (2 ^ 43 + 4095) div PGSIZE" unfolding k by (rule div_le_mono) (use sz in simp)
  ultimately have kb: "1 \<le> unat k" "unat k \<le> 2 ^ 31" by simp_all
  then have k1: "unat (k + 1) = Suc (unat k)" by (simp add: unat_word_ariths)
  have "sz > 4096" using sz(1) by (simp add: word_less_nat_alt)
  then have "kalloclarge sz s = Inr (ptr, s1)" using al by (simp add: kalloc_def)
  then obtain a s0 where a: "palloc (Suc (unat k)) s = Inr (a, s0)" and
    rest: "(if a = 0 then Inr (0, s0) else ebind (st (P2V a) 0 k s0) (\<lambda>s. Inr (P2V a + 4096, s))) = Inr (ptr, s1)"
    by (auto simp: kalloclarge_def Let_def k_def [symmetric] k1 elim!: ebindE cong: if_cong)
  have "a \<noteq> 0" using rest ok by (auto split: if_splits)
  with rest have st: "st (P2V a) 0 k s0 = Inr s1" "ptr = P2V a + 4096" by (auto simp: ebind_eq_Inr)
  then have s1: "s1 = s0\<lparr>mem := (mem s0)(P2V a := k)\<rparr>" by (auto simp: st_def split: if_splits)
  have used: "used_pages s1 = used_pages s \<union> frames a (Suc (unat k))"
    using pm.alloc_used [OF wf a] s1 by (simp add: used_pages_def)
  have "unat a div PGSIZE + 1 \<in> used_pages s1" using kb(1) by (simp add: used frames_def)
  then have "unat a div PGSIZE + 1 < 8 * length (bitmap s1)" by (rule used_pages_bound)
  moreover have wf1: "pmm_wf s1" using pm.alloc_wf [OF wf a] s1 by (simp add: pmm_wf_def)
  ultimately have "unat a div PGSIZE + 1 < 2 ^ 35" by (simp add: pmm_wf_def)
  then have "unat a + PGSIZE < 2 ^ 47" using pm.alloc_aligned [OF wf a] by (auto simp: mod_eq_0_iff_dvd)
  with that st(2) s1 wf1 k used pm.alloc_aligned [OF wf a] pm.alloc_fresh [OF wf a] show ?thesis
    unfolding k_def by simp
qed

text \<open>
  Large allocations lose a page: A request above a page size returns, page aligned, the address behind a
  frame that records the page count; the frames it takes were free.  \<open>kfree\<close> of that address releases the recorded
  number of frames, which is one less than \<open>kalloclarge\<close> took: exactly the last frame stays marked as used.
\<close>
lemma kalloclarge_kfree_leaks_one:
  assumes "pmm_wf s" "PGSIZE < unat sz" "unat sz \<le> 2 ^ 43" "kalloc sz s = Inr (ptr, s1)" "ptr \<noteq> 0"
  shows "ptr AND 0xfff = 0 \<and> (\<exists>s2. kfree ptr s1 = Inr s2 \<and> pmm_wf s2 \<and>
    vframe ptr + (unat sz + 4095) div PGSIZE - 1 \<notin> used_pages s \<and>
    used_pages s2 = insert (vframe ptr + (unat sz + 4095) div PGSIZE - 1) (used_pages s))"
proof -
  obtain a where a: "ptr = P2V a + 4096" "mem s1 (P2V a) = DIV_ROUNDUP sz 4096" "pmm_wf s1"
    "unat (DIV_ROUNDUP sz 4096) = (unat sz + 4095) div PGSIZE"
    "unat a mod PGSIZE = 0" "unat a + PGSIZE < 2 ^ 47"
    "frames a (Suc (unat (DIV_ROUNDUP sz 4096))) \<inter> used_pages s = {}"
    "used_pages s1 = used_pages s \<union> frames a (Suc (unat (DIV_ROUNDUP sz 4096)))"
    using kalloclarge_effect [OF assms] by metis
  define k where "k = unat (DIV_ROUNDUP sz 4096)"
  have "k \<le> (2 ^ 43 + 4095) div PGSIZE" unfolding k_def a(4) by (rule div_le_mono) (use assms in simp)
  then have "k \<le> 2 ^ 31" by simp
  then have c: "unat (ucast (DIV_ROUNDUP sz 4096) :: u32) = k"
    by (simp add: k_def unsigned_ucast_eq unsigned_take_bit_eq take_bit_nat_eq_self)
  have a4: "unat (a + 4096) = unat a + PGSIZE" using a(6) by (simp add: unat_word_ariths)
  have ptr: "ptr = P2V (a + 4096)" using a(1) by (simp add: P2V_def)
  have base: "page_base ptr" and vf: "vframe ptr = unat a div PGSIZE + 1"
    using a(5) by (simp_all add: ptr a4)
  note fr = frames_Suc [of a k]
  have "frames a k \<subseteq> used_pages s1" using a(8) fr(1) unfolding k_def [symmetric] by blast
  then obtain s2 where s2: "freepg a (ucast (DIV_ROUNDUP sz 4096)) s1 = Inr s2" "pmm_wf s2"
    "used_pages s2 = used_pages s1 - frames a k"
    using pm.dealloc_used [OF a(3), of a "ucast (DIV_ROUNDUP sz 4096)"] c by auto
  have "P2V a \<noteq> 0" using a(6) by (intro P2V_nonzero) simp
  then have "kfree ptr s1 = Inr s2"
    using assms(5) base s2(1) a(1,2) by (simp add: kfree_def kfreelarge_def ld_def flip: page_base_and_fff)
  moreover have "vframe ptr + (unat sz + 4095) div PGSIZE - 1 = unat a div PGSIZE + k"
    using vf a(4) by (simp add: k_def)
  moreover have "used_pages s2 = insert (unat a div PGSIZE + k) (used_pages s)"
    using s2(3) a(7,8) fr unfolding k_def [symmetric] by blast
  moreover have "unat a div PGSIZE + k \<notin> used_pages s" using a(7) fr(1) unfolding k_def [symmetric] by blast
  ultimately show ?thesis using base s2(2) by (simp flip: page_base_and_fff)
qed

end
