(* ===== verification/Vmm.thy ===== *)
theory Vmm
  imports Slab
begin

section \<open>Virtual memory manager (kernel/vmm.c, kernel/mm/vm.h, kernel/vm/vm.c)\<close>

text \<open>
  Four-level page tables in the memory \<open>mem\<close> of the direct map: a table is 512 words, entry \<open>i\<close> of the table at
  virtual address \<open>t\<close> is the word at \<open>t + 8 i\<close>.  \<open>struct vm_map\<close> has \<open>top_level\<close> at offset 0 and \<open>entries\<close> at 8,
  \<open>struct vm_map_entry\<close> (40 bytes) has \<open>next\<close>, \<open>start\<close>, \<open>end\<close>, \<open>offset\<close>, \<open>obj\<close> at 0, 8, 16, 24, 32.  The state
  adds the global \<open>kernel_vm_map\<close> and the register \<open>cr3\<close>.
\<close>

record vmm = machine +
  kernel_vm_map :: u64
  cr3 :: u64

definition PTE_PRESENT :: u64 where "PTE_PRESENT = 1"
definition PTE_RW :: u64 where "PTE_RW = 2"
definition PTE_USER :: u64 where "PTE_USER = 4"
definition PTE_NX :: u64 where "PTE_NX = 2 ^ 63"
definition PTE_ADDR_MASK :: u64 where "PTE_ADDR_MASK = 0x000ffffffffff000"

definition PTE_GET_ADDR :: "u64 \<Rightarrow> u64" where
  "PTE_GET_ADDR v = v AND PTE_ADDR_MASK"

text \<open>\<open>memset(p, 0, PGSIZE)\<close> on the words of a page.\<close>

definition memset_page :: "u64 \<Rightarrow> 'a machine_scheme \<Rightarrow> 'a machine_scheme" where
  "memset_page p s = s\<lparr>mem := (\<lambda>x. if x - p < 4096 then 0 else mem s x)\<rparr>"

subsection \<open>Walking and extending the tables\<close>

definition get_next_level :: "u64 \<Rightarrow> u64 \<Rightarrow> bool \<Rightarrow> 'a machine_scheme \<Rightarrow> (u64 \<times> 'a machine_scheme) result" where
  "get_next_level top_level idx alloc s =
     ebind (ld top_level (8 * idx) s) (\<lambda>e.
     if e AND PTE_PRESENT \<noteq> 0 then Inr (P2V (PTE_GET_ADDR e), s)
     else if \<not> alloc then Inr (0, s)
     else ebind (palloc 1 s) (\<lambda>(entry, s).
          let s = memset_page (P2V entry) s in
          ebind (st top_level (8 * idx) (entry OR PTE_PRESENT OR PTE_RW OR PTE_USER) s) (\<lambda>s.
          Inr (P2V entry, s))))"

definition va2pte :: "u64 \<Rightarrow> u64 \<Rightarrow> bool \<Rightarrow> 'a machine_scheme \<Rightarrow> (u64 \<times> 'a machine_scheme) result" where
  "va2pte top_level vaddr alloc s =
     ebind (get_next_level top_level (drop_bit 39 vaddr AND 0x1ff) alloc s) (\<lambda>(pml3, s).
     ebind (get_next_level pml3 (drop_bit 30 vaddr AND 0x1ff) alloc s) (\<lambda>(pml2, s).
     ebind (get_next_level pml2 (drop_bit 21 vaddr AND 0x1ff) alloc s) (\<lambda>(pml1, s).
     Inr (pml1 + 8 * (drop_bit 12 vaddr AND 0x1ff), s))))"

definition mappage2 :: "u64 \<Rightarrow> u64 \<Rightarrow> u64 \<Rightarrow> u64 \<Rightarrow> 'a machine_scheme \<Rightarrow> (int \<times> 'a machine_scheme) result" where
  "mappage2 top_level vaddr paddr flags s =
     ebind (va2pte top_level vaddr True s) (\<lambda>(pte, s).
     ebind (ld pte 0 s) (\<lambda>e.
     if e AND PTE_PRESENT \<noteq> 0 then Inr (- EINVAL, s)
     else ebind (st pte 0 (paddr OR flags) s) (\<lambda>s. Inr (0, s))))"

text \<open>The loop of \<open>mappages\<close>; the results of the calls are discarded.\<close>

fun mappages_loop :: "u64 \<Rightarrow> u64 \<Rightarrow> u64 \<Rightarrow> u64 \<Rightarrow> nat \<Rightarrow> nat \<Rightarrow> 'a machine_scheme \<Rightarrow> ('a machine_scheme) result" where
  "mappages_loop top_level vaddr paddr flags i 0 s = Inr s"
| "mappages_loop top_level vaddr paddr flags i (Suc n) s =
     ebind (mappage2 top_level (vaddr + of_nat i * 4096) (paddr + of_nat i * 4096) flags s) (\<lambda>(_, s).
     mappages_loop top_level vaddr paddr flags (Suc i) n s)"

definition mappages :: "u64 \<Rightarrow> u64 \<Rightarrow> u64 \<Rightarrow> u64 \<Rightarrow> u64 \<Rightarrow> 'a machine_scheme \<Rightarrow> (int \<times> 'a machine_scheme) result" where
  "mappages top_level vaddr paddr sz flags s =
     (let pagecount = unat (sz div 4096) in
      ebind (mappages_loop top_level vaddr paddr flags 0 pagecount s) (\<lambda>s. Inr (0, s)))"

subsection \<open>Tearing down\<close>

fun destroy_loop :: "(u64 \<Rightarrow> 'a machine_scheme \<Rightarrow> ('a machine_scheme) result) \<Rightarrow> u64 \<Rightarrow> nat \<Rightarrow> nat \<Rightarrow>
    'a machine_scheme \<Rightarrow> ('a machine_scheme) result" where
  "destroy_loop rec pml i 0 s = Inr s"
| "destroy_loop rec pml i (Suc n) s =
     ebind (get_next_level pml (of_nat i) False s) (\<lambda>(nextlevel, s).
     if nextlevel = 0 then destroy_loop rec pml (Suc i) n s
     else ebind (rec nextlevel s) (\<lambda>s. destroy_loop rec pml (Suc i) n s))"

fun destroy_level :: "nat \<Rightarrow> u64 \<Rightarrow> nat \<Rightarrow> nat \<Rightarrow> 'a machine_scheme \<Rightarrow> ('a machine_scheme) result" where
  "destroy_level 0 pml start end s = freepg (V2P pml) 1 s"
| "destroy_level (Suc level) pml start end s =
     ebind (destroy_loop (\<lambda>nextlevel s. destroy_level level nextlevel 0 512 s) pml start (end - start) s) (\<lambda>s.
     freepg (V2P pml) 1 s)"

definition destroyvm :: "u64 \<Rightarrow> 'a machine_scheme \<Rightarrow> ('a machine_scheme) result" where
  "destroyvm vmap s = ebind (ld vmap 0 s) (\<lambda>top_level. destroy_level 4 top_level 0 256 s)"

definition switchvm :: "u64 \<Rightarrow> 'a vmm_scheme \<Rightarrow> ('a vmm_scheme) result" where
  "switchvm vmap s = ebind (ld vmap 0 s) (\<lambda>top_level. Inr (s\<lparr>cr3 := V2P top_level\<rparr>))"

subsection \<open>New address spaces\<close>

fun copy_top_loop :: "u64 \<Rightarrow> nat \<Rightarrow> nat \<Rightarrow> 'a vmm_scheme \<Rightarrow> ('a vmm_scheme) result" where
  "copy_top_loop vmap i 0 s = Inr s"
| "copy_top_loop vmap i (Suc n) s =
     ebind (ld (kernel_vm_map s) 0 s) (\<lambda>ktop.
     ebind (ld ktop (8 * of_nat i) s) (\<lambda>e.
     ebind (ld vmap 0 s) (\<lambda>top.
     ebind (st top (8 * of_nat i) e s) (\<lambda>s. copy_top_loop vmap (Suc i) n s))))"

definition newvm_map :: "'a vmm_scheme \<Rightarrow> (u64 \<times> 'a vmm_scheme) result" where
  "newvm_map s =
     ebind (kalloc 16 s) (\<lambda>(vmap, s).
     ebind (palloc 1 s) (\<lambda>(p, s).
     ebind (st vmap 0 (P2V p) s) (\<lambda>s.
     ebind (copy_top_loop vmap 256 256 s) (\<lambda>s. Inr (vmap, s)))))"

text \<open>\<open>vm_alloc\<close> of \<^verbatim>\<open>kernel/vm/vm.c\<close>: prepend an entry to the map's list.\<close>

definition vm_alloc :: "u64 \<Rightarrow> u64 \<Rightarrow> u64 \<Rightarrow> 'a machine_scheme \<Rightarrow> ('a machine_scheme) result" where
  "vm_alloc vmap vaddr sz s =
     ebind (kalloc 40 s) (\<lambda>(entry, s).
     ebind (st entry 8 vaddr s) (\<lambda>s.
     ebind (st entry 16 (vaddr + sz) s) (\<lambda>s.
     ebind (ld vmap 8 s) (\<lambda>entries.
     ebind (st entry 0 entries s) (\<lambda>s.
     st vmap 8 entry s)))))"

subsection \<open>The kernel's own address space\<close>

text \<open>Addresses the linker script and the boot loader provide.\<close>

record kernel_image =
  text_start_addr :: u64
  text_end_addr :: u64
  rodata_start_addr :: u64
  rodata_end_addr :: u64
  data_start_addr :: u64
  data_end_addr :: u64
  virtual_base :: u64
  physical_base :: u64

fun higher_half_loop :: "u64 \<Rightarrow> nat \<Rightarrow> nat \<Rightarrow> 'a machine_scheme \<Rightarrow> ('a machine_scheme) result" where
  "higher_half_loop top_level i 0 s = Inr s"
| "higher_half_loop top_level i (Suc n) s =
     ebind (get_next_level top_level (of_nat i) True s) (\<lambda>(_, s). higher_half_loop top_level (Suc i) n s)"

text \<open>
  \<open>for (vaddr = start; vaddr < end; vaddr += PGSIZE)\<close>.  The counter would wrap around only past the last page
  of the address space; the model stops there with \<open>NoFuel\<close>.
\<close>

function map_segment :: "u64 \<Rightarrow> kernel_image \<Rightarrow> u64 \<Rightarrow> u64 \<Rightarrow> u64 \<Rightarrow> 'a machine_scheme \<Rightarrow> ('a machine_scheme) result" where
  "map_segment top_level im vaddr end flags s =
     (if vaddr < end
      then let paddr = vaddr - virtual_base im + physical_base im in
           ebind (mappage2 top_level vaddr paddr flags s) (\<lambda>(_, s).
           if unat vaddr + PGSIZE \<ge> 2 ^ 64 then Inl NoFuel
           else map_segment top_level im (vaddr + 4096) end flags s)
      else Inr s)"
  by pat_completeness auto
termination
proof (relation "measure (\<lambda>(_, _, vaddr, _). 2 ^ 64 - unat vaddr)", goal_cases)
  case (2 top_level im vaddr stop flags s)
  then have "unat (vaddr + 4096) = unat vaddr + 4096" by (subst unat_add_no_wrap) simp_all
  then show ?case using 2 by simp
qed simp

declare map_segment.simps [simp del]

fun lower_half_loop :: "u64 \<Rightarrow> u64 \<Rightarrow> nat \<Rightarrow> 'a machine_scheme \<Rightarrow> ('a machine_scheme) result" where
  "lower_half_loop top_level vaddr 0 s = Inr s"
| "lower_half_loop top_level vaddr (Suc n) s =
     ebind (mappage2 top_level vaddr vaddr (PTE_PRESENT OR PTE_RW OR PTE_USER) s) (\<lambda>(_, s).
     ebind (mappage2 top_level (vaddr + HHDM_OFFSET) vaddr (PTE_PRESENT OR PTE_NX OR PTE_RW OR PTE_USER) s) (\<lambda>(_, s).
     lower_half_loop top_level (vaddr + 4096) n s))"

definition init_vm :: "kernel_image \<Rightarrow> 'a vmm_scheme \<Rightarrow> ('a vmm_scheme) result" where
  "init_vm im s =
     ebind (kalloc 16 s) (\<lambda>(vmap, s).
     let s = s\<lparr>kernel_vm_map := vmap\<rparr> in
     ebind (palloc 1 s) (\<lambda>(p, s).
     let top_level = P2V p in
     ebind (st vmap 0 top_level s) (\<lambda>s.
     let s = memset_page top_level s;
         datastart = ALIGN_DOWN (data_start_addr im) 4096;
         textstart = ALIGN_DOWN (text_start_addr im) 4096;
         rodatastart = ALIGN_DOWN (rodata_start_addr im) 4096;
         dataend = ALIGN_UP (data_end_addr im) 4096;
         textend = ALIGN_UP (text_end_addr im) 4096;
         rodataend = ALIGN_UP (rodata_end_addr im) 4096 in
     ebind (higher_half_loop top_level 256 256 s) (\<lambda>s.
     ebind (map_segment top_level im textstart textend (PTE_PRESENT OR PTE_USER) s) (\<lambda>s.
     ebind (map_segment top_level im rodatastart rodataend (PTE_PRESENT OR PTE_NX OR PTE_USER) s) (\<lambda>s.
     ebind (map_segment top_level im datastart dataend (PTE_PRESENT OR PTE_NX OR PTE_RW OR PTE_USER) s) (\<lambda>s.
     lower_half_loop top_level 0x1000 0x7ffff s)))))))"

subsection \<open>The tree of page tables\<close>

text \<open>
  What the processor does with a table: from the top-level table at \<open>t\<close> the path \<open>[i, j, ...]\<close> of indices leads to
  the table \<open>node m t path\<close>, if every entry on the way is present.  \<open>walk m t va\<close> is the page table entry that
  translates the page of \<open>va\<close>.
\<close>

definition slot :: "u64 \<Rightarrow> nat \<Rightarrow> u64" where
  "slot a i = a + of_nat (8 * i)"

definition follow :: "(u64 \<Rightarrow> u64) \<Rightarrow> u64 \<Rightarrow> nat \<Rightarrow> u64 option" where
  "follow m a i = (if m (slot a i) AND PTE_PRESENT \<noteq> 0 then Some (P2V (PTE_GET_ADDR (m (slot a i)))) else None)"

fun node :: "(u64 \<Rightarrow> u64) \<Rightarrow> u64 \<Rightarrow> nat list \<Rightarrow> u64 option" where
  "node m t [] = Some t"
| "node m t (i # p) = (case follow m t i of None \<Rightarrow> None | Some a \<Rightarrow> node m a p)"

definition vidx :: "nat \<Rightarrow> u64 \<Rightarrow> nat" where
  "vidx sh va = unat (drop_bit sh va AND 0x1ff)"

definition vpath :: "u64 \<Rightarrow> nat list" where
  "vpath va = [vidx 39 va, vidx 30 va, vidx 21 va]"

definition walk :: "(u64 \<Rightarrow> u64) \<Rightarrow> u64 \<Rightarrow> u64 \<Rightarrow> u64 option" where
  "walk m t va = (case node m t (vpath va) of None \<Rightarrow> None
     | Some a \<Rightarrow> let e = m (slot a (vidx 12 va)) in if e AND PTE_PRESENT \<noteq> 0 then Some e else None)"

definition ok_path :: "nat list \<Rightarrow> bool" where
  "ok_path p \<longleftrightarrow> length p \<le> 3 \<and> (\<forall>i \<in> set p. i < 512)"

text \<open>
  A well-formed tree: every table it uses is a page of the direct map whose frame is marked as used, and no table
  is reached along two paths.
\<close>

definition vm_wf :: "'a machine_scheme \<Rightarrow> u64 \<Rightarrow> bool" where
  "vm_wf s t \<longleftrightarrow> pmm_wf s \<and>
     (\<forall>p a. ok_path p \<longrightarrow> node (mem s) t p = Some a \<longrightarrow> dm_page a \<and> vframe a \<in> used_pages s) \<and>
     (\<forall>p q a. ok_path p \<longrightarrow> ok_path q \<longrightarrow> node (mem s) t p = Some a \<longrightarrow> node (mem s) t q = Some a \<longrightarrow> p = q)"

text \<open>The frames of the tables.\<close>

definition tables :: "(u64 \<Rightarrow> u64) \<Rightarrow> u64 \<Rightarrow> nat set" where
  "tables m t = {vframe a | p a. ok_path p \<and> node m t p = Some a}"

lemma node_append: "node m t (p @ q) = (case node m t p of None \<Rightarrow> None | Some a \<Rightarrow> node m a q)"
  by (induction p arbitrary: t) (auto split: option.splits)

lemma node_snoc: "node m t (p @ [i]) = (case node m t p of None \<Rightarrow> None | Some a \<Rightarrow> follow m a i)"
  by (auto simp: node_append split: option.splits)

lemma vidx_less: "vidx sh va < 512"
proof -
  have "drop_bit sh va AND 0x1ff = take_bit 9 (drop_bit sh va)"
    by (simp add: take_bit_eq_mask mask_eq_exp_minus_1)
  then have "vidx sh va = unat (drop_bit sh va) mod 512"
    by (simp add: vidx_def take_bit_eq_mod unat_mod)
  then show ?thesis by simp
qed

lemma vidx_word: "8 * (drop_bit sh va AND 0x1ff) = of_nat (8 * vidx sh va)"
  by (simp add: vidx_def)

lemma ok_path_vpath: "ok_path (vpath va)"
  by (simp add: ok_path_def vpath_def vidx_less)

lemma slot_offset: "i < 512 \<Longrightarrow> unat (of_nat (8 * i) :: u64) = 8 * i"
  by (rule unat_of_nat_64) simp

lemma slot_vframe: "page_base a \<Longrightarrow> i < 512 \<Longrightarrow> vframe (slot a i) = vframe a"
  unfolding slot_def by (intro vframe_offset) (simp_all add: slot_offset del: of_nat_mult)

lemma slot_eq_iff:
  assumes "page_base a" "page_base b" "i < 512" "j < 512"
  shows "slot a i = slot b j \<longleftrightarrow> a = b \<and> i = j"
proof -
  have "slot a i = slot b j \<longleftrightarrow> a = b \<and> (of_nat (8 * i) :: u64) = of_nat (8 * j)"
    unfolding slot_def using assms
    by (intro page_offset_eq_iff) (simp_all add: slot_offset del: of_nat_mult)
  also have "(of_nat (8 * i) :: u64) = of_nat (8 * j) \<longleftrightarrow> 8 * i = 8 * j"
    using assms by (intro of_nat_inj_64) auto
  finally show ?thesis by simp
qed

lemma page_words:
  assumes "page_base a" "x - a < 4096"
  shows "vframe x = vframe a"
proof -
  have "unat (x - a) < PGSIZE" using assms(2) by (simp add: word_less_nat_alt)
  then show ?thesis using vframe_offset [OF assms(1), of "x - a"] by simp
qed

lemma slot_in_page: "i < 512 \<Longrightarrow> slot a i - a < 4096"
  using slot_offset [of i] by (simp add: slot_def word_less_nat_alt)

lemma pte_table:
  assumes "unat e mod PGSIZE = 0" "unat e < 2 ^ 47"
  shows "PTE_GET_ADDR (e OR PTE_PRESENT OR PTE_RW OR PTE_USER) = e"
    and "(e OR PTE_PRESENT OR PTE_RW OR PTE_USER) AND PTE_PRESENT \<noteq> 0"
proof -
  have lo: "\<not> bit e i" if "i < 12" for i
  proof -
    have "take_bit 12 (unat e) = 0" using assms(1) by (simp add: take_bit_eq_mod)
    then have "\<not> bit (take_bit 12 (unat e)) i" by simp
    then show ?thesis using that by (simp add: bit_take_bit_iff bit_unsigned_iff)
  qed
  have hi: "\<not> bit e i" if "47 \<le> i" for i
  proof -
    have "take_bit 47 (unat e) = unat e" using assms(2) by (rule take_bit_nat_eq_self)
    then have "bit (unat e) i \<longleftrightarrow> bit (take_bit 47 (unat e)) i" by simp
    then show ?thesis using that by (auto simp: bit_take_bit_iff bit_unsigned_iff)
  qed
  have mask: "PTE_ADDR_MASK = push_bit 12 (mask 40)" by (simp add: PTE_ADDR_MASK_def mask_eq_exp_minus_1)
  have seven: "(PTE_PRESENT OR PTE_RW OR PTE_USER) = mask 3"
    by (simp add: PTE_PRESENT_def PTE_RW_def PTE_USER_def mask_eq_exp_minus_1)
  show "PTE_GET_ADDR (e OR PTE_PRESENT OR PTE_RW OR PTE_USER) = e"
  proof (rule bit_word_eqI)
    fix i :: nat assume "i < LENGTH(64)"
    moreover have "12 \<le> i \<and> i < 47" if "bit e i" using that lo [of i] hi [of i] by (meson not_le)
    ultimately show "bit (PTE_GET_ADDR (e OR PTE_PRESENT OR PTE_RW OR PTE_USER)) i = bit e i"
      by (simp add: PTE_GET_ADDR_def mask or.assoc seven bit_and_iff bit_or_iff bit_push_bit_iff bit_mask_iff) auto
  qed
  have "bit (e OR PTE_PRESENT OR PTE_RW OR PTE_USER) 0"
    by (simp add: bit_or_iff PTE_PRESENT_def)
  then show "(e OR PTE_PRESENT OR PTE_RW OR PTE_USER) AND PTE_PRESENT \<noteq> 0"
    using and_power_eq_0 [of "e OR PTE_PRESENT OR PTE_RW OR PTE_USER" 0] by (simp add: PTE_PRESENT_def)
qed

lemma ok_path_snoc: "ok_path (p @ [i]) \<longleftrightarrow> ok_path p \<and> length p < 3 \<and> i < 512"
  by (auto simp: ok_path_def)

lemma node_cong:
  assumes "\<And>q b j. ok_path (q @ [j]) \<Longrightarrow> q @ [j] \<noteq> w \<Longrightarrow> node m t q = Some b \<Longrightarrow> m' (slot b j) = m (slot b j)"
  shows "ok_path q \<Longrightarrow> (\<And>r. q \<noteq> w @ r) \<Longrightarrow> node m' t q = node m t q"
proof (induction q rule: rev_induct)
  case (snoc j q)
  have "node m' t q = node m t q"
  proof (rule snoc.IH)
    show "q \<noteq> w @ r" for r using snoc.prems(2) [of "r @ [j]"] by auto
  qed (use snoc.prems(1) in \<open>simp add: ok_path_snoc\<close>)
  moreover have "m' (slot b j) = m (slot b j)" if "node m t q = Some b" for b
    using assms [OF snoc.prems(1) _ that] snoc.prems(2) [of "[]"] by auto
  ultimately show ?case by (auto simp: node_snoc follow_def split: option.splits)
qed simp

lemma vm_wfD:
  assumes "vm_wf s t" "ok_path p" "node (mem s) t p = Some a"
  shows "dm_page a" "page_base a" "vframe a \<in> used_pages s"
    and "ok_path q \<Longrightarrow> node (mem s) t q = Some a \<Longrightarrow> q = p"
  using assms by (auto simp: vm_wf_def)

text \<open>What an operation that only adds empty tables keeps: the tree, every table in it, every translation.\<close>

definition vm_ext :: "u64 \<Rightarrow> 'a machine_scheme \<Rightarrow> 'a machine_scheme \<Rightarrow> bool" where
  "vm_ext t s s' \<longleftrightarrow> vm_wf s' t \<and> used_pages s \<subseteq> used_pages s' \<and>
     (\<forall>q c. ok_path q \<longrightarrow> node (mem s) t q = Some c \<longrightarrow> node (mem s') t q = Some c) \<and>
     (\<forall>va. walk (mem s') t va = walk (mem s) t va)"

lemma vm_ext_refl: "vm_wf s t \<Longrightarrow> vm_ext t s s"
  by (simp add: vm_ext_def)

lemma vm_ext_trans: "vm_ext t s s' \<Longrightarrow> vm_ext t s' s'' \<Longrightarrow> vm_ext t s s''"
  by (simp add: vm_ext_def) blast

text \<open>
  \<open>hangs m a i f m'\<close>: the memory \<open>m'\<close> is \<open>m\<close> with the table \<open>f\<close>, all zero, hung on entry \<open>i\<close> of table \<open>a\<close>.
  \<open>adds_table\<close> says that this happens at the path \<open>p @ [i]\<close> of a well-formed tree, where no table was.
\<close>

definition hangs :: "(u64 \<Rightarrow> u64) \<Rightarrow> u64 \<Rightarrow> nat \<Rightarrow> u64 \<Rightarrow> (u64 \<Rightarrow> u64) \<Rightarrow> bool" where
  "hangs m a i f m' \<longleftrightarrow> follow m' a i = Some f \<and> (\<forall>j < 512. m' (slot f j) = 0) \<and>
     (\<forall>x. vframe x \<noteq> vframe f \<longrightarrow> x \<noteq> slot a i \<longrightarrow> m' x = m x)"

definition adds_table :: "'a machine_scheme \<Rightarrow> u64 \<Rightarrow> nat list \<Rightarrow> nat \<Rightarrow> u64 \<Rightarrow> u64 \<Rightarrow> (u64 \<Rightarrow> u64) \<Rightarrow> bool" where
  "adds_table s t p i a f m' \<longleftrightarrow> vm_wf s t \<and> node (mem s) t p = Some a \<and> ok_path (p @ [i]) \<and>
     mem s (slot a i) AND PTE_PRESENT = 0 \<and> vframe f \<notin> used_pages s \<and> hangs (mem s) a i f m'"

lemma hangsI:
  assumes "dm_page f" "page_base a" "vframe a \<noteq> vframe f" "i < 512"
    and e: "e AND PTE_PRESENT \<noteq> 0" "P2V (PTE_GET_ADDR e) = f"
  shows "hangs m a i f ((\<lambda>x. if x - f < 4096 then 0 else m x)(slot a i := e))"
proof -
  have "slot f j \<noteq> slot a i" if "j < 512" for j
    using assms(1-4) that slot_vframe [of f j] slot_vframe [of a i] by (auto dest: dm_page_base)
  then show ?thesis
    using e slot_in_page [of _ f] page_words [of f] assms(1) by (auto simp: hangs_def follow_def)
qed

lemma adds_table_far:
  assumes add: "adds_table s t p i a f m'" and c: "ok_path q" "node (mem s) t q = Some c" "j < 512"
    and other: "q @ [j] \<noteq> p @ [i]"
  shows "m' (slot c j) = mem s (slot c j)"
proof -
  have wf: "vm_wf s t" and a: "node (mem s) t p = Some a" and okp: "ok_path p" "i < 512"
    using add by (auto simp: adds_table_def ok_path_snoc)
  note aD = vm_wfD [OF wf okp(1) a] and cD = vm_wfD [OF wf c(1,2)]
  have "vframe (slot c j) \<noteq> vframe f" using cD c(3) add by (auto simp: slot_vframe adds_table_def)
  moreover have "slot c j \<noteq> slot a i"
  proof
    assume "slot c j = slot a i"
    then have "c = a" "j = i" using cD(2) aD(2) c(3) okp(2) by (auto simp: slot_eq_iff)
    with cD(4) [OF okp(1)] a other show False by simp
  qed
  ultimately show ?thesis using add by (simp add: adds_table_def hangs_def)
qed

lemma adds_table_same:
  assumes add: "adds_table s t p i a f m'" and q: "ok_path q" "\<And>r. q \<noteq> (p @ [i]) @ r"
  shows "node m' t q = node (mem s) t q"
  using _ q
proof (rule node_cong)
  show "m' (slot b j) = mem s (slot b j)"
    if "ok_path (q @ [j])" "q @ [j] \<noteq> p @ [i]" "node (mem s) t q = Some b" for q b j
    using adds_table_far [OF add _ that(3) _ that(2)] that(1) by (simp add: ok_path_snoc)
qed

lemma adds_table_at:
  assumes add: "adds_table s t p i a f m'"
  shows "node m' t (p @ [i]) = Some f"
    and "j < 512 \<Longrightarrow> node m' t ((p @ [i]) @ j # r) = None"
    and "node (mem s) t ((p @ [i]) @ r) = None"
proof -
  have a: "node (mem s) t p = Some a" and okp: "ok_path p" using add by (auto simp: adds_table_def ok_path_snoc)
  have "node m' t p = Some a" using adds_table_same [OF add okp] a by simp
  then show pi: "node m' t (p @ [i]) = Some f" using add by (simp add: node_snoc adds_table_def hangs_def)
  show "node m' t ((p @ [i]) @ j # r) = None" if "j < 512"
    using pi add that by (simp only: node_append) (simp add: follow_def adds_table_def hangs_def)
  show "node (mem s) t ((p @ [i]) @ r) = None"
    using a add by (simp only: node_append) (simp add: node_snoc follow_def adds_table_def)
qed

lemma adds_table_cases:
  assumes add: "adds_table s t p i a f m'" and q: "ok_path q" "node m' t q = Some c"
  shows "(q = p @ [i] \<and> c = f) \<or> node (mem s) t q = Some c"
proof (cases "\<exists>r. q = (p @ [i]) @ r")
  case True
  then obtain r where r: "q = (p @ [i]) @ r" by blast
  show ?thesis
  proof (cases r)
    case (Cons j r')
    then have "j < 512" using q(1) r by (auto simp: ok_path_def)
    then show ?thesis using adds_table_at(2) [OF add] q(2) r Cons by simp
  qed (use r adds_table_at(1) [OF add] q(2) in simp)
qed (use adds_table_same [OF add q(1)] q(2) in auto)

lemma adds_table_walk:
  assumes add: "adds_table s t p i a f m'"
  shows "walk m' t va = walk (mem s) t va"
proof (cases "\<exists>r. vpath va = (p @ [i]) @ r")
  case True
  then obtain r where r: "vpath va = (p @ [i]) @ r" by blast
  show ?thesis
  proof (cases r)
    case (Cons j r')
    then have "j < 512" using ok_path_vpath [of va] r by (auto simp: ok_path_def)
    then show ?thesis unfolding walk_def r adds_table_at(3) [OF add] using adds_table_at(2) [OF add] Cons by simp
  next
    case Nil
    have "m' (slot f (vidx 12 va)) = 0" using add vidx_less by (simp add: adds_table_def hangs_def)
    then show ?thesis unfolding walk_def r adds_table_at(3) [OF add] using adds_table_at(1) [OF add] Nil by simp
  qed
next
  case False
  have "m' (slot c (vidx 12 va)) = mem s (slot c (vidx 12 va))" if "node (mem s) t (vpath va) = Some c" for c
  proof (rule adds_table_far [OF add ok_path_vpath that vidx_less])
    have "length p < 3" using add by (auto simp: adds_table_def ok_path_snoc)
    then show "vpath va @ [vidx 12 va] \<noteq> p @ [i]" by (auto simp: vpath_def)
  qed
  then show ?thesis using adds_table_same [OF add ok_path_vpath, of va] False
    by (auto simp: walk_def Let_def split: option.splits)
qed

lemma adds_table_ext:
  assumes add: "adds_table s t p i a f (mem s')" and f: "dm_page f"
    and s': "pmm_wf s'" "used_pages s' = insert (vframe f) (used_pages s)"
  shows "vm_ext t s s'"
proof -
  have wf: "vm_wf s t" and ff: "vframe f \<notin> used_pages s" using add by (auto simp: adds_table_def)
  note cases = adds_table_cases [OF add]
  have "dm_page c \<and> vframe c \<in> used_pages s'" if "ok_path q" "node (mem s') t q = Some c" for q c
    using cases [OF that] vm_wfD [OF wf that(1)] f s'(2) by auto
  moreover have "q = q'"
    if q: "ok_path q" "ok_path q'" "node (mem s') t q = Some c" "node (mem s') t q' = Some c" for q q' c
  proof -
    have old: "c \<noteq> f" if "ok_path r" "node (mem s) t r = Some c" for r
      using vm_wfD(3) [OF wf that] ff by auto
    show ?thesis
      using cases [OF q(1,3)] cases [OF q(2,4)]
    proof (elim disjE conjE)
      assume "node (mem s) t q = Some c" "node (mem s) t q' = Some c"
      then show ?thesis using vm_wfD(4) [OF wf q(2) _ q(1)] by blast
    qed (use old q in auto)
  qed
  ultimately have "vm_wf s' t" using s'(1) unfolding vm_wf_def by blast
  moreover have "node (mem s') t q = Some c" if "ok_path q" "node (mem s) t q = Some c" for q c
    using adds_table_same [OF add that(1)] adds_table_at(3) [OF add] that(2) by (metis option.distinct(1))
  ultimately show ?thesis using adds_table_walk [OF add] s'(2) unfolding vm_ext_def by blast
qed

subsection \<open>The operations on a well-formed tree\<close>

text \<open>\<open>get_next_level\<close> with \<open>alloc\<close> set either follows an entry or hangs an empty table on it.\<close>

lemma get_next_level_adds:
  assumes wf: "vm_wf s t" and a: "node (mem s) t p = Some a" "ok_path (p @ [i])"
    and r: "get_next_level a (of_nat i) True s = Inr (b, s')"
  obtains (follow) "s' = s" "node (mem s) t (p @ [i]) = Some b"
  | (hang) bm' g' m' where "s' = s\<lparr>bitmap := bm', dbg_g := g', mem := m'\<rparr>" "length bm' = length (bitmap s)"
      "adds_table s t p i a b (mem s')" "dm_page b" "pmm_wf s'" "used_pages s' = insert (vframe b) (used_pages s)"
proof -
  have okp: "ok_path p" "i < 512" using a(2) by (auto simp: ok_path_snoc)
  note aD = vm_wfD [OF wf okp(1) a(1)]
  have nz: "a \<noteq> 0" using aD(1) by (rule dm_page_nonzero)
  have sl: "a + 8 * of_nat i = slot a i" by (simp add: slot_def)
  show ?thesis
  proof (cases "mem s (slot a i) AND PTE_PRESENT = 0")
    case False
    then have "s' = s" "b = P2V (PTE_GET_ADDR (mem s (slot a i)))"
      using r nz sl by (auto simp: get_next_level_def ld_def)
    then show ?thesis using False a(1) by (intro follow) (simp_all add: node_snoc follow_def)
  next
    case True
    have pwf: "pmm_wf s" using wf by (simp add: vm_wf_def)
    obtain e s1 where al: "palloc 1 s = Inr (e, s1)" and b: "b = P2V e"
      and s': "s' = s1\<lparr>mem := (\<lambda>x. if x - b < 4096 then 0 else mem s1 x)
        (slot a i := e OR PTE_PRESENT OR PTE_RW OR PTE_USER)\<rparr>"
      using r True nz sl
      by (auto simp: get_next_level_def ld_def st_def memset_page_def Let_def elim!: ebindE)
    obtain bm' g' where s1: "s1 = s\<lparr>bitmap := bm', dbg_g := g'\<rparr>" "pmm_wf s1" "length bm' = length (bitmap s)"
      and e: "unat e mod PGSIZE = 0" "unat e + 8 * PGSIZE < 2 ^ 47" "unat e div PGSIZE \<notin> used_pages s"
      and used: "used_pages s1 = insert (unat e div PGSIZE) (used_pages s)"
      using palloc_page [OF pwf al] by metis
    have f: "dm_page b" "vframe b = unat e div PGSIZE" using dm_page_P2V [OF e(1,2)] by (simp_all add: b)
    have mem': "mem s' = (\<lambda>x. if x - b < 4096 then 0 else mem s x)
        (slot a i := e OR PTE_PRESENT OR PTE_RW OR PTE_USER)"
      by (simp add: s' s1(1) cong: if_cong)
    have "hangs (mem s) a i b (mem s')"
      unfolding mem' using aD f e okp(2) pte_table [OF e(1)] b by (intro hangsI) auto
    then have "adds_table s t p i a b (mem s')"
      using wf a True f(2) e(3) by (simp add: adds_table_def)
    moreover have "pmm_wf s'" "used_pages s' = insert (vframe b) (used_pages s)"
      using s1 used f(2) by (simp_all add: s' pmm_wf_def used_pages_def)
    moreover have "s' = s\<lparr>bitmap := bm', dbg_g := g', mem := mem s'\<rparr>" by (simp add: s' s1(1))
    ultimately show ?thesis using f(1) s1(3) by (intro hang)
  qed
qed

lemma get_next_level_spec:
  assumes wf: "vm_wf s t" and a: "node (mem s) t p = Some a" "ok_path (p @ [i])"
    and r: "get_next_level a (of_nat i) True s = Inr (b, s')"
  shows "vm_ext t s s' \<and> node (mem s') t (p @ [i]) = Some b"
  using assms
proof (cases rule: get_next_level_adds)
  case follow
  then show ?thesis using vm_ext_refl [OF wf] by simp
next
  case (hang bm' g' m')
  then show ?thesis using adds_table_ext [OF hang(3,4)] adds_table_at(1) [OF hang(3)] by blast
qed

lemma va2pte_spec:
  assumes wf: "vm_wf s t" and r: "va2pte t va True s = Inr (pte, s')"
  shows "vm_ext t s s' \<and> (\<exists>a. node (mem s') t (vpath va) = Some a \<and> pte = slot a (vidx 12 va))"
proof -
  have w: "drop_bit sh va AND 0x1ff = of_nat (vidx sh va)" for sh by (simp add: vidx_def)
  from r obtain b3 s3 b2 s2 b1 where g3: "get_next_level t (of_nat (vidx 39 va)) True s = Inr (b3, s3)"
    and g2: "get_next_level b3 (of_nat (vidx 30 va)) True s3 = Inr (b2, s2)"
    and g1: "get_next_level b2 (of_nat (vidx 21 va)) True s2 = Inr (b1, s')"
    and pte: "pte = b1 + 8 * of_nat (vidx 12 va)"
    by (auto simp: va2pte_def w elim!: ebindE)
  have ok: "ok_path ([] @ [vidx 39 va])" "ok_path ([vidx 39 va] @ [vidx 30 va])"
    "ok_path ([vidx 39 va, vidx 30 va] @ [vidx 21 va])"
    by (simp_all add: ok_path_def vidx_less)
  have n3: "vm_ext t s s3" "node (mem s3) t [vidx 39 va] = Some b3"
    using get_next_level_spec [OF wf _ ok(1) g3] by auto
  then have wf3: "vm_wf s3 t" by (simp add: vm_ext_def)
  have n2: "vm_ext t s3 s2" "node (mem s2) t [vidx 39 va, vidx 30 va] = Some b2"
    using get_next_level_spec [OF wf3 n3(2) ok(2) g2] by auto
  then have wf2: "vm_wf s2 t" by (simp add: vm_ext_def)
  have n1: "vm_ext t s2 s'" "node (mem s') t (vpath va) = Some b1"
    using get_next_level_spec [OF wf2 n2(2) ok(3) g1] by (auto simp: vpath_def)
  have "vm_ext t s s'" by (rule vm_ext_trans [OF vm_ext_trans [OF n3(1) n2(1)] n1(1)])
  moreover have "pte = slot b1 (vidx 12 va)" using pte by (simp add: slot_def)
  ultimately show ?thesis using n1(2) by blast
qed

text \<open>The virtual page an address belongs to: bits 12 to 47, which are the four indices.\<close>

definition vpage :: "u64 \<Rightarrow> nat" where
  "vpage va = unat va div PGSIZE mod 2 ^ 36"

lemma vidx_div: "vidx sh va = unat va div 2 ^ sh mod 512"
proof -
  have "drop_bit sh va AND 0x1ff = take_bit 9 (drop_bit sh va)"
    by (simp add: take_bit_eq_mask mask_eq_exp_minus_1)
  then have "vidx sh va = take_bit 9 (drop_bit sh (unat va))"
    by (simp only: vidx_def unsigned_take_bit_eq unat_drop_bit_eq)
  then show ?thesis by (simp only: take_bit_eq_mod drop_bit_eq_div) simp
qed

lemma vpage_eq_iff: "vpage va = vpage vb \<longleftrightarrow> vpath va = vpath vb \<and> vidx 12 va = vidx 12 vb"
proof -
  have d: "unat v div 2 ^ 21 = unat v div PGSIZE div 512" "unat v div 2 ^ 30 = unat v div PGSIZE div 512 div 512"
    "unat v div 2 ^ 39 = unat v div PGSIZE div 512 div 512 div 512" for v :: u64
    by (simp_all flip: div_mult2_eq)
  have m: "x mod 2 ^ 36 = 512 * (512 * (512 * (x div 512 div 512 div 512 mod 512) + x div 512 div 512 mod 512)
      + x div 512 mod 512) + x mod 512" for x :: nat
    using mod_mult2_eq [of x 512 "512 * 512 * 512"] mod_mult2_eq [of "x div 512" 512 "512 * 512"]
      mod_mult2_eq [of "x div 512 div 512" 512 512] by simp
  have v: "vpage v = 512 * (512 * (512 * vidx 39 v + vidx 30 v) + vidx 21 v) + vidx 12 v" for v
    unfolding vpage_def m vidx_div d by simp
  have dig: "512 * a + b = 512 * c + d \<longleftrightarrow> a = c \<and> b = d" if "b < 512" "d < 512" for a b c d :: nat
  proof
    assume eq: "512 * a + b = 512 * c + d"
    have "(512 * a + b) div 512 = a" "(512 * c + d) div 512 = c" using that by simp_all
    then show "a = c \<and> b = d" using eq by simp
  qed simp
  show ?thesis unfolding v vpath_def by (simp only: dig vidx_less list.inject) auto
qed

lemma walk_vpage: "vpage va = vpage vb \<Longrightarrow> walk m t va = walk m t vb"
  by (simp add: vpage_eq_iff walk_def split: option.split)

lemma write_leaf:
  assumes wf: "vm_wf s t" and a: "node (mem s) t (vpath va) = Some a"
    and m': "m' = (mem s)(slot a (vidx 12 va) := e)"
  shows "ok_path q \<Longrightarrow> node m' t q = node (mem s) t q" and "vm_wf (s\<lparr>mem := m'\<rparr>) t"
    and "walk m' t vb = (if vpage vb = vpage va then (if e AND PTE_PRESENT \<noteq> 0 then Some e else None)
           else walk (mem s) t vb)"
proof -
  note aD = vm_wfD [OF wf ok_path_vpath a]
  have far: "m' (slot c j) = mem s (slot c j)"
    if "ok_path q" "node (mem s) t q = Some c" "j < 512" "q @ [j] \<noteq> vpath va @ [vidx 12 va]" for q c j
  proof -
    note cD = vm_wfD [OF wf that(1,2)]
    have "slot c j \<noteq> slot a (vidx 12 va)"
    proof
      assume "slot c j = slot a (vidx 12 va)"
      then have "c = a" "j = vidx 12 va" using cD(2) aD(2) that(3) vidx_less by (auto simp: slot_eq_iff)
      with aD(4) [OF that(1)] that(2,4) show False by simp
    qed
    then show ?thesis by (simp add: m')
  qed
  have same: "node m' t q = node (mem s) t q" if "ok_path q" for q
  proof (rule node_cong [where w = "vpath va @ [vidx 12 va]", OF _ that])
    show "q \<noteq> (vpath va @ [vidx 12 va]) @ r" for r using that by (auto simp: ok_path_def vpath_def)
    show "m' (slot b j) = mem s (slot b j)"
      if "ok_path (q @ [j])" "q @ [j] \<noteq> vpath va @ [vidx 12 va]" "node (mem s) t q = Some b" for q b j
      using far [OF _ that(3) _ that(2)] that(1) by (simp add: ok_path_snoc)
  qed
  show "ok_path q \<Longrightarrow> node m' t q = node (mem s) t q" by (rule same)
  show "vm_wf (s\<lparr>mem := m'\<rparr>) t"
    using wf same by (simp add: vm_wf_def pmm_wf_def used_pages_def)
  show "walk m' t vb = (if vpage vb = vpage va then (if e AND PTE_PRESENT \<noteq> 0 then Some e else None)
           else walk (mem s) t vb)"
  proof (cases "vpage vb = vpage va")
    case True
    then show ?thesis using same [OF ok_path_vpath] a by (simp add: vpage_eq_iff walk_def m')
  next
    case False
    have "m' (slot c (vidx 12 vb)) = mem s (slot c (vidx 12 vb))" if "node (mem s) t (vpath vb) = Some c" for c
      by (rule far [OF ok_path_vpath that vidx_less]) (use False in \<open>auto simp: vpage_eq_iff\<close>)
    then show ?thesis using same [OF ok_path_vpath, of vb] False
      by (auto simp: walk_def Let_def split: option.splits)
  qed
qed

lemma mappage2_spec:
  assumes wf: "vm_wf s t" and fl: "flags AND PTE_PRESENT \<noteq> 0"
    and r: "mappage2 t va pa flags s = Inr (ret, s')"
  shows "vm_wf s' t \<and> used_pages s \<subseteq> used_pages s' \<and>
    (case walk (mem s) t va of
       Some e \<Rightarrow> ret = - EINVAL \<and> (\<forall>vb. walk (mem s') t vb = walk (mem s) t vb)
     | None \<Rightarrow> ret = 0 \<and> (\<forall>vb. walk (mem s') t vb =
         (if vpage vb = vpage va then Some (pa OR flags) else walk (mem s) t vb)))"
proof -
  from r obtain pte s1 where v: "va2pte t va True s = Inr (pte, s1)"
    and rest: "ebind (ld pte 0 s1) (\<lambda>e. if e AND PTE_PRESENT \<noteq> 0 then Inr (- EINVAL, s1)
       else ebind (st pte 0 (pa OR flags) s1) (\<lambda>s. Inr (0, s))) = Inr (ret, s')"
    by (auto simp: mappage2_def elim!: ebindE)
  obtain a where ext: "vm_ext t s s1" and a: "node (mem s1) t (vpath va) = Some a" "pte = slot a (vidx 12 va)"
    using va2pte_spec [OF wf v] by blast
  have wf1: "vm_wf s1 t" and same: "\<And>vb. walk (mem s1) t vb = walk (mem s) t vb"
    and used: "used_pages s \<subseteq> used_pages s1" using ext by (auto simp: vm_ext_def)
  have nz: "pte \<noteq> 0" using rest by (auto simp: ld_def split: if_splits)
  have present: "(pa OR flags) AND PTE_PRESENT \<noteq> 0"
    using fl and_power_eq_0 [of flags 0] and_power_eq_0 [of "pa OR flags" 0]
    by (simp only: PTE_PRESENT_def power_0 bit_or_iff) simp
  show ?thesis
  proof (cases "mem s1 pte AND PTE_PRESENT = 0")
    case True
    then have none: "walk (mem s) t va = None" using a same [of va] by (simp add: walk_def)
    have s': "s' = s1\<lparr>mem := (mem s1)(pte := pa OR flags)\<rparr>" "ret = 0"
      using rest True nz by (auto simp: ld_def st_def)
    show ?thesis
      using write_leaf(2,3) [OF wf1 a(1) refl, of "pa OR flags"] none s' a(2) present same used
      by (auto simp: used_pages_def)
  next
    case False
    then have "walk (mem s) t va = Some (mem s1 pte)" using a same [of va] by (simp add: walk_def)
    then show ?thesis using rest False nz wf1 same used by (auto simp: ld_def)
  qed
qed

text \<open>An operation on a tree returns as long as there are frames for the tables it may have to add.\<close>

definition free_pages :: "'a pmm_scheme \<Rightarrow> nat set" where
  "free_pages s = {n. n < 8 * length (bitmap s)} - used_pages s"

lemma finite_free_pages [simp]: "finite (free_pages s)"
  by (simp add: free_pages_def)

lemma get_next_level_total:
  assumes wf: "vm_wf s t" and a: "node (mem s) t p = Some a" "ok_path (p @ [i])" and free: "0 < card (free_pages s)"
  shows "\<exists>b s'. get_next_level a (of_nat i) True s = Inr (b, s') \<and> card (free_pages s) \<le> Suc (card (free_pages s'))"
proof -
  have okp: "ok_path p" using a(2) by (simp add: ok_path_snoc)
  have nz: "a \<noteq> 0" using vm_wfD(1) [OF wf okp a(1)] by (rule dm_page_nonzero)
  show ?thesis
  proof (cases "mem s (a + 8 * of_nat i) AND PTE_PRESENT = 0")
    case False
    then show ?thesis using nz by (simp add: get_next_level_def ld_def)
  next
    case True
    have pwf: "pmm_wf s" using wf by (simp add: vm_wf_def)
    obtain q where "q \<in> free_pages s" using free by (metis card_gt_0_iff ex_in_conv)
    then obtain e s1 where al: "palloc 1 s = Inr (e, s1)" using palloc_one [of q s] by (auto simp: free_pages_def)
    obtain bm' g' where "s1 = s\<lparr>bitmap := bm', dbg_g := g'\<rparr>" "length bm' = length (bitmap s)"
      "used_pages s1 = insert (unat e div PGSIZE) (used_pages s)"
      using palloc_page [OF pwf al] by metis
    then have "free_pages s1 = free_pages s - {unat e div PGSIZE}" by (auto simp: free_pages_def)
    moreover have "card (free_pages s) \<le> card (insert x (free_pages s - {x}))" for x
      by (rule card_mono) auto
    moreover have "card (insert x (free_pages s - {x})) = Suc (card (free_pages s - {x}))" for x
      by (rule card_insert_disjoint) auto
    ultimately have "card (free_pages s) \<le> Suc (card (free_pages s1))" by metis
    then show ?thesis using True nz al
      by (simp add: get_next_level_def ld_def st_def memset_page_def free_pages_def used_pages_def)
  qed
qed

lemma va2pte_total:
  assumes wf: "vm_wf s t" and free: "3 \<le> card (free_pages s)"
  shows "\<exists>r. va2pte t va True s = Inr r"
proof -
  have w: "drop_bit sh va AND 0x1ff = of_nat (vidx sh va)" for sh by (simp add: vidx_def)
  have ok: "ok_path ([] @ [vidx 39 va])" "ok_path ([vidx 39 va] @ [vidx 30 va])"
    "ok_path ([vidx 39 va, vidx 30 va] @ [vidx 21 va])"
    by (simp_all add: ok_path_def vidx_less)
  obtain b3 s3 where g3: "get_next_level t (of_nat (vidx 39 va)) True s = Inr (b3, s3)" "2 \<le> card (free_pages s3)"
    using get_next_level_total [OF wf _ ok(1)] free by auto
  have n3: "node (mem s3) t [vidx 39 va] = Some b3" "vm_wf s3 t"
    using get_next_level_spec [OF wf _ ok(1) g3(1)] by (auto simp: vm_ext_def)
  obtain b2 s2 where g2: "get_next_level b3 (of_nat (vidx 30 va)) True s3 = Inr (b2, s2)" "1 \<le> card (free_pages s2)"
    using get_next_level_total [OF n3(2) n3(1) ok(2)] g3(2) by auto
  have n2: "node (mem s2) t [vidx 39 va, vidx 30 va] = Some b2" "vm_wf s2 t"
    using get_next_level_spec [OF n3(2) n3(1) ok(2) g2(1)] by (auto simp: vm_ext_def)
  obtain r where "get_next_level b2 (of_nat (vidx 21 va)) True s2 = Inr r"
    using get_next_level_total [OF n2(2) n2(1) ok(3)] g2(2) by auto
  with g3(1) g2(1) show ?thesis by (cases r) (simp add: va2pte_def w)
qed

lemma mappage2_total:
  assumes wf: "vm_wf s t" and free: "3 \<le> card (free_pages s)"
  shows "\<exists>r. mappage2 t va pa flags s = Inr r"
proof -
  obtain pte s1 where v: "va2pte t va True s = Inr (pte, s1)" using va2pte_total [OF assms, of va] by auto
  obtain a where "vm_ext t s s1" and a: "node (mem s1) t (vpath va) = Some a" and pte: "pte = slot a (vidx 12 va)"
    using va2pte_spec [OF wf v] by blast
  then have "vm_wf s1 t" by (simp add: vm_ext_def)
  then have "dm_page a" using ok_path_vpath a by (rule vm_wfD(1))
  moreover have "8 * vidx 12 va \<le> 8 * PGSIZE" using vidx_less [of 12 va] by simp
  ultimately have "pte \<noteq> 0" unfolding pte slot_def by (rule dm_page_offset_nonzero)
  then show ?thesis using v by (auto simp: mappage2_def ld_def st_def)
qed

text \<open>
  C1 (mapping a page).  In a well-formed tree with three free frames \<open>mappage2\<close> returns.  If the page of \<open>va\<close> had no
  translation it returns 0 and afterwards the processor's walk finds \<open>pa | flags\<close> for every address of that page; if it
  had one it returns \<open>-EINVAL\<close> and no translation changes.  The translation of every other page is unchanged in both
  cases and the tree stays well-formed.
\<close>
theorem mappage2_maps:
  assumes "vm_wf s t" "flags AND PTE_PRESENT \<noteq> 0" "3 \<le> card (free_pages s)"
  shows "\<exists>ret s'. mappage2 t va pa flags s = Inr (ret, s') \<and> vm_wf s' t \<and>
    ret = (if walk (mem s) t va = None then 0 else - EINVAL) \<and>
    (\<forall>vb. walk (mem s') t vb =
       (if walk (mem s) t va = None \<and> vpage vb = vpage va then Some (pa OR flags) else walk (mem s) t vb))"
proof -
  obtain ret s' where r: "mappage2 t va pa flags s = Inr (ret, s')" using mappage2_total [OF assms(1,3), of va pa flags] by auto
  show ?thesis using mappage2_spec [OF assms(1,2) r] r by (cases "walk (mem s) t va") auto
qed

lemma vm_wf_empty:
  assumes "pmm_wf s" "dm_page t" "vframe t \<in> used_pages s"
    and "\<And>i. i < 512 \<Longrightarrow> mem s (slot t i) AND PTE_PRESENT = 0"
  shows "vm_wf s t"
proof -
  have "p = [] \<and> a = t" if "ok_path p" "node (mem s) t p = Some a" for p a
    using that assms(4) by (cases p) (auto simp: follow_def ok_path_def)
  then show ?thesis using assms(1-3) unfolding vm_wf_def by metis
qed

definition boot_vmm :: vmm where
  "boot_vmm = \<lparr>bitmap = [0x01], bitmap_addr = 0, spinlock = 0, dbg_g = 10,
     mem = (\<lambda>_. 0), slabber_first = 0, slabber_lock = 0, slab_id = 0, kernel_vm_map = 0, cr3 = 0\<rparr>"

lemma boot_vmm_wf: "vm_wf boot_vmm (P2V 0)" "7 \<le> card (free_pages boot_vmm)"
proof -
  have used: "used_pages boot_vmm = {0}"
    unfolding boot_vmm_def used_pages_def page_used_def set_eq_iff by (auto simp: bit_1_iff)
  show "vm_wf boot_vmm (P2V 0)"
    by (rule vm_wf_empty) (simp_all add: used dm_page_P2V pmm_wf_def, simp_all add: boot_vmm_def)
  have "free_pages boot_vmm = {1..<8}" by (auto simp: free_pages_def used) (simp_all add: boot_vmm_def)
  then show "7 \<le> card (free_pages boot_vmm)" by simp
qed

theorem mappage2_maps_witness:
  "\<exists>s'. mappage2 (P2V 0) 0x400000 0x5000 7 boot_vmm = Inr (0, s') \<and> walk (mem s') (P2V 0) 0x400123 = Some 0x5007"
proof -
  have none: "walk (mem boot_vmm) (P2V 0) va = None" for va
    by (simp add: boot_vmm_def walk_def vpath_def follow_def)
  obtain s' where s': "mappage2 (P2V 0) 0x400000 0x5000 7 boot_vmm = Inr (0, s')"
    "\<And>vb. vpage vb = vpage 0x400000 \<Longrightarrow> walk (mem s') (P2V 0) vb = Some (0x5000 OR 7)"
    using mappage2_maps [OF boot_vmm_wf(1), where flags = 7 and va = "0x400000" and pa = "0x5000"] boot_vmm_wf(2) none
    by (auto simp: PTE_PRESENT_def)
  moreover have "vpage 0x400123 = vpage 0x400000" by (simp add: vpage_def)
  ultimately show ?thesis by auto
qed

subsection \<open>Ranges of pages\<close>

lemma vpage_range:
  assumes "i < 2 ^ 36" "j < 2 ^ 36"
  shows "vpage (va + of_nat i * 4096) = vpage (va + of_nat j * 4096) \<longleftrightarrow> i = j"
proof -
  have step: "vpage (va + of_nat k * 4096) = (unat va div PGSIZE + k) mod 2 ^ 36" for k
  proof -
    have "unat (va + of_nat k * 4096) = (unat va + k * 4096) mod 2 ^ 64"
      by (simp add: unat_word_ariths unat_of_nat mod_simps)
    then have "unat (va + of_nat k * 4096) div PGSIZE = (unat va + k * 4096) mod (PGSIZE * 2 ^ 52) div PGSIZE"
      by simp
    also have "\<dots> = (unat va + k * 4096) div PGSIZE mod 2 ^ 52"
      unfolding mod_mult2_eq by simp
    finally show ?thesis by (simp add: vpage_def mod_mod_cancel add.commute)
  qed
  have le: "i = j" if "(x + i) mod n = (x + j) mod n" "i \<le> j" "j < n" for x i j n :: nat
  proof -
    have "n dvd (x + j) - (x + i)" using that(1,2) mod_eq_dvd_iff_nat [of "x + i" "x + j" n] by auto
    then have "n dvd j - i" by simp
    then show ?thesis using that(2,3) by (auto dest: dvd_imp_le)
  qed
  have "(x + i) mod n = (x + j) mod n \<longleftrightarrow> i = j" if "i < n" "j < n" for x n :: nat
    using le [of x i n j] le [of x j n i] that by (metis nat_le_linear)
  with assms show ?thesis by (simp only: step)
qed

lemma mappages_loop_spec:
  assumes fl: "flags AND PTE_PRESENT \<noteq> 0"
  shows "vm_wf s t \<Longrightarrow> mappages_loop t va pa flags i n s = Inr s' \<Longrightarrow> i + n \<le> 2 ^ 36 \<Longrightarrow>
    vm_wf s' t \<and>
    (\<forall>k. i \<le> k \<longrightarrow> k < i + n \<longrightarrow> walk (mem s) t (va + of_nat k * 4096) = None \<longrightarrow>
       walk (mem s') t (va + of_nat k * 4096) = Some ((pa + of_nat k * 4096) OR flags)) \<and>
    (\<forall>vb. (\<forall>k. i \<le> k \<longrightarrow> k < i + n \<longrightarrow> vpage vb \<noteq> vpage (va + of_nat k * 4096)) \<or> walk (mem s) t vb \<noteq> None \<longrightarrow>
       walk (mem s') t vb = walk (mem s) t vb)"
proof (induction n arbitrary: i s)
  case (Suc n)
  let ?v = "\<lambda>k. va + of_nat k * 4096" and ?p = "\<lambda>k. pa + of_nat k * 4096"
  obtain ret s1 where m: "mappage2 t (?v i) (?p i) flags s = Inr (ret, s1)"
    and rest: "mappages_loop t va pa flags (Suc i) n s1 = Inr s'"
    using Suc.prems(2) by (auto elim!: ebindE)
  have wf1: "vm_wf s1 t" and one: "walk (mem s1) t vb =
      (if walk (mem s) t (?v i) = None \<and> vpage vb = vpage (?v i) then Some (?p i OR flags) else walk (mem s) t vb)" for vb
    using mappage2_spec [OF Suc.prems(1) fl m] by (auto split: option.splits)
  have IH1: "\<And>k. Suc i \<le> k \<Longrightarrow> k < Suc i + n \<Longrightarrow> walk (mem s1) t (?v k) = None \<Longrightarrow>
      walk (mem s') t (?v k) = Some (?p k OR flags)"
    and IH2: "\<And>vb. (\<forall>k. Suc i \<le> k \<longrightarrow> k < Suc i + n \<longrightarrow> vpage vb \<noteq> vpage (?v k)) \<or> walk (mem s1) t vb \<noteq> None \<Longrightarrow>
      walk (mem s') t vb = walk (mem s1) t vb"
    and wf': "vm_wf s' t"
    using Suc.IH [OF wf1 rest] Suc.prems(3) by auto
  have "walk (mem s') t (?v k) = Some (?p k OR flags)"
    if k: "i \<le> k" "k < i + Suc n" "walk (mem s) t (?v k) = None" for k
  proof (cases "k = i")
    case True
    then show ?thesis using k(3) one [of "?v i"] IH2 [of "?v i"] by simp
  next
    case False
    then have "vpage (?v k) \<noteq> vpage (?v i)" using k Suc.prems(3) by (subst vpage_range) auto
    then show ?thesis using False k one [of "?v k"] IH1 [of k] by simp
  qed
  moreover have "walk (mem s') t vb = walk (mem s) t vb"
    if "(\<forall>k. i \<le> k \<longrightarrow> k < i + Suc n \<longrightarrow> vpage vb \<noteq> vpage (?v k)) \<or> walk (mem s) t vb \<noteq> None" for vb
  proof -
    have "\<not> (walk (mem s) t (?v i) = None \<and> vpage vb = vpage (?v i))"
      using that walk_vpage [of vb "?v i" "mem s" t] by auto
    then have "walk (mem s1) t vb = walk (mem s) t vb" by (simp only: one if_False)
    then show ?thesis using IH2 [of vb] that by auto
  qed
  ultimately show ?case using wf' by blast
qed auto

text \<open>
  C24 (mapping a range).  When \<open>mappages\<close> returns it returns 0, the tree is well-formed, each page of the range that had
  no translation is mapped to the corresponding page of the physical range, and nothing else changes.
\<close>
theorem mappages_maps_range:
  assumes "vm_wf s t" "flags AND PTE_PRESENT \<noteq> 0" "unat sz \<le> 2 ^ 48"
    and "mappages t va pa sz flags s = Inr (ret, s')"
  shows "ret = 0 \<and> vm_wf s' t \<and>
    (\<forall>k < unat sz div PGSIZE. walk (mem s) t (va + of_nat k * 4096) = None \<longrightarrow>
       walk (mem s') t (va + of_nat k * 4096) = Some ((pa + of_nat k * 4096) OR flags)) \<and>
    (\<forall>vb. (\<forall>k < unat sz div PGSIZE. vpage vb \<noteq> vpage (va + of_nat k * 4096)) \<or> walk (mem s) t vb \<noteq> None \<longrightarrow>
       walk (mem s') t vb = walk (mem s) t vb)"
proof -
  have n: "unat (sz div 4096) = unat sz div PGSIZE" by (simp add: unat_div)
  have "unat sz div PGSIZE \<le> 2 ^ 48 div PGSIZE" by (rule div_le_mono [OF assms(3)])
  then have le: "0 + unat sz div PGSIZE \<le> 2 ^ 36" by simp
  have ret: "ret = 0" and r: "mappages_loop t va pa flags 0 (unat sz div PGSIZE) s = Inr s'"
    using assms(4) by (auto simp: mappages_def n elim!: ebindE)
  show ?thesis using mappages_loop_spec [OF assms(2,1) r le] ret by simp
qed

lemma boot_mappages: "\<exists>s'. mappages (P2V 0) 0x400000 0x5000 0x1000 7 boot_vmm = Inr (0, s')"
proof -
  obtain r s' where "mappage2 (P2V 0) 0x400000 0x5000 7 boot_vmm = Inr (r, s')"
    using mappage2_total [OF boot_vmm_wf(1), of "0x400000" "0x5000" 7] boot_vmm_wf(2) by auto
  then show ?thesis by (simp add: mappages_def)
qed

theorem mappages_maps_range_witness:
  "\<exists>s'. mappages (P2V 0) 0x400000 0x5000 0x1000 7 boot_vmm = Inr (0, s') \<and>
     walk (mem s') (P2V 0) 0x400000 = Some 0x5007"
proof -
  obtain s' where s': "mappages (P2V 0) 0x400000 0x5000 0x1000 7 boot_vmm = Inr (0, s')"
    using boot_mappages by blast
  have "walk (mem boot_vmm) (P2V 0) 0x400000 = None"
    by (simp add: boot_vmm_def walk_def vpath_def follow_def)
  then show ?thesis using s' mappages_maps_range [OF boot_vmm_wf(1) _ _ s'] by (auto simp: PTE_PRESENT_def)
qed

subsection \<open>Tearing down an address space\<close>

text \<open>
  The frames \<open>destroy_level\<close> visits: the table itself and, through its present entries, everything below it; at
  level 0 that is the page a last-level entry maps.
\<close>

fun reach :: "nat \<Rightarrow> (u64 \<Rightarrow> u64) \<Rightarrow> u64 \<Rightarrow> nat set \<Rightarrow> nat set" where
  "reach 0 m pml I = {vframe pml}"
| "reach (Suc l) m pml I =
     insert (vframe pml) (\<Union>i \<in> I. case follow m pml i of None \<Rightarrow> {} | Some a \<Rightarrow> reach l m a {0..<512})"

lemma vframe_in_reach: "vframe pml \<in> reach l m pml I"
  by (cases l) auto

lemma reach_empty: "(\<And>i. i \<in> I \<Longrightarrow> follow m t i = None) \<Longrightarrow> reach (Suc l) m t I = {vframe t}"
  by simp

text \<open>Two states that differ only in the page bitmap and the debugging variable.\<close>

definition same_but_bitmap :: "'a machine_scheme \<Rightarrow> 'a machine_scheme \<Rightarrow> bool" where
  "same_but_bitmap s s' \<longleftrightarrow> length (bitmap s') = length (bitmap s) \<and>
     (\<forall>b x. s'\<lparr>bitmap := b, dbg_g := x\<rparr> = s\<lparr>bitmap := b, dbg_g := x\<rparr>)"

lemma same_but_bitmap_refl [simp]: "same_but_bitmap s s"
  by (simp add: same_but_bitmap_def)

lemma same_but_bitmap_trans: "same_but_bitmap s s' \<Longrightarrow> same_but_bitmap s' s'' \<Longrightarrow> same_but_bitmap s s''"
  by (simp add: same_but_bitmap_def)

lemma same_but_bitmap_mem: "same_but_bitmap s s' \<Longrightarrow> mem s' = mem s"
  unfolding same_but_bitmap_def by (metis machine.select_convs(1) machine.surjective machine.update_convs(1)
      pmm.update_convs(1) pmm.update_convs(4))

lemma freepg_page:
  assumes "vframe pml < 8 * length (bitmap s)"
  obtains s' where "freepg (V2P pml) 1 s = Inr s'" "same_but_bitmap s s'" "used_pages s' = used_pages s - {vframe pml}"
proof -
  have "vframe pml + 1 \<le> 8 * length (bitmap s)" using assms by simp
  then obtain s' where s': "freepg_loop (vframe pml) 1 s = Inr s'" "length (bitmap s') = length (bitmap s)"
    "\<forall>k. page_used (bitmap s') k \<longleftrightarrow> page_used (bitmap s) k \<and> k \<notin> {vframe pml..<vframe pml + 1}"
    "\<forall>b x. s'\<lparr>bitmap := b, dbg_g := x\<rparr> = s\<lparr>bitmap := b, dbg_g := x\<rparr>"
    by (rule freepg_loop_effect)
  have "freepg (V2P pml) 1 s = Inr s'" using s'(1) by (simp add: freepg_def unat_div vframe_def)
  moreover have "same_but_bitmap s s'" using s'(2,4) by (simp add: same_but_bitmap_def)
  moreover have "used_pages s' = used_pages s - {vframe pml}"
    unfolding used_pages_def set_eq_iff mem_Collect_eq Diff_iff using s'(3) by auto
  ultimately show ?thesis by (rule that)
qed

lemma vframe_bound_nonzero:
  assumes "pmm_wf s" "vframe a < 8 * length (bitmap s)"
  shows "a \<noteq> 0"
proof
  assume "a = 0"
  then have "vframe a = 2 ^ 35" by (simp add: vframe_def V2P_def HHDM_OFFSET_def)
  with assms show False by (simp add: pmm_wf_def)
qed

lemma get_next_level_lookup:
  assumes "pml \<noteq> 0"
  shows "get_next_level pml (of_nat i) False s =
    Inr (case follow (mem s) pml i of None \<Rightarrow> 0 | Some a \<Rightarrow> a, s)"
  using assms by (simp add: get_next_level_def ld_def follow_def slot_def)

lemma destroy_loop_spec:
  assumes "pml \<noteq> 0" and wf: "pmm_wf s"
    and rec: "\<And>a s. pmm_wf s \<Longrightarrow> reach l (mem s) a {0..<512} \<subseteq> {..<8 * length (bitmap s)} \<Longrightarrow>
      \<exists>s'. rec a s = Inr s' \<and> same_but_bitmap s s' \<and> used_pages s' = used_pages s - reach l (mem s) a {0..<512}"
  shows "(\<Union>j \<in> {i..<i + n}. case follow (mem s) pml j of None \<Rightarrow> {} | Some a \<Rightarrow> reach l (mem s) a {0..<512})
      \<subseteq> {..<8 * length (bitmap s)} \<Longrightarrow>
    \<exists>s'. destroy_loop rec pml i n s = Inr s' \<and> same_but_bitmap s s' \<and> used_pages s' = used_pages s -
      (\<Union>j \<in> {i..<i + n}. case follow (mem s) pml j of None \<Rightarrow> {} | Some a \<Rightarrow> reach l (mem s) a {0..<512})"
  using wf
proof (induction n arbitrary: i s)
  case (Suc n)
  let ?R = "\<lambda>s j. case follow (mem s) pml j of None \<Rightarrow> {} | Some a \<Rightarrow> reach l (mem s) a {0..<512}"
  have split: "(\<Union>j \<in> {i..<i + Suc n}. ?R s j) = ?R s i \<union> (\<Union>j \<in> {Suc i..<Suc i + n}. ?R s j)"
  proof -
    have "{i..<i + Suc n} = insert i {Suc i..<Suc i + n}" by auto
    then show ?thesis by simp
  qed
  obtain s1 where s1: "(case follow (mem s) pml i of None \<Rightarrow> Inr s | Some a \<Rightarrow> rec a s) = Inr s1"
    "same_but_bitmap s s1" "used_pages s1 = used_pages s - ?R s i"
  proof (cases "follow (mem s) pml i")
    case (Some a)
    then show ?thesis using rec [OF Suc.prems(2), of a] Suc.prems(1) that unfolding split by auto
  qed (use that in auto)
  have m1: "mem s1 = mem s" "length (bitmap s1) = length (bitmap s)"
    using s1(2) by (simp_all add: same_but_bitmap_mem) (simp add: same_but_bitmap_def)
  have "pmm_wf s1" using Suc.prems(2) m1 by (simp add: pmm_wf_def)
  with Suc.IH [where i = "Suc i" and s = s1, unfolded m1] Suc.prems(1) obtain s2 where s2: "destroy_loop rec pml (Suc i) n s1 = Inr s2"
    "same_but_bitmap s1 s2" "used_pages s2 = used_pages s1 - (\<Union>j \<in> {Suc i..<Suc i + n}. ?R s j)"
    unfolding split by auto
  have "a \<noteq> 0" if "follow (mem s) pml i = Some a" for a
  proof (rule vframe_bound_nonzero [OF Suc.prems(2)])
    show "vframe a < 8 * length (bitmap s)"
      using Suc.prems(1) vframe_in_reach [of a l "mem s" "{0..<512}"] that unfolding split by auto
  qed
  then have "destroy_loop rec pml i (Suc n) s = Inr s2"
    using s1(1) s2(1) get_next_level_lookup [OF assms(1), of i s] by (cases "follow (mem s) pml i") auto
  moreover have "same_but_bitmap s s2" by (rule same_but_bitmap_trans [OF s1(2) s2(2)])
  ultimately show ?case using s1(3) s2(3) unfolding split by auto
qed auto

lemma destroy_level_spec:
  "pmm_wf s \<Longrightarrow> lo \<le> hi \<Longrightarrow> reach l (mem s) pml {lo..<hi} \<subseteq> {..<8 * length (bitmap s)} \<Longrightarrow>
     \<exists>s'. destroy_level l pml lo hi s = Inr s' \<and> same_but_bitmap s s' \<and>
       used_pages s' = used_pages s - reach l (mem s) pml {lo..<hi}"
proof (induction l arbitrary: pml lo hi s)
  case 0
  then have "vframe pml < 8 * length (bitmap s)" by simp
  then show ?case by (rule freepg_page) auto
next
  case (Suc l)
  have pml: "vframe pml < 8 * length (bitmap s)"
    using Suc.prems(3) vframe_in_reach [of pml "Suc l" "mem s" "{lo..<hi}"] by blast
  have nz: "pml \<noteq> 0" by (rule vframe_bound_nonzero [OF Suc.prems(1) pml])
  let ?R = "\<Union>j \<in> {lo..<lo + (hi - lo)}. case follow (mem s) pml j of None \<Rightarrow> {} | Some a \<Rightarrow> reach l (mem s) a {0..<512}"
  have R: "reach (Suc l) (mem s) pml {lo..<hi} = insert (vframe pml) ?R" using Suc.prems(2) by simp
  have sub: "?R \<subseteq> {..<8 * length (bitmap s)}" using Suc.prems(3) unfolding R by blast
  obtain s1 where s1: "destroy_loop (\<lambda>nextlevel s. destroy_level l nextlevel 0 512 s) pml lo (hi - lo) s = Inr s1"
    "same_but_bitmap s s1" "used_pages s1 = used_pages s - ?R"
    using destroy_loop_spec [where rec = "\<lambda>nextlevel s. destroy_level l nextlevel 0 512 s", OF nz Suc.prems(1) _ sub]
      Suc.IH [where lo = 0 and hi = 512] by (metis zero_le)
  have "length (bitmap s1) = length (bitmap s)" using s1(2) by (simp add: same_but_bitmap_def)
  with pml obtain s2 where s2: "freepg (V2P pml) 1 s1 = Inr s2" "same_but_bitmap s1 s2"
    "used_pages s2 = used_pages s1 - {vframe pml}"
    using freepg_page [of pml s1] by auto
  have "destroy_level (Suc l) pml lo hi s = Inr s2" using s1(1) s2(1) by simp
  moreover have "same_but_bitmap s s2" by (rule same_but_bitmap_trans [OF s1(2) s2(2)])
  moreover have "used_pages s2 = used_pages s - reach (Suc l) (mem s) pml {lo..<hi}"
    unfolding R s2(3) s1(3) by blast
  ultimately show ?case by blast
qed

text \<open>
  C25 (tearing down).  If everything the lower half of an address space reaches lies inside the bitmap, \<open>destroyvm\<close>
  returns and releases exactly the top-level table, every table below its first 256 entries and every page mapped there;
  memory and all other frames (in particular the kernel's, behind the entries 256 to 511 only) are untouched.
\<close>
theorem destroyvm_frees_lower_half:
  assumes "pmm_wf s" "vmap \<noteq> 0" "reach 4 (mem s) (mem s vmap) {0..<256} \<subseteq> {..<8 * length (bitmap s)}"
  shows "\<exists>s'. destroyvm vmap s = Inr s' \<and> mem s' = mem s \<and>
    used_pages s' = used_pages s - reach 4 (mem s) (mem s vmap) {0..<256}"
proof -
  obtain s' where s': "destroy_level 4 (mem s vmap) 0 256 s = Inr s'" "same_but_bitmap s s'"
    "used_pages s' = used_pages s - reach 4 (mem s) (mem s vmap) {0..<256}"
    using destroy_level_spec [of s 0 256 4 "mem s vmap"] assms by auto
  then show ?thesis using assms(2) same_but_bitmap_mem [OF s'(2)] by (simp add: destroyvm_def ld_def)
qed

theorem destroyvm_frees_lower_half_witness:
  "\<exists>s'. destroyvm 0x8000 (boot_vmm\<lparr>mem := (\<lambda>x. if x = 0x8000 then P2V 0 else 0)\<rparr>) = Inr s' \<and>
     0 \<notin> used_pages s'"
proof -
  let ?s = "boot_vmm\<lparr>mem := (\<lambda>x. if x = 0x8000 then P2V 0 else 0)\<rparr>"
  have none: "follow (mem ?s) (P2V 0) i = None" if "i < 256" for i
  proof -
    have "slot (P2V 0) i \<noteq> 0x8000"
    proof
      assume "slot (P2V 0) i = 0x8000"
      then have "unat (slot (P2V 0) i) = 0x8000" by simp
      moreover have "unat (P2V 0 + of_nat (8 * i)) = unat (P2V 0) + 8 * i"
        by (rule dm_page_offset) (use that in \<open>auto simp: dm_page_P2V\<close>)
      moreover have "unat (P2V 0) = 0xffff800000000000" using unat_P2V [of 0] by simp
      ultimately show False by (simp add: slot_def)
    qed
    then show ?thesis by (simp add: follow_def)
  qed
  have r: "reach 4 (mem ?s) (mem ?s 0x8000) {0..<256} = {0}"
    using reach_empty [where I = "{0..<256}" and m = "mem ?s" and t = "P2V 0" and l = 3] none by simp
  moreover have "0 < 8 * length (bitmap ?s)" by (simp add: boot_vmm_def)
  moreover have "pmm_wf ?s" by (simp add: pmm_wf_def boot_vmm_def)
  ultimately show ?thesis using destroyvm_frees_lower_half [of ?s "0x8000"] by auto
qed

subsection \<open>A new address space\<close>

lemma copy_top_loop_spec:
  assumes "page_base tp" "page_base ktop" "tp \<noteq> ktop" "tp \<noteq> 0" "ktop \<noteq> 0" "vmap \<noteq> 0"
    and "vframe vmap \<noteq> vframe tp"
  shows "i + n \<le> 512 \<Longrightarrow> mem s vmap = tp \<Longrightarrow> kernel_vm_map s \<noteq> 0 \<Longrightarrow>
      mem s (kernel_vm_map s) = ktop \<Longrightarrow> vframe (kernel_vm_map s) \<noteq> vframe tp \<Longrightarrow>
    \<exists>m'. copy_top_loop vmap i n s = Inr (s\<lparr>mem := m'\<rparr>) \<and>
      (\<forall>j. i \<le> j \<longrightarrow> j < i + n \<longrightarrow> m' (slot tp j) = mem s (slot ktop j)) \<and>
      (\<forall>x. (\<forall>j. i \<le> j \<longrightarrow> j < i + n \<longrightarrow> x \<noteq> slot tp j) \<longrightarrow> m' x = mem s x)"
proof (induction n arbitrary: i s)
  case 0
  then show ?case by (intro exI [of _ "mem s"]) simp
next
  case (Suc n)
  let ?s = "s\<lparr>mem := (mem s)(slot tp i := mem s (slot ktop i))\<rparr>"
  have vf: "vframe (slot tp j) = vframe tp" if "j < 512" for j using slot_vframe [OF assms(1) that] .
  have ne: "vmap \<noteq> slot tp i" "kernel_vm_map s \<noteq> slot tp i"
    using vf [of i] assms(7) Suc.prems by auto
  have diff: "slot ktop j \<noteq> slot tp k" if "j < 512" "k < 512" for j k
    using slot_eq_iff [OF assms(2,1) that] assms(3) by auto
  from Suc.IH [of "Suc i" ?s] Suc.prems ne obtain m' where
    m': "copy_top_loop vmap (Suc i) n ?s = Inr (?s\<lparr>mem := m'\<rparr>)"
      "\<And>j. Suc i \<le> j \<Longrightarrow> j < Suc i + n \<Longrightarrow> m' (slot tp j) = mem ?s (slot ktop j)"
      "\<And>x. (\<And>j. Suc i \<le> j \<Longrightarrow> j < Suc i + n \<Longrightarrow> x \<noteq> slot tp j) \<Longrightarrow> m' x = mem ?s x"
    by auto
  have "copy_top_loop vmap i (Suc n) s = Inr (s\<lparr>mem := m'\<rparr>)"
    using m'(1) Suc.prems assms(4-6) by (simp add: ld_def st_def slot_def)
  moreover have "m' (slot tp j) = mem s (slot ktop j)" if "i \<le> j" "j < i + Suc n" for j
  proof (cases "j = i")
    case True
    have "m' (slot tp i) = mem ?s (slot tp i)"
      by (rule m'(3)) (use Suc.prems(1) slot_eq_iff [OF assms(1,1)] in auto)
    then show ?thesis by (simp add: True)
  next
    case False
    then show ?thesis using m'(2) [of j] that diff [of j i] Suc.prems(1) by simp
  qed
  moreover have "m' x = mem s x" if "\<forall>j. i \<le> j \<longrightarrow> j < i + Suc n \<longrightarrow> x \<noteq> slot tp j" for x
  proof -
    have "m' x = mem ?s x" by (rule m'(3)) (use that in auto)
    moreover have "x \<noteq> slot tp i" using that by simp
    ultimately show ?thesis by simp
  qed
  ultimately show ?case by blast
qed

lemma node_same_memory:
  assumes "\<And>q b j. ok_path q \<Longrightarrow> node m t q = Some b \<Longrightarrow> j < 512 \<Longrightarrow> m' (slot b j) = m (slot b j)"
  shows "walk m' t va = walk m t va"
proof -
  have "node m' t (vpath va) = node m t (vpath va)"
  proof (rule node_cong [where w = "[0, 0, 0, 0]", OF _ ok_path_vpath])
    show "m' (slot b j) = m (slot b j)" if "ok_path (q @ [j])" "node m t q = Some b" for q b j
      using assms [OF _ that(2)] that(1) by (simp add: ok_path_snoc)
  qed (simp add: vpath_def)
  moreover have "m' (slot b (vidx 12 va)) = m (slot b (vidx 12 va))" if "node m t (vpath va) = Some b" for b
    using assms [OF ok_path_vpath that vidx_less] .
  ultimately show ?thesis by (auto simp: walk_def Let_def split: option.splits)
qed

lemma walk_first: "vidx 39 va = i \<Longrightarrow> m (slot t i) = m (slot t' i) \<Longrightarrow> walk m t va = walk m t' va"
  by (simp add: walk_def vpath_def follow_def)

lemma taken_in_slab:
  assumes "slab_wf s L" "km \<in> taken L"
  shows "vframe km \<in> used_pages s" "km \<noteq> 0" "x \<in> set L \<Longrightarrow> km \<noteq> fst x + 16 \<and> km \<noteq> fst x + 32"
proof -
  obtain a n fl where a: "(a, n, fl) \<in> set L" "km \<in> blocks a n" using assms(2) by (auto simp: taken_def)
  have d: "dm_page a" "vframe a \<in> used_pages s" using assms(1) a(1) by (fastforce simp: slab_wf_def entry_ok_def)+
  show "vframe km \<in> used_pages s" using blocks_vframe [OF d(1) a(2)] d(2) by simp
  show "km \<noteq> 0" by (rule blocks_nonzero [OF d(1) a(2)])
  show "km \<noteq> fst x + 16 \<and> km \<noteq> fst x + 32" if x: "x \<in> set L"
  proof -
    have dx: "dm_page (fst x)" using assms(1) x by (fastforce simp: slab_wf_def entry_ok_def)
    show ?thesis
    proof (cases "fst x = a")
      case True
      then show ?thesis using blocks_not_field [OF d(1) a(2)] by simp
    next
      case False
      then have "vframe (fst x) \<noteq> vframe km" using page_base_eq_iff [of "fst x" a] dx d(1) blocks_vframe [OF d(1) a(2)] by (simp add: dm_page_base)
      then show ?thesis using field_vframe [OF dx, of 16] field_vframe [OF dx, of 32] by auto
    qed
  qed
qed

text \<open>What an allocation leaves alone: everything in use outside the pages of the slabs.\<close>

lemma heap_kept_far:
  assumes "slab_wf s L" "heap_kept s L s1" "vframe x \<in> used_pages s" "vframe x \<notin> vframe ` fst ` set L"
  shows "mem s1 x = mem s x"
proof -
  have "x \<noteq> fst y + d" if "y \<in> set L" "unat d < PGSIZE" for y d
  proof -
    have "dm_page (fst y)" using assms(1) that(1) by (fastforce simp: slab_wf_def entry_ok_def)
    then show ?thesis using field_vframe [of "fst y" d] that assms(4) by auto
  qed
  from this [of _ 16] this [of _ 32] show ?thesis using assms(2,3) by (simp add: heap_kept_def)
qed

lemma kalloc_out_block:
  assumes "kalloc_out sz s L b s1 L'"
  shows "slab_wf s1 L'" "clean_frames s1" "slabber_lock s1 = 0" "heap_kept s L s1" "b \<in> taken L'" "b \<notin> taken L" "b \<noteq> 0" "vframe b \<in> used_pages s1"
    "vframe b \<in> vframe ` fst ` set L \<or> vframe b \<notin> used_pages s" "\<And>x. x \<in> set L' \<Longrightarrow> fst x \<in> fst ` set L \<or> vframe (fst x) \<notin> used_pages s"
proof -
  from assms obtain a n fl where o: "slab_wf s1 L'" "clean_frames s1" "b \<notin> taken L" "(a, n, fl) \<in> set L'" "b \<in> blocks a n"
    "\<forall>x \<in> set L'. fst x \<in> fst ` set L \<or> vframe (fst x) \<notin> used_pages s" "slabber_lock s1 = 0" "b \<in> taken L'" "heap_kept s L s1"
    unfolding kalloc_out_def by blast
  have a: "dm_page a" "vframe a \<in> used_pages s1" using o(1,4) by (fastforce simp: slab_wf_def entry_ok_def)+
  have b: "vframe b = vframe a" "b \<noteq> 0" using blocks_vframe [OF a(1) o(5)] blocks_nonzero [OF a(1) o(5)] by auto
  show "vframe b \<in> vframe ` fst ` set L \<or> vframe b \<notin> used_pages s" using b(1) bspec [OF o(6) o(4)] by auto
  show "vframe b \<in> used_pages s1" "b \<noteq> 0" using a(2) b by simp_all
  show "fst x \<in> fst ` set L \<or> vframe (fst x) \<notin> used_pages s" if "x \<in> set L'" for x using o(6) that by blast
qed (use assms in \<open>auto simp: kalloc_out_def\<close>)

text \<open>The copying loop of \<open>newvm_map\<close>: the upper half of the new table is that of the kernel's, nothing else is written.\<close>

lemma copy_top_run:
  fixes s :: "'a vmm_scheme"
  assumes "dm_page tp" "dm_page ktop" "tp \<noteq> ktop" and "vmap \<noteq> 0" "vframe vmap \<noteq> vframe tp" "mem s vmap = tp"
    and "kernel_vm_map s \<noteq> 0" "mem s (kernel_vm_map s) = ktop" "vframe (kernel_vm_map s) \<noteq> vframe tp"
  obtains m' where "copy_top_loop vmap 256 256 s = Inr (s\<lparr>mem := m'\<rparr>)" "\<And>j. 256 \<le> j \<Longrightarrow> j < 512 \<Longrightarrow> m' (slot tp j) = mem s (slot ktop j)"
    "\<And>x. vframe x \<noteq> vframe tp \<Longrightarrow> m' x = mem s x" "\<And>i. i < 256 \<Longrightarrow> m' (slot tp i) = mem s (slot tp i)"
proof -
  have loop: "256 + 256 \<le> (512::nat)" by simp
  obtain m' where m': "copy_top_loop vmap 256 256 s = Inr (s\<lparr>mem := m'\<rparr>)" "\<And>j. 256 \<le> j \<Longrightarrow> j < 512 \<Longrightarrow> m' (slot tp j) = mem s (slot ktop j)"
    "\<And>x. (\<And>j. 256 \<le> j \<Longrightarrow> j < 512 \<Longrightarrow> x \<noteq> slot tp j) \<Longrightarrow> m' x = mem s x"
    using copy_top_loop_spec [OF dm_page_base [OF assms(1)] dm_page_base [OF assms(2)] assms(3) dm_page_nonzero [OF assms(1)]
        dm_page_nonzero [OF assms(2)] assms(4,5) loop assms(6-9)] by auto
  show thesis
  proof (rule that [OF m'(1,2)])
    show "m' x = mem s x" if "vframe x \<noteq> vframe tp" for x using m'(3) [of x] that slot_vframe [of tp] assms(1) by (auto simp: dm_page_base)
    show "m' (slot tp i) = mem s (slot tp i)" if "i < 256" for i
      by (rule m'(3)) (use that slot_eq_iff [of tp tp i] assms(1) in \<open>auto simp: dm_page_base\<close>)
  qed
qed

lemma newvm_map_steps:
  fixes s :: "'a vmm_scheme"
  assumes heap: "slab_wf s L" "clean_frames s" "slabber_lock s = 0"
    and km: "kernel_vm_map s \<in> taken L" "mem s (kernel_vm_map s) = ktop"
    and tree: "vm_wf s ktop" "tables (mem s) ktop \<inter> vframe ` fst ` set L = {}"
    and k: "kalloc 16 s = Inr (vmap, s1)" and out: "kalloc_out 16 s L vmap s1 L'" and al: "palloc 1 s1 = Inr (p, s2)"
  obtains s' tp where "newvm_map s = Inr (vmap, s')" "bitmap s' = bitmap s2" and "mem s' vmap = tp" "dm_page tp" "vframe tp \<notin> used_pages s" "vframe tp \<in> used_pages s'"
    and "slab_wf s' L'" "clean_frames s'" "slabber_lock s' = 0" "vmap \<in> taken L'" "machine.more s' = machine.more s"
    and "\<And>x. x \<in> set L' \<Longrightarrow> vframe (fst x) \<noteq> vframe tp \<and> (fst x \<in> fst ` set L \<or> vframe (fst x) \<notin> used_pages s)"
    and "used_pages s \<subseteq> used_pages s'" "\<And>x. vframe x \<in> used_pages s \<Longrightarrow> vframe x \<notin> vframe ` fst ` set L \<Longrightarrow> mem s' x = mem s x"
    and "\<And>i. i < 256 \<Longrightarrow> mem s' (slot tp i) = 0"
    and "\<And>i. 256 \<le> i \<Longrightarrow> i < 512 \<Longrightarrow> mem s' (slot tp i) = mem s' (slot ktop i)"
    and "\<And>q b j. ok_path q \<Longrightarrow> node (mem s) ktop q = Some b \<Longrightarrow> j < 512 \<Longrightarrow> mem s' (slot b j) = mem s (slot b j)"
proof -
  note o = kalloc_out_block [OF out]
  obtain bm' g' where s2: "s2 = s1\<lparr>bitmap := bm', dbg_g := g'\<rparr>"
    and p: "unat p mod PGSIZE = 0" "unat p + 8 * PGSIZE < 2 ^ 47" "unat p div PGSIZE \<notin> used_pages s1"
    and used2: "used_pages s2 = insert (unat p div PGSIZE) (used_pages s1)"
    using palloc_page [OF _ al] o(1) unfolding slab_wf_def by metis
  define tp where "tp = P2V p"
  have tp: "dm_page tp" "vframe tp = unat p div PGSIZE" using dm_page_P2V [OF p(1,2)] by (simp_all add: tp_def)
  define s3 where "s3 = s1\<lparr>bitmap := bm', dbg_g := g', mem := (mem s1)(vmap := tp)\<rparr>"
  have w: "st vmap 0 (P2V p) s2 = Inr s3" using o(7) s2 by (simp add: st_def tp_def s3_def)
  have more: "kernel_vm_map s3 = kernel_vm_map s" using o(4) by (cases s, cases s1) (auto simp: s3_def heap_kept_def)
  have km1: "mem s3 (kernel_vm_map s) = ktop" "kernel_vm_map s \<noteq> 0" "vframe (kernel_vm_map s) \<in> used_pages s"
    using taken_in_slab [OF heap(1) km(1)] o(4,6) km by (auto simp: s3_def heap_kept_def)
  have kt: "dm_page ktop" "vframe ktop \<in> used_pages s" using vm_wfD [OF tree(1), of "[]" ktop] by (auto simp: ok_path_def)
  have sub: "used_pages s \<subseteq> used_pages s1" using o(4) by (simp add: heap_kept_def)
  have frame: "vframe tp \<notin> used_pages s1" using p(3) tp(2) by simp
  have pre: "tp \<noteq> ktop" "vframe vmap \<noteq> vframe tp" "mem s3 vmap = tp" "kernel_vm_map s3 \<noteq> 0"
    "mem s3 (kernel_vm_map s3) = ktop" "vframe (kernel_vm_map s3) \<noteq> vframe tp"
    using kt(2) sub frame o(8) km1 by (auto simp: more) (simp add: s3_def)
  obtain m' where c: "copy_top_loop vmap 256 256 s3 = Inr (s3\<lparr>mem := m'\<rparr>)" and high: "\<And>j. 256 \<le> j \<Longrightarrow> j < 512 \<Longrightarrow> m' (slot tp j) = mem s3 (slot ktop j)"
    and far: "\<And>x. vframe x \<noteq> vframe tp \<Longrightarrow> m' x = mem s3 x" and low: "\<And>i. i < 256 \<Longrightarrow> m' (slot tp i) = mem s3 (slot tp i)"
    using copy_top_run [OF tp(1) kt(1) pre(1) o(7) pre(2-6)] by blast
  define s' where "s' = s3\<lparr>mem := m'\<rparr>"
  have run: "newvm_map s = Inr (vmap, s')" using k al w c by (simp add: newvm_map_def s'_def)
  have used': "used_pages s' = insert (vframe tp) (used_pages s1)" using s2 used2 tp(2) by (simp add: s'_def s3_def used_pages_def)
  have pwf1: "pmm_wf s1" using o(1) by (simp add: slab_wf_def)
  have pwf: "pmm_wf s'" using s2 pm.alloc_wf [OF pwf1 al] by (simp add: s'_def s3_def pmm_wf_def)
  have fr: "vframe (fst x) \<noteq> vframe tp" if "x \<in> set L'" for x using o(1) frame that by (auto simp: slab_wf_def)
  have "slab_wf (s1\<lparr>mem := (mem s1)(vmap := tp)\<rparr>) L'" by (rule slab_wf_write_taken [OF o(1,5)])
  then have swf: "slab_wf s' L'"
    by (rule slab_wf_kept) (use far fr pwf used' in \<open>auto simp: s'_def s3_def used_pages_def\<close>)
  have clean: "mem s' x = 0" if "vframe x \<notin> used_pages s1" "vframe x \<noteq> vframe tp" for x
    using that far [of x] o(2,8) by (auto simp: s'_def s3_def clean_frames_def)
  have mem_kept: "mem s' x = mem s x" if x: "vframe x \<in> used_pages s" "vframe x \<notin> vframe ` fst ` set L" for x
  proof -
    have "x \<noteq> vmap" "vframe x \<noteq> vframe tp" using x o(9) sub frame by auto
    then show ?thesis using far [of x] heap_kept_far [OF heap(1) o(4) x] by (simp add: s'_def s3_def)
  qed
  show ?thesis
  proof (rule that [OF run, of tp])
    show "vframe (fst x) \<noteq> vframe tp \<and> (fst x \<in> fst ` set L \<or> vframe (fst x) \<notin> used_pages s)" if "x \<in> set L'" for x
      using fr [OF that] o(10) [OF that] by blast
    show "mem s' vmap = tp" using far [OF pre(2)] pre(3) by (simp add: s'_def)
    show "machine.more s' = machine.more s" using o(4) by (cases s, cases s1) (auto simp: s'_def s3_def heap_kept_def)
    show "mem s' (slot tp i) = 0" if "i < 256" for i
    proof -
      have "vframe (slot tp i) = vframe tp" using slot_vframe [of tp i] tp(1) that by (simp add: dm_page_base)
      then show ?thesis using low [OF that] o(2) frame o(8) by (auto simp: s'_def s3_def clean_frames_def)
    qed
    show "mem s' (slot tp i) = mem s' (slot ktop i)" if "256 \<le> i" "i < 512" for i
    proof -
      have "vframe (slot ktop i) \<noteq> vframe tp" using slot_vframe [of ktop i] kt sub frame that by (auto simp: dm_page_base)
      then show ?thesis using high [OF that] far by (simp add: s'_def)
    qed
    show "mem s' (slot b j) = mem s (slot b j)" if q: "ok_path q" "node (mem s) ktop q = Some b" "j < 512" for q b j
    proof (rule mem_kept)
      note bD = vm_wfD [OF tree(1) q(1,2)]
      have vf: "vframe (slot b j) = vframe b" by (rule slot_vframe [OF bD(2) q(3)])
      show "vframe (slot b j) \<in> used_pages s" using vf bD(3) by simp
      show "vframe (slot b j) \<notin> vframe ` fst ` set L" using vf tree(2) q(1,2) by (auto simp: tables_def disjoint_iff)
    qed
  qed (use tp frame sub swf mem_kept clean used' o(3,5) s2 in \<open>auto simp: clean_frames_def s'_def s3_def\<close>)
qed

lemma top_copy_walk:
  assumes low: "\<And>i. i < 256 \<Longrightarrow> m' (slot tp i) = 0"
    and high: "\<And>i. 256 \<le> i \<Longrightarrow> i < 512 \<Longrightarrow> m' (slot tp i) = m' (slot ktop i)"
    and same: "\<And>q b j. ok_path q \<Longrightarrow> node m ktop q = Some b \<Longrightarrow> j < 512 \<Longrightarrow> m' (slot b j) = m (slot b j)"
  shows "walk m' tp va = (if 256 \<le> vidx 39 va then walk m ktop va else None)"
proof (cases "256 \<le> vidx 39 va")
  case True
  have "walk m' tp va = walk m' ktop va" by (rule walk_first [OF refl high [OF True vidx_less]])
  also have "\<dots> = walk m ktop va" using same by (rule node_same_memory)
  finally show ?thesis using True by simp
next
  case False
  then have "m' (slot tp (vidx 39 va)) = 0" by (intro low) simp
  then show ?thesis using False by (simp add: walk_def vpath_def follow_def)
qed

text \<open>
  C26 (new address spaces share the kernel half).  Let the heap be well-formed with zeroed free frames, \<open>kernel_vm_map\<close>
  one of its blocks, and the kernel's tree well-formed and outside the slabs.  When \<open>newvm_map\<close> returns, the new map has a
  top-level table in a frame that was free; every address whose top-level index is 256 or more translates exactly as in
  the kernel's tree before the call, and no lower address has a translation.
\<close>
theorem newvm_map_shares_kernel:
  assumes heap: "slab_wf s L" "clean_frames s" "slabber_lock s = 0"
    and km: "kernel_vm_map s \<in> taken L" "mem s (kernel_vm_map s) = ktop"
    and tree: "vm_wf s ktop" "tables (mem s) ktop \<inter> vframe ` fst ` set L = {}"
    and r: "newvm_map s = Inr (vmap, s')"
  shows "vframe (mem s' vmap) \<notin> used_pages s \<and> vframe (mem s' vmap) \<in> used_pages s' \<and>
    (\<forall>va. walk (mem s') (mem s' vmap) va = (if 256 \<le> vidx 39 va then walk (mem s) ktop va else None))"
proof -
  obtain s1 p s2 where k: "kalloc 16 s = Inr (vmap, s1)" "palloc 1 s1 = Inr (p, s2)"
    using r by (auto simp: newvm_map_def elim!: ebindE)
  obtain L1 where out: "kalloc_out 16 s L vmap s1 L1" using kalloc_spec [OF heap, of 16] k(1) by (auto simp: kalloc_post_def)
  obtain s'' tp where n: "newvm_map s = Inr (vmap, s'')" and tp: "mem s'' vmap = tp" "vframe tp \<notin> used_pages s" "vframe tp \<in> used_pages s''"
    "\<And>i. i < 256 \<Longrightarrow> mem s'' (slot tp i) = 0" "\<And>i. 256 \<le> i \<Longrightarrow> i < 512 \<Longrightarrow> mem s'' (slot tp i) = mem s'' (slot ktop i)"
    "\<And>q b j. ok_path q \<Longrightarrow> node (mem s) ktop q = Some b \<Longrightarrow> j < 512 \<Longrightarrow> mem s'' (slot b j) = mem s (slot b j)"
    by (rule newvm_map_steps [OF heap km tree k(1) out k(2)]) (rule that; assumption)
  have "s'' = s'" using n r by simp
  with tp(1-3) top_copy_walk [of "mem s''" tp ktop "mem s", OF tp(4-6)] show ?thesis by simp
qed

text \<open>A small kernel state: a slab of 16-byte blocks in frame 1, its first block the kernel's map, its second free; an empty
  top-level table in frame 2.\<close>

definition demo_vmm :: vmm where
  "demo_vmm = \<lparr>bitmap = [0x06], bitmap_addr = 0, spinlock = 0, dbg_g = 10,
     mem = (\<lambda>x. if x = P2V 0x1008 then 16 else if x = P2V 0x1010 then 1 else if x = P2V 0x1020 then P2V 0x1038
       else if x = P2V 0x1028 then P2V 0x2000 else 0),
     slabber_first = P2V 0x1000, slabber_lock = 0, slab_id = 1, kernel_vm_map = P2V 0x1028, cr3 = 0\<rparr>"

lemma demo_vmm_used: "used_pages demo_vmm = {1, 2}"
proof -
  have "bit (6 :: u8) n \<longleftrightarrow> n = 1 \<or> n = 2" if "n < 8" for n
    using that by (auto simp: less_Suc_eq numeral_eq_Suc)
  then show ?thesis
    unfolding demo_vmm_def used_pages_def page_used_def set_eq_iff by auto
qed

lemma demo_vmm_slabs: "slab_wf demo_vmm [(P2V 0x1000, 16, [P2V 0x1038])]"
  "P2V 0x1028 \<in> taken [(P2V 0x1000, 16, [P2V 0x1038])]"
proof -
  have sc: "size_class 16" by (auto simp: size_class_def intro: exI [of _ 4])
  have b: "P2V 0x1038 = blk (P2V 0x1000) 16 1" "P2V 0x1028 = blk (P2V 0x1000) 16 0"
    by (simp_all add: blk_def P2V_def)
  show "slab_wf demo_vmm [(P2V 0x1000, 16, [P2V 0x1038])]"
    using sc by (auto simp: slab_wf_def entry_ok_def demo_vmm_used dm_page_P2V b(1) blocks_def)
      (simp_all add: demo_vmm_def pmm_wf_def P2V_def HHDM_OFFSET_def blk_def)
  show "P2V 0x1028 \<in> taken [(P2V 0x1000, 16, [P2V 0x1038])]"
    by (auto simp: taken_def b blocks_def blk_inj dm_page_P2V)
qed

lemma demo_vmm_clean: "clean_frames demo_vmm"
  unfolding clean_frames_def demo_vmm_used
proof (intro allI impI)
  fix x assume "vframe x \<notin> {1, 2}"
  moreover have "vframe (P2V 0x1008) = 1" "vframe (P2V 0x1010) = 1" "vframe (P2V 0x1020) = 1" "vframe (P2V 0x1028) = 1"
    by simp_all
  ultimately show "mem demo_vmm x = 0" by (auto simp: demo_vmm_def)
qed

lemma demo_vmm_tree: "vm_wf demo_vmm (P2V 0x2000)" "ok_path q \<Longrightarrow> node (mem demo_vmm) (P2V 0x2000) q = Some b \<Longrightarrow> b = P2V 0x2000"
proof -
  have z: "mem demo_vmm (slot (P2V 0x2000) i) = 0" if "i < 512" for i
  proof -
    have "vframe (slot (P2V 0x2000) i) = 2" using slot_vframe [of "P2V 0x2000" i] that by simp
    then have "slot (P2V 0x2000) i \<noteq> P2V x" if "unat x div PGSIZE = 1" for x using that by auto
    then show ?thesis by (simp add: demo_vmm_def)
  qed
  show "vm_wf demo_vmm (P2V 0x2000)"
    by (rule vm_wf_empty) (simp_all add: demo_vmm_used dm_page_P2V z, simp add: demo_vmm_def pmm_wf_def)
  show "b = P2V 0x2000" if "ok_path q" "node (mem demo_vmm) (P2V 0x2000) q = Some b"
    using that z by (cases q) (auto simp: follow_def ok_path_def)
qed

lemma demo_newvm_map: "\<exists>vmap s'. newvm_map demo_vmm = Inr (vmap, s')"
proof -
  let ?m = "(mem demo_vmm)(P2V 0x1010 := 2, P2V 0x1020 := 0)"
  let ?s1 = "demo_vmm\<lparr>mem := ?m\<rparr>" and ?s3 = "demo_vmm\<lparr>bitmap := [7], mem := ?m(P2V 0x1038 := P2V 0)\<rparr>"
  have k: "kalloc 16 demo_vmm = Inr (P2V 0x1038, ?s1)"
    by (simp add: slab_eval find_slab_unfold demo_vmm_def Let_def fun_eq_iff)
  have p: "palloc 1 ?s1 = Inr (0, demo_vmm\<lparr>bitmap := [7], mem := ?m\<rparr>)"
    by (simp add: demo_vmm_def palloc_eval Let_def)
  have st: "st (P2V 0x1038) 0 (P2V 0) (demo_vmm\<lparr>bitmap := [7], mem := ?m\<rparr>) = Inr ?s3"
    by (simp add: st_def P2V_def HHDM_OFFSET_def)
  have "\<exists>m'. copy_top_loop (P2V 0x1038) 256 256 ?s3 = Inr (?s3\<lparr>mem := m'\<rparr>)"
    using copy_top_loop_spec [of "P2V 0" "P2V 0x2000" "P2V 0x1038" 256 256 ?s3]
    by (auto simp: P2V_nonzero demo_vmm_def)
  then show ?thesis using k p st by (auto simp: newvm_map_def)
qed

theorem newvm_map_shares_kernel_witness:
  "\<exists>vmap s'. newvm_map demo_vmm = Inr (vmap, s') \<and> vframe (mem s' vmap) \<in> used_pages s' \<and>
     walk (mem s') (mem s' vmap) 0x1000 = None"
proof -
  obtain vmap s' where r: "newvm_map demo_vmm = Inr (vmap, s')" using demo_newvm_map by blast
  have f: "slabber_lock demo_vmm = 0" "kernel_vm_map demo_vmm \<in> taken [(P2V 0x1000, 16, [P2V 0x1038])]"
    "mem demo_vmm (kernel_vm_map demo_vmm) = P2V 0x2000"
    using demo_vmm_slabs(2) by (simp_all add: demo_vmm_def)
  have "tables (mem demo_vmm) (P2V 0x2000) \<inter> vframe ` fst ` set [(P2V 0x1000, 16 :: nat, [P2V 0x1038])] = {}"
    by (auto simp: tables_def dest!: demo_vmm_tree(2))
  from newvm_map_shares_kernel [OF demo_vmm_slabs(1) demo_vmm_clean f demo_vmm_tree(1) this r]
  have "vframe (mem s' vmap) \<in> used_pages s'" "walk (mem s') (mem s' vmap) 0x1000 = None"
    by (simp_all add: vidx_def)
  with r show ?thesis by blast
qed

end
