(* ===== verification/Fs_State.thy ===== *)
theory Fs_State
  imports Cstring Spinlock
begin

section \<open>Objects of the file system (include/franklin/fs/vfs.h, fs/ramfs/ramfs.h)\<close>

text \<open>
  The file system code works on a web of heap objects.  They are modelled as a typed store: one finite map per
  structure type, from pointers (natural numbers, 0 being \<open>NULL\<close>) to records with the fields of the C
  structure.  \<open>kalloc\<close> hands out pointers that were never used before; \<open>kfree\<close> only records the pointer, since
  the code does go on reading freed objects and nothing overwrites them before the next allocation.  A
  \<open>char*\<close> is the list of bytes from the pointer to the end of its buffer; strings are never modified once
  they are shared.

  Memory that \<open>kalloc\<close> returns is not initialised.  Where the code reads a field it never wrote, the model reads
  \<open>junk_ptr\<close>, \<open>junk_flags\<close> or \<open>junk_bytes\<close>; the hypothesis \<open>zeroed\<close> of a theorem says that this memory was zero.

  The field \<open>ops\<close> of vnodes and mounts is left out: the only tables in the source are those of ramfs, so a call
  through \<open>ops\<close> is a call of the ramfs function.
\<close>

type_synonym ptr = nat

datatype vtype = VNON | VREG | VDIR | VLNK | VSOCK | VBLK | VCHR

record vnode =
  v_vfs :: ptr
  v_mountedhere :: ptr
  v_type :: vtype
  v_refcount :: int
  v_flags :: u16
  v_lock :: u32
  v_data :: ptr

record vfs =
  m_next :: ptr
  mountpoint :: ptr
  m_flags :: u32
  m_data :: ptr

record ramvfs =
  rv_root :: ptr
  rv_nodes :: ptr

record ramdentry =
  d_next :: ptr
  d_node :: ptr
  d_seq :: u64
  d_name :: "u8 list"

text \<open>The union of \<open>struct ramnode\<close>; \<open>Raw\<close> when no member has been written.\<close>

datatype contents =
    Dir (dir_dentry: ptr) (dir_parent: ptr) (dir_lastseq: u64)
  | Lnk (lnk_link: "u8 list")
  | Reg (reg_data: "u8 list option") (reg_size: u64)
  | Raw

record ramnode =
  n_prev :: ptr
  n_next :: ptr
  n_vnode :: ptr
  n_type :: vtype
  ramlock :: u32
  linkcount :: int
  n_union :: contents

record fs =
  vnodes :: "ptr \<Rightarrow> vnode option"
  mounts :: "ptr \<Rightarrow> vfs option"
  ramvfss :: "ptr \<Rightarrow> ramvfs option"
  dentries :: "ptr \<Rightarrow> ramdentry option"
  ramnodes :: "ptr \<Rightarrow> ramnode option"
  next_ptr :: ptr
  freed :: "ptr set"
  rootfs :: ptr
  rootvn :: ptr
  mountedlist :: ptr
  vfslist_lock :: u32
  vfs_types :: "u8 list list"
  junk_ptr :: ptr
  junk_flags :: u16
  junk_bytes :: "nat \<Rightarrow> u8 list"

definition zeroed :: "fs \<Rightarrow> bool" where
  "zeroed s \<longleftrightarrow> junk_ptr s = 0 \<and> junk_flags s = 0"

subsection \<open>Access to the objects\<close>

definition deref :: "(ptr \<Rightarrow> 'o option) \<Rightarrow> ptr \<Rightarrow> 'o result" where
  "deref m p = (if p = 0 then Inl NullDeref else case m p of None \<Rightarrow> Inl BadAccess | Some x \<Rightarrow> Inr x)"

definition put_vnode :: "ptr \<Rightarrow> vnode \<Rightarrow> fs \<Rightarrow> fs" where
  "put_vnode p x s = s\<lparr>vnodes := (vnodes s)(p := Some x)\<rparr>"

definition put_mount :: "ptr \<Rightarrow> vfs \<Rightarrow> fs \<Rightarrow> fs" where
  "put_mount p x s = s\<lparr>mounts := (mounts s)(p := Some x)\<rparr>"

definition put_ramvfs :: "ptr \<Rightarrow> ramvfs \<Rightarrow> fs \<Rightarrow> fs" where
  "put_ramvfs p x s = s\<lparr>ramvfss := (ramvfss s)(p := Some x)\<rparr>"

definition put_dentry :: "ptr \<Rightarrow> ramdentry \<Rightarrow> fs \<Rightarrow> fs" where
  "put_dentry p x s = s\<lparr>dentries := (dentries s)(p := Some x)\<rparr>"

definition put_node :: "ptr \<Rightarrow> ramnode \<Rightarrow> fs \<Rightarrow> fs" where
  "put_node p x s = s\<lparr>ramnodes := (ramnodes s)(p := Some x)\<rparr>"

lemmas put_defs = put_vnode_def put_mount_def put_ramvfs_def put_dentry_def put_node_def

text \<open>\<open>p->field = ...\<close>: read the object, write it back changed.\<close>

definition mod_vnode :: "ptr \<Rightarrow> (vnode \<Rightarrow> vnode) \<Rightarrow> fs \<Rightarrow> fs result" where
  "mod_vnode p f s = ebind (deref (vnodes s) p) (\<lambda>x. Inr (put_vnode p (f x) s))"

definition mod_node :: "ptr \<Rightarrow> (ramnode \<Rightarrow> ramnode) \<Rightarrow> fs \<Rightarrow> fs result" where
  "mod_node p f s = ebind (deref (ramnodes s) p) (\<lambda>x. Inr (put_node p (f x) s))"

definition mod_dentry :: "ptr \<Rightarrow> (ramdentry \<Rightarrow> ramdentry) \<Rightarrow> fs \<Rightarrow> fs result" where
  "mod_dentry p f s = ebind (deref (dentries s) p) (\<lambda>x. Inr (put_dentry p (f x) s))"

definition mod_mount :: "ptr \<Rightarrow> (vfs \<Rightarrow> vfs) \<Rightarrow> fs \<Rightarrow> fs result" where
  "mod_mount p f s = ebind (deref (mounts s) p) (\<lambda>x. Inr (put_mount p (f x) s))"

definition mod_ramvfs :: "ptr \<Rightarrow> (ramvfs \<Rightarrow> ramvfs) \<Rightarrow> fs \<Rightarrow> fs result" where
  "mod_ramvfs p f s = ebind (deref (ramvfss s) p) (\<lambda>x. Inr (put_ramvfs p (f x) s))"

text \<open>\<open>kalloc\<close> of an object: a pointer above all earlier ones.\<close>

definition kalloc_obj :: "fs \<Rightarrow> ptr \<times> fs" where
  "kalloc_obj s = (next_ptr s, s\<lparr>next_ptr := Suc (next_ptr s)\<rparr>)"

definition kfree_obj :: "ptr \<Rightarrow> fs \<Rightarrow> fs" where
  "kfree_obj p s = (if p = 0 then s else s\<lparr>freed := insert p (freed s)\<rparr>)"

subsection \<open>Locks of the objects\<close>

definition acquire_vnode :: "ptr \<Rightarrow> fs \<Rightarrow> fs result" where
  "acquire_vnode p s =
     ebind (deref (vnodes s) p) (\<lambda>v. ebind (acquire (v_lock v)) (\<lambda>l. Inr (put_vnode p (v\<lparr>v_lock := l\<rparr>) s)))"

definition release_vnode :: "ptr \<Rightarrow> fs \<Rightarrow> fs result" where
  "release_vnode p s = mod_vnode p (\<lambda>v. v\<lparr>v_lock := release (v_lock v)\<rparr>) s"

definition acquire_node :: "ptr \<Rightarrow> fs \<Rightarrow> fs result" where
  "acquire_node p s =
     ebind (deref (ramnodes s) p) (\<lambda>n. ebind (acquire (ramlock n)) (\<lambda>l. Inr (put_node p (n\<lparr>ramlock := l\<rparr>) s)))"

definition release_node :: "ptr \<Rightarrow> fs \<Rightarrow> fs result" where
  "release_node p s = mod_node p (\<lambda>n. n\<lparr>ramlock := release (ramlock n)\<rparr>) s"

definition acquire_vfslist :: "fs \<Rightarrow> fs result" where
  "acquire_vfslist s = ebind (acquire (vfslist_lock s)) (\<lambda>l. Inr (s\<lparr>vfslist_lock := l\<rparr>))"

definition release_vfslist :: "fs \<Rightarrow> fs" where
  "release_vfslist s = s\<lparr>vfslist_lock := release (vfslist_lock s)\<rparr>"

text \<open>\<open>vref\<close> and \<open>vref_locked\<close> of \<^verbatim>\<open>vfs.h\<close>.\<close>

definition vref_locked :: "ptr \<Rightarrow> fs \<Rightarrow> fs result" where
  "vref_locked vn s = mod_vnode vn (\<lambda>v. v\<lparr>v_refcount := v_refcount v + 1\<rparr>) s"

definition vref :: "ptr \<Rightarrow> fs \<Rightarrow> fs result" where
  "vref vn s =
     ebind (acquire_vnode vn s) (\<lambda>s.
     ebind (mod_vnode vn (\<lambda>v. v\<lparr>v_refcount := v_refcount v + 1\<rparr>) s) (\<lambda>s. release_vnode vn s))"

text \<open>The number of objects bounds the length of every list of objects.\<close>

definition fs_fuel :: "fs \<Rightarrow> nat" where
  "fs_fuel s = Suc (next_ptr s)"

subsection \<open>Symbolic execution\<close>

text \<open>
  The rules that run straight-line code on a store whose objects are known: \<open>fs_eval\<close> unfolds the accessors to
  record and function updates.
\<close>

lemma deref_Some [simp]: "p \<noteq> 0 \<Longrightarrow> m p = Some x \<Longrightarrow> deref m p = Inr x"
  by (simp add: deref_def)

lemma deref_eq_Inr: "deref m p = Inr x \<longleftrightarrow> p \<noteq> 0 \<and> m p = Some x"
  by (auto simp: deref_def split: option.splits)

lemma deref_upd [simp]: "p \<noteq> 0 \<Longrightarrow> deref (m(p := Some x)) p = Inr x"
  by (simp add: deref_def)

lemma deref_upd_other [simp]: "q \<noteq> p \<Longrightarrow> deref (m(p := v)) q = deref m q"
  by (simp add: deref_def)

lemma node_unlock [simp]: "ramlock n = 0 \<Longrightarrow> n\<lparr>ramlock := 0\<rparr> = n"
  by simp

lemma vnode_unlock [simp]: "v_lock v = 0 \<Longrightarrow> v\<lparr>v_lock := 0\<rparr> = v"
  by simp

lemma vfslist_unlock [simp]: "vfslist_lock s = 0 \<Longrightarrow> s\<lparr>vfslist_lock := 0\<rparr> = s"
  by simp

lemmas fs_eval = put_defs mod_vnode_def mod_node_def mod_dentry_def mod_mount_def mod_ramvfs_def
  acquire_vnode_def release_vnode_def acquire_node_def release_node_def acquire_vfslist_def release_vfslist_def
  kalloc_obj_def kfree_obj_def vref_locked_def vref_def

end
