(* ===== verification/Name_Space.thy ===== *)
theory Name_Space
  imports Kernel_Prelude
begin

section \<open>The interface of a directory store\<close>

text \<open>
  What the layers above a file system rely on: every directory is a finite map from names to nodes; creating a file
  binds one name, removing it unbinds it, and neither touches any other binding.  The interface is the locale
  \<open>name_space\<close>; its client lemma says that any history of successful operations is the same history
  of updates on plain maps.  \<^verbatim>\<open>Ramfs_Ops\<close> interprets it with the ramfs operations.
\<close>

datatype ('d, 'k, 'n) name_op = Create 'd 'k 'n | Remove 'd 'k

fun apply_op :: "('d, 'k, 'n) name_op \<Rightarrow> ('d \<Rightarrow> 'k \<Rightarrow> 'n option) \<Rightarrow> 'd \<Rightarrow> 'k \<Rightarrow> 'n option" where
  "apply_op (Create d k n) M = M(d := (M d)(k := Some n))"
| "apply_op (Remove d k) M = M(d := (M d)(k := None))"

text \<open>
  A history of operations: a name is only created where it is absent, as the callers of \<open>create\<close> check, and only removed
  where it is present.
\<close>

inductive name_run :: "('s \<Rightarrow> 'd \<Rightarrow> ('k \<times> 'n) list) \<Rightarrow> ('d \<Rightarrow> 'k \<Rightarrow> 's \<Rightarrow> 'n \<Rightarrow> 's \<Rightarrow> bool) \<Rightarrow>
    ('d \<Rightarrow> 'k \<Rightarrow> 's \<Rightarrow> 's \<Rightarrow> bool) \<Rightarrow> 's \<Rightarrow> ('d, 'k, 'n) name_op list \<Rightarrow> 's \<Rightarrow> bool"
  for names creates removes
where
  run_nil: "name_run names creates removes s [] s"
| run_create: "map_of (names s d) k = None \<Longrightarrow> creates d k s n s' \<Longrightarrow> name_run names creates removes s' ops s'' \<Longrightarrow>
    name_run names creates removes s (Create d k n # ops) s''"
| run_remove: "removes d k s s' \<Longrightarrow> name_run names creates removes s' ops s'' \<Longrightarrow>
    name_run names creates removes s (Remove d k # ops) s''"

inductive_cases name_run_NilE: "name_run names creates removes s [] s'"
inductive_cases name_run_CreateE: "name_run names creates removes s (Create d k n # ops) s'"
inductive_cases name_run_RemoveE: "name_run names creates removes s (Remove d k # ops) s'"

lemma map_of_remove1:
  assumes "distinct (map fst al)" "(k, n) \<in> set al"
  shows "map_of (remove1 (k, n) al) = (map_of al)(k := None)" "distinct (map fst (remove1 (k, n) al))"
  using assms
proof (induction al)
  case (Cons a al)
  {
    case 1
    show ?case
    proof (cases "a = (k, n)")
      case True
      then have "k \<notin> fst ` set al" using "1"(1) by simp
      then have "map_of al k = None" by (simp add: map_of_eq_None_iff)
      then show ?thesis using True by (auto simp: fun_eq_iff)
    next
      case False
      then have "(k, n) \<in> set al" and "fst a \<noteq> k" using 1 by (auto simp: image_iff)
      then show ?thesis using Cons.IH(1) 1 False by (auto simp: fun_eq_iff)
    qed
  next
    case 2
    have "fst ` set (remove1 (k, n) al) \<subseteq> fst ` set al" by (rule image_mono [OF set_remove1_subset])
    then show ?case using Cons.IH(2) 2 by auto
  }
qed simp_all

locale name_space =
  fixes inv :: "'s \<Rightarrow> bool"
    and names :: "'s \<Rightarrow> 'd \<Rightarrow> ('k \<times> 'n) list"
    and creates :: "'d \<Rightarrow> 'k \<Rightarrow> 's \<Rightarrow> 'n \<Rightarrow> 's \<Rightarrow> bool"
    and removes :: "'d \<Rightarrow> 'k \<Rightarrow> 's \<Rightarrow> 's \<Rightarrow> bool"
  assumes create_inv: "inv s \<Longrightarrow> creates d k s n s' \<Longrightarrow> inv s'"
    and create_names: "inv s \<Longrightarrow> creates d k s n s' \<Longrightarrow> names s' e = (if e = d then (k, n) # names s d else names s e)"
    and remove_inv: "inv s \<Longrightarrow> removes d k s s' \<Longrightarrow> inv s'"
    and remove_names: "inv s \<Longrightarrow> removes d k s s' \<Longrightarrow>
      \<exists>n. (k, n) \<in> set (names s d) \<and> (\<forall>e. names s' e = (if e = d then remove1 (k, n) (names s d) else names s e))"
begin

definition uniq :: "'s \<Rightarrow> bool" where
  "uniq s \<longleftrightarrow> inv s \<and> (\<forall>d. distinct (map fst (names s d)))"

definition view :: "'s \<Rightarrow> 'd \<Rightarrow> 'k \<Rightarrow> 'n option" where
  "view s d = map_of (names s d)"

lemma create_view:
  assumes "uniq s" "map_of (names s d) k = None" "creates d k s n s'"
  shows "uniq s' \<and> view s' = apply_op (Create d k n) (view s)"
proof -
  have s: "inv s" "\<And>d. distinct (map fst (names s d))" using assms(1) by (auto simp: uniq_def)
  note nm = create_names [OF s(1) assms(3)]
  have "k \<notin> fst ` set (names s d)" using assms(2) by (simp add: map_of_eq_None_iff)
  then show ?thesis using create_inv [OF s(1) assms(3)] s(2) by (auto simp: uniq_def view_def nm fun_eq_iff)
qed

lemma remove_view:
  assumes "uniq s" "removes d k s s'"
  shows "uniq s' \<and> view s' = apply_op (Remove d k) (view s)"
proof -
  have s: "inv s" "\<And>d. distinct (map fst (names s d))" using assms(1) by (auto simp: uniq_def)
  obtain n where n: "(k, n) \<in> set (names s d)" "\<And>e. names s' e = (if e = d then remove1 (k, n) (names s d) else names s e)"
    using remove_names [OF s(1) assms(2)] by blast
  show ?thesis using remove_inv [OF s(1) assms(2)] s(2) map_of_remove1 [OF s(2) n(1)] by (auto simp: uniq_def view_def n(2) fun_eq_iff)
qed

lemma run_view: "name_run names creates removes s ops s' \<Longrightarrow> uniq s \<Longrightarrow> uniq s' \<and> view s' = fold apply_op ops (view s)"
proof (induction rule: name_run.induct)
  case (run_create s d k n s' ops s'')
  then show ?case using create_view [of s d k n s'] by (simp del: fun_upd_apply)
next
  case (run_remove d k s s' ops s'')
  then show ?case using remove_view [of s d k s'] by (simp del: fun_upd_apply)
qed simp

end

end
