(* ===== verification/Ramfs.thy ===== *)
theory Ramfs
  imports Fs_State
begin

section \<open>The memory file system (fs/ramfs/ramfs.c)\<close>

text \<open>
  The operations of \<^verbatim>\<open>ramfs.c\<close> in the order of the file, with the helpers first where they are needed.  An operation
  returns the C return value (an \<open>int\<close>, negative error codes as in C), the values stored through its pointer
  arguments, and the new state.  A name argument is the pair of the bytes from \<open>cnp->name\<close> on and \<open>cnp->len\<close>.
\<close>

subsection \<open>Nodes and directory entries\<close>

definition SEQ_DOT :: u64 where "SEQ_DOT = 0"
definition SEQ_DOTDOT :: u64 where "SEQ_DOTDOT = 1"
definition SEQ_EOF :: u64 where "SEQ_EOF = 2"
definition SEQ_START :: u64 where "SEQ_START = 3"

definition VROOT :: u16 where "VROOT = 1"

definition as_dir :: "ramnode \<Rightarrow> (ptr \<times> ptr \<times> u64) result" where
  "as_dir n = (case n_union n of Dir de par sq \<Rightarrow> Inr (de, par, sq) | _ \<Rightarrow> Inl BadAccess)"

definition as_lnk :: "ramnode \<Rightarrow> u8 list result" where
  "as_lnk n = (case n_union n of Lnk l \<Rightarrow> Inr l | _ \<Rightarrow> Inl BadAccess)"

definition as_reg :: "ramnode \<Rightarrow> (u8 list option \<times> u64) result" where
  "as_reg n = (case n_union n of Reg dt sz \<Rightarrow> Inr (dt, sz) | _ \<Rightarrow> Inl BadAccess)"

definition ramfs_alloc_node :: "ptr \<Rightarrow> ptr \<Rightarrow> vtype \<Rightarrow> u8 list option \<Rightarrow> fs \<Rightarrow> (ptr \<times> fs) result" where
  "ramfs_alloc_node ram dir type link s =
     (let (node, s) = kalloc_obj s;
          n = \<lparr>n_prev = junk_ptr s, n_next = junk_ptr s, n_vnode = junk_ptr s, n_type = type,
               ramlock = 0, linkcount = 0, n_union = Raw\<rparr>;
          s = put_node node n s in
      ebind (acquire_node node s) (\<lambda>s.
      ebind (deref (ramvfss s) ram) (\<lambda>rv.
      ebind (if rv_nodes rv \<noteq> 0 then mod_node (rv_nodes rv) (\<lambda>n. n\<lparr>n_prev := node\<rparr>) s else Inr s) (\<lambda>s.
      ebind (mod_node node (\<lambda>n. n\<lparr>n_next := rv_nodes rv\<rparr>) s) (\<lambda>s.
      ebind (mod_ramvfs ram (\<lambda>rv. rv\<lparr>rv_nodes := node\<rparr>) s) (\<lambda>s.
      ebind (mod_node node (\<lambda>n. n\<lparr>n_type := type, n_vnode := 0, linkcount := 0\<rparr>) s) (\<lambda>s.
      ebind (case type of
               VDIR \<Rightarrow> mod_node node (\<lambda>n. n\<lparr>n_union := Dir (junk_ptr s) (if dir = 0 then node else dir) SEQ_START,
                                       linkcount := linkcount n + 1\<rparr>) s
             | VLNK \<Rightarrow> (case link of None \<Rightarrow> Inl NullDeref
                       | Some l \<Rightarrow> ebind (strdup (junk_bytes s) l) (\<lambda>l. mod_node node (\<lambda>n. n\<lparr>n_union := Lnk l\<rparr>) s))
             | VREG \<Rightarrow> mod_node node (\<lambda>n. n\<lparr>n_union := Reg None 0\<rparr>) s
             | _ \<Rightarrow> Inr s) (\<lambda>s.
      ebind (release_node node s) (\<lambda>s. Inr (node, s))))))))))"

definition ramfs_free_node :: "ptr \<Rightarrow> ptr \<Rightarrow> fs \<Rightarrow> fs result" where
  "ramfs_free_node ram node s =
     ebind (deref (ramnodes s) node) (\<lambda>n.
     ebind (if n_next n \<noteq> 0 then mod_node (n_next n) (\<lambda>m. m\<lparr>n_prev := n_prev n\<rparr>) s else Inr s) (\<lambda>s.
     ebind (mod_node node (\<lambda>n. n\<lparr>n_prev := n_next n\<rparr>) s) (\<lambda>s.
     \<comment> \<open>the contents (\<open>reg.data\<close> or \<open>lnk.link\<close>) are released here\<close>
     Inr (kfree_obj node s))))"

definition ramfs_alloc_dentry :: "ptr \<Rightarrow> u8 list \<Rightarrow> fs \<Rightarrow> (int \<times> ptr \<times> fs) result" where
  "ramfs_alloc_dentry node name s =
     (let (dentry, s) = kalloc_obj s in
      ebind (acquire_node node s) (\<lambda>s.
      ebind (strdup (junk_bytes s) name) (\<lambda>nm.
      let s = put_dentry dentry \<lparr>d_next = 0, d_node = node, d_seq = of_nat (junk_ptr s), d_name = nm\<rparr> s in
      ebind (mod_node node (\<lambda>n. n\<lparr>linkcount := linkcount n + 1\<rparr>) s) (\<lambda>s.
      ebind (release_node node s) (\<lambda>s. Inr (0, dentry, s))))))"

definition ramfs_dir_attach :: "ptr \<Rightarrow> ptr \<Rightarrow> fs \<Rightarrow> (int \<times> fs) result" where
  "ramfs_dir_attach parent dentry s =
     ebind (acquire_node parent s) (\<lambda>s.
     ebind (deref (ramnodes s) parent) (\<lambda>n.
     if n_type n \<noteq> VDIR then ebind (release_node parent s) (\<lambda>s. Inr (- EINVAL, s))
     else ebind (as_dir n) (\<lambda>(de, par, sq).
          ebind (mod_dentry dentry (\<lambda>d. d\<lparr>d_seq := sq, d_next := de\<rparr>) s) (\<lambda>s.
          ebind (mod_node parent (\<lambda>n. n\<lparr>n_union := Dir dentry par (sq + 1), linkcount := linkcount n + 1\<rparr>) s) (\<lambda>s.
          ebind (release_node parent s) (\<lambda>s. Inr (0, s)))))))"

definition ramfs_free_dentry :: "ptr \<Rightarrow> fs \<Rightarrow> (int \<times> fs) result" where
  "ramfs_free_dentry dentry s =
     ebind (deref (dentries s) dentry) (\<lambda>d.
     ebind (acquire_node (d_node d) s) (\<lambda>s.
     ebind (deref (ramnodes s) (d_node d)) (\<lambda>n.
     if linkcount n \<le> 0 then Inl (Panic ''ramfs_free_dentry: linkcount <= 0'')
     else ebind (mod_node (d_node d) (\<lambda>n. n\<lparr>linkcount := linkcount n - 1\<rparr>) s) (\<lambda>s.
          let s = kfree_obj dentry s in
          ebind (release_node (d_node d) s) (\<lambda>s. Inr (0, s))))))"

text \<open>\<open>while (d->next != de) d = d->next\<close>\<close>

fun dentry_prev :: "nat \<Rightarrow> ptr \<Rightarrow> ptr \<Rightarrow> fs \<Rightarrow> ptr result" where
  "dentry_prev 0 d de s = Inl NoFuel"
| "dentry_prev (Suc k) d de s =
     ebind (deref (dentries s) d) (\<lambda>x. if d_next x \<noteq> de then dentry_prev k (d_next x) de s else Inr d)"

definition ramfs_dir_detach :: "ptr \<Rightarrow> ptr \<Rightarrow> fs \<Rightarrow> (int \<times> fs) result" where
  "ramfs_dir_detach parent de s =
     ebind (acquire_node parent s) (\<lambda>s.
     ebind (mod_node parent (\<lambda>n. n\<lparr>linkcount := linkcount n - 1\<rparr>) s) (\<lambda>s.
     ebind (deref (ramnodes s) parent) (\<lambda>n.
     ebind (as_dir n) (\<lambda>(first, par, sq).
     ebind (if first = de
            then ebind (deref (dentries s) first) (\<lambda>d.
                 mod_node parent (\<lambda>n. n\<lparr>n_union := Dir (d_next d) par sq\<rparr>) s)
            else ebind (dentry_prev (fs_fuel s) first de s) (\<lambda>d.
                 ebind (deref (dentries s) d) (\<lambda>x.
                 ebind (deref (dentries s) (d_next x)) (\<lambda>y.
                 mod_dentry d (\<lambda>x. x\<lparr>d_next := d_next y\<rparr>) s)))) (\<lambda>s.
     ebind (release_node parent s) (\<lambda>s. Inr (0, s)))))))"

text \<open>The search loop of \<open>ramfs_dir_lookup\<close>: the first entry whose name compares equal, 0 at the end.\<close>

fun dir_find :: "nat \<Rightarrow> ptr \<Rightarrow> u8 list \<Rightarrow> fs \<Rightarrow> ptr result" where
  "dir_find 0 de name s = Inl NoFuel"
| "dir_find (Suc k) de name s =
     (if de = 0 then Inr 0
      else ebind (deref (dentries s) de) (\<lambda>d.
           ebind (strcmp (d_name d) name) (\<lambda>c.
           if c = 0 then Inr de else dir_find k (d_next d) name s)))"

definition ramfs_dir_lookup :: "ptr \<Rightarrow> u8 list \<Rightarrow> fs \<Rightarrow> (ptr \<times> fs) result" where
  "ramfs_dir_lookup dir name s =
     ebind (acquire_node dir s) (\<lambda>s.
     ebind (deref (ramnodes s) dir) (\<lambda>n.
     ebind (as_dir n) (\<lambda>(first, par, sq).
     ebind (dir_find (fs_fuel s) first name s) (\<lambda>de.
     ebind (release_node dir s) (\<lambda>s. Inr (de, s))))))"

subsection \<open>Vnodes of nodes\<close>

definition ramfs_vget :: "ptr \<Rightarrow> ptr \<Rightarrow> fs \<Rightarrow> (int \<times> ptr \<times> fs) result" where
  "ramfs_vget vfs ino s =
     ebind (acquire_node ino s) (\<lambda>s.
     ebind (deref (ramnodes s) ino) (\<lambda>n.
     ebind (if n_vnode n \<noteq> 0
            then ebind (acquire_vnode (n_vnode n) s) (\<lambda>s.
                 ebind (mod_vnode (n_vnode n) (\<lambda>v. v\<lparr>v_refcount := v_refcount v + 1\<rparr>) s) (\<lambda>s.
                 Inr (n_vnode n, s)))
            else let (vn, s) = kalloc_obj s;
                     s = put_vnode vn \<lparr>v_vfs = junk_ptr s, v_mountedhere = junk_ptr s, v_type = VNON, v_refcount = 0,
                           v_flags = junk_flags s, v_lock = 1, v_data = junk_ptr s\<rparr> s in
                 ebind (mod_node ino (\<lambda>n. n\<lparr>n_vnode := vn\<rparr>) s) (\<lambda>s.
                 ebind (if n_type n = VDIR
                        then ebind (as_dir n) (\<lambda>(de, par, sq).
                             mod_vnode vn (\<lambda>v. v\<lparr>v_flags := v_flags v OR (if par = ino then VROOT else 0)\<rparr>) s)
                        else Inr s) (\<lambda>s.
                 ebind (mod_vnode vn (\<lambda>v. v\<lparr>v_mountedhere := 0, v_type := n_type n, v_refcount := 1,
                          v_data := ino, v_vfs := vfs\<rparr>) s) (\<lambda>s.
                 Inr (vn, s))))) (\<lambda>(vn, s).
     ebind (release_vnode vn s) (\<lambda>s.
     ebind (release_node ino s) (\<lambda>s. Inr (0, vn, s))))))"

definition ramfs_root :: "ptr \<Rightarrow> fs \<Rightarrow> (int \<times> ptr \<times> fs) result" where
  "ramfs_root vfs s =
     ebind (deref (mounts s) vfs) (\<lambda>m.
     ebind (deref (ramvfss s) (m_data m)) (\<lambda>rv. ramfs_vget vfs (rv_root rv) s))"

definition ramfs_inactive :: "ptr \<Rightarrow> fs \<Rightarrow> fs result" where
  "ramfs_inactive vn s =
     ebind (deref (vnodes s) vn) (\<lambda>v.
     ebind (acquire_node (v_data v) s) (\<lambda>s.
     ebind (mod_node (v_data v) (\<lambda>n. n\<lparr>n_vnode := 0\<rparr>) s) (\<lambda>s.
     ebind (deref (ramnodes s) (v_data v)) (\<lambda>n.
     ebind (if linkcount n = 0
            then ebind (deref (mounts s) (v_vfs v)) (\<lambda>m. ramfs_free_node (m_data m) (v_data v) s)
            else Inr s) (\<lambda>s.
     release_node (v_data v) s)))))"

subsection \<open>Mounting\<close>

definition ramfs_mount :: "ptr \<Rightarrow> fs \<Rightarrow> (int \<times> fs) result" where
  "ramfs_mount vfs s =
     (let (ram, s) = kalloc_obj s;
          s = put_ramvfs ram \<lparr>rv_root = junk_ptr s, rv_nodes = junk_ptr s\<rparr> s in
      ebind (ramfs_alloc_node ram 0 VDIR None s) (\<lambda>(root, s).
      ebind (mod_node root (\<lambda>n. n\<lparr>linkcount := linkcount n + 1\<rparr>) s) (\<lambda>s.
      ebind (mod_node root (\<lambda>n. n\<lparr>n_prev := 0, n_next := 0\<rparr>) s) (\<lambda>s.
      ebind (mod_ramvfs ram (\<lambda>rv. rv\<lparr>rv_root := root, rv_nodes := root\<rparr>) s) (\<lambda>s.
      ebind (mod_mount vfs (\<lambda>m. m\<lparr>m_data := ram\<rparr>) s) (\<lambda>s. Inr (0, s)))))))"

text \<open>The loops of \<open>ramfs_unmount\<close>; they keep following \<open>next\<close> pointers of entries and nodes they have just freed.\<close>

fun unmount_dentries :: "nat \<Rightarrow> ptr \<Rightarrow> ptr \<Rightarrow> fs \<Rightarrow> fs result" where
  "unmount_dentries 0 node de s = Inl NoFuel"
| "unmount_dentries (Suc k) node de s =
     (if de = 0 then Inr s
      else ebind (deref (dentries s) de) (\<lambda>d.
           ebind (if d_node d \<noteq> 0 then mod_node (d_node d) (\<lambda>n. n\<lparr>n_vnode := 0\<rparr>) s else Inr s) (\<lambda>s.
           ebind (ramfs_dir_detach node de s) (\<lambda>(_, s).
           ebind (ramfs_free_dentry de s) (\<lambda>(_, s).
           ebind (deref (dentries s) de) (\<lambda>d. unmount_dentries k node (d_next d) s))))))"

fun unmount_dirs :: "nat \<Rightarrow> ptr \<Rightarrow> fs \<Rightarrow> fs result" where
  "unmount_dirs 0 node s = Inl NoFuel"
| "unmount_dirs (Suc k) node s =
     (if node = 0 then Inr s
      else ebind (mod_node node (\<lambda>n. n\<lparr>n_vnode := 0\<rparr>) s) (\<lambda>s.
           ebind (deref (ramnodes s) node) (\<lambda>n.
           ebind (if n_type n \<noteq> VDIR then Inr s
                  else ebind (as_dir n) (\<lambda>(first, par, sq). unmount_dentries (fs_fuel s) node first s)) (\<lambda>s.
           ebind (deref (ramnodes s) node) (\<lambda>n. unmount_dirs k (n_next n) s)))))"

fun unmount_nodes :: "nat \<Rightarrow> ptr \<Rightarrow> ptr \<Rightarrow> fs \<Rightarrow> fs result" where
  "unmount_nodes 0 ram node s = Inl NoFuel"
| "unmount_nodes (Suc k) ram node s =
     (if node = 0 then Inr s
      else ebind (ramfs_free_node ram node s) (\<lambda>s.
           ebind (deref (ramnodes s) node) (\<lambda>n. unmount_nodes k ram (n_next n) s)))"

definition ramfs_unmount :: "ptr \<Rightarrow> fs \<Rightarrow> (int \<times> fs) result" where
  "ramfs_unmount vfs s =
     ebind (deref (mounts s) vfs) (\<lambda>m.
     ebind (deref (ramvfss s) (m_data m)) (\<lambda>rv.
     ebind (unmount_dirs (fs_fuel s) (rv_nodes rv) s) (\<lambda>s.
     ebind (deref (ramvfss s) (m_data m)) (\<lambda>rv.
     ebind (unmount_nodes (fs_fuel s) (m_data m) (rv_nodes rv) s) (\<lambda>s.
     Inr (0, kfree_obj (m_data m) s))))))"

subsection \<open>Reading and writing files\<close>

text \<open>
  \<open>while (offset + count >= newsize) newsize *= 2\<close>.  After 64 doublings \<open>newsize\<close> is 0 and the loop never ends.
\<close>

fun grow :: "nat \<Rightarrow> u64 \<Rightarrow> u64 \<Rightarrow> u64 result" where
  "grow 0 need newsize = Inl NoFuel"
| "grow (Suc k) need newsize = (if need \<ge> newsize then grow k need (newsize * 2) else Inr newsize)"

text \<open>\<open>memcpy(dest + off, src, n)\<close> and \<open>memcpy(dest, src + off, n)\<close>.\<close>

definition memcpy_to :: "u8 list \<Rightarrow> nat \<Rightarrow> u8 list \<Rightarrow> nat \<Rightarrow> u8 list result" where
  "memcpy_to dest off src n = ebind (memcpy (drop off dest) src n) (\<lambda>d. Inr (take off dest @ d))"

definition ramfs_write :: "ptr \<Rightarrow> u8 list \<Rightarrow> u64 \<Rightarrow> u64 \<Rightarrow> fs \<Rightarrow> (int \<times> fs) result" where
  "ramfs_write vn buf offset count s =
     ebind (deref (vnodes s) vn) (\<lambda>v.
     let node = v_data v in
     ebind (acquire_node node s) (\<lambda>s.
     ebind (deref (ramnodes s) node) (\<lambda>n.
     ebind (as_reg n) (\<lambda>(dt, sz).
     ebind (if offset + count \<ge> sz
            then ebind (grow 65 (offset + count) (sz + 1)) (\<lambda>newsize.
                 ebind (case dt of None \<Rightarrow> if sz = 0 then Inr (junk_bytes s (unat newsize)) else Inl NullDeref
                        | Some b \<Rightarrow> memcpy (junk_bytes s (unat newsize)) b (unat sz)) (\<lambda>newdata.
                 ebind (mod_node node (\<lambda>n. n\<lparr>n_union := Reg (Some newdata) newsize\<rparr>) s) (\<lambda>s. Inr (Some newdata, newsize, s))))
            else Inr (dt, sz, s)) (\<lambda>(dt, sz, s).
     ebind (case dt of None \<Rightarrow> if count = 0 then Inr (None, s) else Inl NullDeref
            | Some b \<Rightarrow> ebind (memcpy_to b (unat offset) buf (unat count)) (\<lambda>b. Inr (Some b, s))) (\<lambda>(dt, s).
     ebind (mod_node node (\<lambda>n. n\<lparr>n_union := Reg dt sz\<rparr>) s) (\<lambda>s.
     ebind (release_node node s) (\<lambda>s. Inr (0, s)))))))))"

text \<open>\<open>ramfs_read\<close> returns the value, the buffer after the call and the state; \<open>error = count\<close> narrows to \<open>int\<close>.\<close>

definition ramfs_read :: "ptr \<Rightarrow> u8 list \<Rightarrow> u64 \<Rightarrow> u64 \<Rightarrow> fs \<Rightarrow> (int \<times> u8 list \<times> fs) result" where
  "ramfs_read vn buf offset count s =
     ebind (deref (vnodes s) vn) (\<lambda>v.
     let node = v_data v in
     ebind (acquire_node node s) (\<lambda>s.
     ebind (deref (ramnodes s) node) (\<lambda>n.
     ebind (as_reg n) (\<lambda>(dt, sz).
     ebind (if offset + count > sz then Inr (- EINVAL, buf)
            else case dt of None \<Rightarrow> Inr (0, buf)
            | Some b \<Rightarrow> ebind (memcpy buf (drop (unat offset) b) (unat count)) (\<lambda>buf.
                        Inr (sint (ucast count :: u32), buf))) (\<lambda>(error, buf).
     ebind (release_node node s) (\<lambda>s. Inr (error, buf, s)))))))"

definition ramfs_open :: "ptr \<Rightarrow> fs \<Rightarrow> fs result" where
  "ramfs_open vn s = Inr s"

definition ramfs_close :: "ptr \<Rightarrow> fs \<Rightarrow> fs result" where
  "ramfs_close vn s = Inr s"

subsection \<open>Looking up names\<close>

fun lookup_entries :: "nat \<Rightarrow> ptr \<Rightarrow> u8 list \<Rightarrow> nat \<Rightarrow> fs \<Rightarrow> ptr result" where
  "lookup_entries 0 entry name len s = Inl NoFuel"
| "lookup_entries (Suc k) entry name len s =
     (if entry = 0 then Inr 0
      else ebind (deref (dentries s) entry) (\<lambda>d.
           ebind (strncmp (d_name d) name len) (\<lambda>c.
           if c = 0 then Inr entry else lookup_entries k (d_next d) name len s)))"

text \<open>The second result is what was stored in \<open>*vpp\<close>, if anything was.\<close>

definition ramfs_lookup :: "ptr \<Rightarrow> u8 list \<Rightarrow> nat \<Rightarrow> fs \<Rightarrow> (int \<times> ptr option \<times> fs) result" where
  "ramfs_lookup vdir name len s =
     ebind (deref (vnodes s) vdir) (\<lambda>v.
     let node = v_data v in
     ebind (acquire_node node s) (\<lambda>s.
     ebind (if v_type v \<noteq> VDIR then Inr (- ENOTDIR, None, s)
            else
              ebind (strcmp name (cstr (bytes ''.''))) (\<lambda>dot.
              if dot = 0 then ebind (vref_locked vdir s) (\<lambda>s. Inr (0, Some vdir, s))
              else
              ebind (strcmp name (cstr (bytes ''..''))) (\<lambda>dotdot.
              ebind (deref (ramnodes s) node) (\<lambda>n.
              ebind (as_dir n) (\<lambda>(first, parent, sq).
              if dotdot = 0
              then ebind (ramfs_vget (v_vfs v) parent s) (\<lambda>(_, vn, s). Inr (0, Some vn, s))
              else
                ebind (lookup_entries (fs_fuel s) first name len s) (\<lambda>entry.
                if entry = 0 then Inr (- ENOENT, Some 0, s)
                else ebind (deref (dentries s) entry) (\<lambda>d.
                     ebind (ramfs_vget (v_vfs v) (d_node d) s) (\<lambda>(_, vn, s). Inr (0, Some vn, s))))))))) (\<lambda>(error, vpp, s).
     ebind (release_node node s) (\<lambda>s. Inr (error, vpp, s)))))"

subsection \<open>Creating files\<close>

definition ramfs_alloc_file :: "ptr \<Rightarrow> u8 list \<Rightarrow> nat \<Rightarrow> vtype \<Rightarrow> u8 list option \<Rightarrow> fs \<Rightarrow> (int \<times> ptr option \<times> fs) result" where
  "ramfs_alloc_file vdir name len type target s =
     ebind (deref (vnodes s) vdir) (\<lambda>v.
     ebind (deref (mounts s) (v_vfs v)) (\<lambda>m.
     ebind (strldup (junk_bytes s) name len) (\<lambda>nm.
     if v_type v \<noteq> VDIR \<or> (target \<noteq> None \<and> type \<noteq> VLNK) then Inr (- EINVAL, None, s)
     else ebind (ramfs_alloc_node (m_data m) (v_data v) type target s) (\<lambda>(node, s).
          ebind (ramfs_alloc_dentry node nm s) (\<lambda>(_, de, s).
          ebind (ramfs_dir_attach (v_data v) de s) (\<lambda>(_, s).
          ebind (ramfs_vget (v_vfs v) node s) (\<lambda>(_, vn, s). Inr (0, Some vn, s))))))))"

definition ramfs_create :: "ptr \<Rightarrow> u8 list \<Rightarrow> nat \<Rightarrow> vtype \<Rightarrow> fs \<Rightarrow> (int \<times> ptr option \<times> fs) result" where
  "ramfs_create vdir name len type s = ramfs_alloc_file vdir name len type None s"

definition ramfs_mkdir :: "ptr \<Rightarrow> u8 list \<Rightarrow> nat \<Rightarrow> fs \<Rightarrow> (int \<times> ptr option \<times> fs) result" where
  "ramfs_mkdir vdir name len s = ramfs_alloc_file vdir name len VDIR None s"

definition ramfs_symlink :: "ptr \<Rightarrow> u8 list \<Rightarrow> u8 list \<Rightarrow> nat \<Rightarrow> fs \<Rightarrow> (int \<times> fs) result" where
  "ramfs_symlink vdir target name len s =
     ebind (ramfs_alloc_file vdir name len VLNK (Some target) s) (\<lambda>(error, _, s). Inr (error, s))"

definition ramfs_link :: "ptr \<Rightarrow> ptr \<Rightarrow> u8 list \<Rightarrow> nat \<Rightarrow> fs \<Rightarrow> (int \<times> fs) result" where
  "ramfs_link vdir vn name len s =
     ebind (deref (vnodes s) vdir) (\<lambda>vd.
     ebind (deref (vnodes s) vn) (\<lambda>v.
     ebind (ramfs_alloc_dentry (v_data v) name s) (\<lambda>(_, de, s).
     ebind (ramfs_dir_attach (v_data vd) de s) (\<lambda>(_, s). Inr (0, s)))))"

text \<open>\<open>ramfs_readlink\<close> copies the link into the buffer \<open>cnp->name\<close> and sets \<open>cnp->len\<close>.\<close>

definition ramfs_readlink :: "ptr \<Rightarrow> u8 list \<Rightarrow> fs \<Rightarrow> (int \<times> u8 list \<times> nat \<times> fs) result" where
  "ramfs_readlink vn buf s =
     ebind (deref (vnodes s) vn) (\<lambda>v.
     ebind (acquire_node (v_data v) s) (\<lambda>s.
     ebind (deref (ramnodes s) (v_data v)) (\<lambda>n.
     ebind (as_lnk n) (\<lambda>l.
     ebind (strcpy buf l) (\<lambda>buf.
     ebind (strlen l) (\<lambda>len.
     ebind (release_node (v_data v) s) (\<lambda>s. Inr (0, buf, len, s))))))))"

subsection \<open>Removing files\<close>

text \<open>Unlinking a node from the list of all nodes, as \<open>ramfs_remove\<close> and \<open>ramfs_rmdir\<close> do it.\<close>

definition unlink_node :: "ptr \<Rightarrow> fs \<Rightarrow> fs result" where
  "unlink_node node s =
     ebind (deref (ramnodes s) node) (\<lambda>n.
     ebind (if n_prev n \<noteq> 0 then mod_node (n_prev n) (\<lambda>m. m\<lparr>n_next := n_next n\<rparr>) s else Inr s) (\<lambda>s.
     ebind (deref (ramnodes s) node) (\<lambda>n.
     if n_next n \<noteq> 0 then mod_node (n_next n) (\<lambda>m. m\<lparr>n_prev := n_prev n\<rparr>) s else Inr s)))"

definition ramfs_remove :: "ptr \<Rightarrow> ptr \<Rightarrow> u8 list \<Rightarrow> fs \<Rightarrow> (int \<times> fs) result" where
  "ramfs_remove vdir vn name s =
     ebind (deref (vnodes s) vdir) (\<lambda>vd.
     ebind (deref (vnodes s) vn) (\<lambda>v.
     if v_type v = VDIR then Inr (- EISDIR, s)
     else if v_type vd \<noteq> VDIR then Inr (- ENOTDIR, s)
     else ebind (ramfs_dir_lookup (v_data vd) name s) (\<lambda>(de, s).
          ebind (if de = 0 then Inl (Panic ''ramfs_remove: parent'') else deref (dentries s) de) (\<lambda>d.
          if d_node d \<noteq> v_data v then Inl (Panic ''ramfs_remove: parent'')
          else ebind (unlink_node (v_data v) s) (\<lambda>s.
               ebind (ramfs_dir_detach (v_data vd) de s) (\<lambda>(_, s).
               ebind (ramfs_free_dentry de s) (\<lambda>(_, s). Inr (0, s))))))))"

definition ramfs_rmdir :: "ptr \<Rightarrow> ptr \<Rightarrow> u8 list \<Rightarrow> nat \<Rightarrow> fs \<Rightarrow> (int \<times> fs) result" where
  "ramfs_rmdir vdir vpp name len s =
     ebind (deref (vnodes s) vpp) (\<lambda>v.
     ebind (deref (vnodes s) vdir) (\<lambda>vd.
     if len = 2 \<and> take 2 name = bytes ''..'' then Inr (- ENOTEMPTY, s)
     else
       ebind (acquire_node (v_data v) s) (\<lambda>s.
       ebind (deref (ramnodes s) (v_data v)) (\<lambda>n.
       ebind (as_dir n) (\<lambda>(first, parent, sq).
       if parent \<noteq> v_data vd then Inl (Panic ''ramfs_rmdir: parent'')
       else if first \<noteq> 0 then ebind (release_node (v_data v) s) (\<lambda>s. Inr (- ENOTEMPTY, s))
       else
         ebind (mod_node (v_data v) (\<lambda>n. n\<lparr>linkcount := linkcount n - 1\<rparr>) s) (\<lambda>s.
         ebind (release_node (v_data v) s) (\<lambda>s.
         ebind (ramfs_dir_lookup (v_data vd) name s) (\<lambda>(de, s).
         ebind (if de = 0 then Inl (Panic ''ramfs_rmdir: node'') else deref (dentries s) de) (\<lambda>d.
         if d_node d \<noteq> v_data v then Inl (Panic ''ramfs_rmdir: node'')
         else ebind (unlink_node (v_data v) s) (\<lambda>s.
              ebind (ramfs_dir_detach (v_data vd) de s) (\<lambda>(_, s).
              ebind (ramfs_free_dentry de s) (\<lambda>(_, s). Inr (0, s)))))))))))))"

subsection \<open>Listing directories\<close>

record dirent =
  de_ino :: ptr
  de_reclen :: nat
  de_type :: nat
  de_name :: "u8 list"

text \<open>\<open>get_reclen\<close>: the name starts at offset 13 of the structure.\<close>

definition get_reclen :: "u8 list \<Rightarrow> nat result" where
  "get_reclen name = ebind (strlen name) (\<lambda>l. Inr (13 + l + 1))"

definition ramfs_make_dirent :: "ptr \<Rightarrow> dirent \<Rightarrow> u8 list \<Rightarrow> dirent result" where
  "ramfs_make_dirent node d name =
     ebind (strcpy (de_name d) name) (\<lambda>nm.
     ebind (get_reclen nm) (\<lambda>r. Inr (d\<lparr>de_name := nm, de_reclen := r, de_ino := node\<rparr>)))"

definition DT_CHR :: nat where "DT_CHR = 2"
definition DT_DIR :: nat where "DT_DIR = 4"
definition DT_BLK :: nat where "DT_BLK = 6"
definition DT_REG :: nat where "DT_REG = 8"
definition DT_LNK :: nat where "DT_LNK = 10"
definition DT_SOCK :: nat where "DT_SOCK = 12"

text \<open>The \<open>switch\<close> of \<open>ramfs_readdir\<close>: the case \<open>VREG\<close> has no \<open>break\<close> and falls through to \<open>VDIR\<close>.\<close>

definition dirent_type :: "vtype \<Rightarrow> nat result" where
  "dirent_type ty = (case ty of
       VBLK \<Rightarrow> Inr DT_BLK
     | VREG \<Rightarrow> (let d = DT_REG; d = DT_DIR in Inr d)
     | VDIR \<Rightarrow> Inr DT_DIR
     | VSOCK \<Rightarrow> Inr DT_SOCK
     | VLNK \<Rightarrow> Inr DT_LNK
     | VCHR \<Rightarrow> Inr DT_CHR
     | VNON \<Rightarrow> Inl (Panic ''ramfs_readdir: unknown type''))"

fun seek_dentry :: "nat \<Rightarrow> ptr \<Rightarrow> u64 \<Rightarrow> fs \<Rightarrow> ptr result" where
  "seek_dentry 0 de offset s = Inl NoFuel"
| "seek_dentry (Suc k) de offset s =
     (if de = 0 then Inr 0
      else ebind (deref (dentries s) de) (\<lambda>d. if d_seq d = offset then Inr de else seek_dentry k (d_next d) offset s))"

text \<open>
  The \<open>do ... while ((resid -= d.reclen) && (de = de->next))\<close> loop.  The output buffer is the list of records copied
  to it; \<open>resid\<close> is unsigned and wraps around when the records do not fit.
\<close>

fun readdir_loop :: "nat \<Rightarrow> ptr \<Rightarrow> dirent \<Rightarrow> dirent list \<Rightarrow> u64 \<Rightarrow> fs \<Rightarrow> (dirent list \<times> u64 \<times> u64) result" where
  "readdir_loop 0 de d buf resid s = Inl NoFuel"
| "readdir_loop (Suc k) de d buf resid s =
     ebind (deref (dentries s) de) (\<lambda>x.
     ebind (ramfs_make_dirent (d_node x) d (d_name x)) (\<lambda>d.
     ebind (deref (ramnodes s) (d_node x)) (\<lambda>n.
     ebind (dirent_type (n_type n)) (\<lambda>ty.
     let d = d\<lparr>de_type := ty\<rparr>; buf = buf @ [d]; offset = d_seq x; resid = resid - of_nat (de_reclen d) in
     if resid \<noteq> 0 \<and> d_next x \<noteq> 0 then readdir_loop k (d_next x) d buf resid s
     else Inr (buf, resid, offset)))))"

definition ramfs_readdir :: "ptr \<Rightarrow> u64 \<Rightarrow> u64 \<Rightarrow> fs \<Rightarrow> (int \<times> dirent list \<times> u64 \<times> u64 \<times> fs) result" where
  "ramfs_readdir vdir count offset s =
     ebind (deref (vnodes s) vdir) (\<lambda>v.
     let parent = v_data v;
         d = \<lparr>de_ino = junk_ptr s, de_reclen = junk_ptr s, de_type = junk_ptr s, de_name = junk_bytes s 256\<rparr> in
     ebind (acquire_node parent s) (\<lambda>s.
     ebind (deref (ramnodes s) parent) (\<lambda>n.
     ebind (as_dir n) (\<lambda>(first, par, sq).
     ebind (if offset = SEQ_DOT
            then ebind (ramfs_make_dirent parent d (cstr (bytes ''.''))) (\<lambda>d.
                 Inr (d, [d], SEQ_DOTDOT, count - of_nat (de_reclen d)))
            else Inr (d, [], offset, count)) (\<lambda>(d, buf, offset, resid).
     ebind (if offset = SEQ_DOTDOT
            then ebind (ramfs_make_dirent par d (cstr (bytes ''..''))) (\<lambda>d.
                 ebind (if first = 0 then Inr SEQ_EOF else ebind (deref (dentries s) first) (\<lambda>x. Inr (d_seq x))) (\<lambda>offset.
                 Inr (d, buf @ [d], offset, resid - of_nat (de_reclen d))))
            else Inr (d, buf, offset, resid)) (\<lambda>(d, buf, offset, resid).
     ebind (if offset = SEQ_EOF then Inr (0, buf, resid, offset)
            else ebind (seek_dentry (fs_fuel s) first offset s) (\<lambda>de.
                 if de = 0 then Inr (EINVAL, buf, resid, offset)
                 else ebind (readdir_loop (fs_fuel s) de d buf resid s) (\<lambda>(buf, resid, offset).
                      Inr (0, buf, resid, offset)))) (\<lambda>(error, buf, resid, offset).
     ebind (release_node parent s) (\<lambda>s. Inr (error, buf, count - resid, offset, s)))))))))"

end
