(* ===== verification/Ramfs_File.thy ===== *)
theory Ramfs_File
  imports Ramfs
begin

section \<open>File contents in ramfs\<close>

text \<open>
  What \<open>ramfs_write\<close> and \<open>ramfs_read\<close> do to the bytes of a regular file: the buffer grows by doubling until it holds
  the written range, the old contents survive, and reading back returns what was written.
\<close>

subsection \<open>The doubling loop\<close>

lemma grow_returns:
  assumes "unat need < 2 ^ 63" "newsize \<noteq> 0" "unat need < unat newsize * 2 ^ k"
  shows "\<exists>m. grow (Suc k) need newsize = Inr m \<and> unat need < unat m \<and> unat newsize \<le> unat m \<and>
    unat m \<le> max (unat newsize) (2 * unat need)"
  using assms(2,3)
proof (induction k arbitrary: newsize)
  case 0
  then show ?case by (auto simp: word_le_nat_alt)
next
  case (Suc k)
  show ?case
  proof (cases "need \<ge> newsize")
    case True
    then have le: "unat newsize \<le> unat need" by (simp add: word_le_nat_alt)
    then have dbl: "unat (newsize * 2) = unat newsize * 2"
      using assms(1) by (simp add: unat_word_ariths)
    have "newsize * 2 \<noteq> 0" using dbl Suc.prems(1) by (metis mult_eq_0_iff unat_0 unat_eq_zero zero_neq_numeral)
    moreover have "unat need < unat (newsize * 2) * 2 ^ k" using Suc.prems(2) dbl by simp
    ultimately obtain m where "grow (Suc k) need (newsize * 2) = Inr m \<and> unat need < unat m \<and>
      unat (newsize * 2) \<le> unat m \<and> unat m \<le> max (unat (newsize * 2)) (2 * unat need)"
      using Suc.IH [of "newsize * 2"] by blast
    with True dbl le show ?thesis by (auto simp: max_def split: if_splits)
  next
    case False
    then show ?thesis by (auto simp: word_le_nat_alt)
  qed
qed

lemma grow_65:
  assumes "unat need < 2 ^ 63" "newsize \<noteq> 0"
  obtains m where "grow 65 need newsize = Inr m" "unat need < unat m" "unat newsize \<le> unat m"
    "unat m \<le> max (unat newsize) (2 * unat need)"
proof -
  have "1 \<le> unat newsize" using assms(2) by (simp add: Suc_le_eq unat_gt_0)
  then have "(1::nat) * 2 ^ 64 \<le> unat newsize * 2 ^ 64" by (rule mult_right_mono) simp
  then have "unat need < unat newsize * 2 ^ 64" using assms(1) by simp
  from grow_returns [OF assms this] obtain m where "grow (Suc 64) need newsize = Inr m \<and> unat need < unat m \<and>
    unat newsize \<le> unat m \<and> unat m \<le> max (unat newsize) (2 * unat need)" by blast
  moreover have "Suc 64 = 65" by simp
  ultimately show ?thesis using that by (simp only:)
qed

text \<open>From \<open>2^63\<close> on the loop reaches 0 and never ends: whatever the fuel, it runs out.\<close>

lemma grow_zero_diverges: "grow k need 0 = Inl NoFuel"
  by (induction k) auto

subsection \<open>Splicing bytes\<close>

text \<open>The abstract view of a write: replace the bytes from \<open>off\<close> on by \<open>new\<close>.\<close>

definition splice :: "nat \<Rightarrow> 'a list \<Rightarrow> 'a list \<Rightarrow> 'a list" where
  "splice off new old = take off old @ new @ drop (off + length new) old"

lemma length_splice [simp]: "off + length new \<le> length old \<Longrightarrow> length (splice off new old) = length old"
  by (simp add: splice_def)

lemma splice_inside: "off + length new \<le> length old \<Longrightarrow> take (length new) (drop off (splice off new old)) = new"
  by (simp add: splice_def)

lemma splice_outside:
  "off + length new \<le> length old \<Longrightarrow> i < off \<or> off + length new \<le> i \<Longrightarrow> i < length old \<Longrightarrow> splice off new old ! i = old ! i"
  by (auto simp: splice_def nth_append)

lemma memcpy_to_splice:
  assumes "off + n \<le> length dest" "n \<le> length src"
  shows "memcpy_to dest off src n = Inr (splice off (take n src) dest)"
  using assms by (simp add: memcpy_to_def memcpy_spec splice_def min_def add.commute)

subsection \<open>Writing and reading\<close>

text \<open>A regular file's buffer is exactly \<open>size\<close> bytes long, and absent when \<open>size\<close> is 0.\<close>

definition reg_ok :: "u8 list option \<Rightarrow> u64 \<Rightarrow> bool" where
  "reg_ok dt sz \<longleftrightarrow> (case dt of None \<Rightarrow> sz = 0 | Some b \<Rightarrow> length b = unat sz)"

text \<open>\<open>file_at s vn n dt sz\<close>: the vnode \<open>vn\<close> is a regular file with unlocked node \<open>n\<close> and these contents.\<close>

definition file_at :: "fs \<Rightarrow> ptr \<Rightarrow> ramnode \<Rightarrow> u8 list option \<Rightarrow> u64 \<Rightarrow> bool" where
  "file_at s vn n dt sz \<longleftrightarrow> (\<exists>v. vn \<noteq> 0 \<and> vnodes s vn = Some v \<and> v_data v \<noteq> 0 \<and> ramnodes s (v_data v) = Some n \<and>
     ramlock n = 0 \<and> n_union n = Reg dt sz \<and> reg_ok dt sz)"

text \<open>What \<open>ramfs_write\<close> leaves behind.\<close>

definition write_post :: "fs \<Rightarrow> ptr \<Rightarrow> ramnode \<Rightarrow> u8 list option \<Rightarrow> u64 \<Rightarrow> nat \<Rightarrow> u8 list \<Rightarrow> u8 list \<Rightarrow> u64 \<Rightarrow> fs \<Rightarrow> bool" where
  "write_post s vn n dt sz off new b' sz' s' \<longleftrightarrow>
     file_at s' vn (n\<lparr>n_union := Reg (Some b') sz'\<rparr>) (Some b') sz' \<and>
     take (length new) (drop off b') = new \<and> off + length new \<le> length b' \<and> unat sz \<le> length b' \<and>
     (\<forall>b i. dt = Some b \<longrightarrow> i < length b \<longrightarrow> i < off \<or> off + length new \<le> i \<longrightarrow> b' ! i = b ! i) \<and>
     (\<forall>v. vnodes s vn = Some v \<longrightarrow> s' = s\<lparr>ramnodes := (ramnodes s)(v_data v := Some (n\<lparr>n_union := Reg (Some b') sz'\<rparr>))\<rparr>)"

lemma splice_write_post:
  assumes f: "file_at s vn n dt sz" "vnodes s vn = Some v"
    and base: "off + length new \<le> length base" "unat sz \<le> length base" "length base = unat sz'"
      "\<And>b i. dt = Some b \<Longrightarrow> i < length b \<Longrightarrow> base ! i = b ! i"
  shows "write_post s vn n dt sz off new (splice off new base) sz'
    (s\<lparr>ramnodes := (ramnodes s)(v_data v := Some (n\<lparr>n_union := Reg (Some (splice off new base)) sz'\<rparr>))\<rparr>)"
proof -
  have keep: "splice off new base ! i = b ! i"
    if "dt = Some b" "i < length b" "i < off \<or> off + length new \<le> i" for b i
  proof -
    have "length b = unat sz" using that(1) f(1) by (auto simp: file_at_def reg_ok_def)
    with that base show ?thesis by (simp add: splice_outside)
  qed
  show ?thesis using f base(1-3) keep
    by (auto simp: write_post_def file_at_def reg_ok_def splice_inside)
qed

lemma ramfs_write_spec:
  assumes f: "file_at s vn n dt sz" and junk: "\<And>k. length (junk_bytes s k) = k"
    and rng: "unat offset + unat count < 2 ^ 63" "unat count \<le> length buf"
  shows "\<exists>b' sz' s'. ramfs_write vn buf offset count s = Inr (0, s') \<and>
    write_post s vn n dt sz (unat offset) (take (unat count) buf) b' sz' s' \<and>
    unat sz' \<le> max (unat sz + 1) (2 * (unat offset + unat count))"
proof -
  from f obtain v where v: "vn \<noteq> 0" "vnodes s vn = Some v" "v_data v \<noteq> 0" "ramnodes s (v_data v) = Some n"
    "ramlock n = 0" "n_union n = Reg dt sz" "reg_ok dt sz" by (auto simp: file_at_def)
  have oc: "unat (offset + count) = unat offset + unat count"
    using rng(1) by (intro unat_add_no_wrap) simp
  note eval = ramfs_write_def fs_eval as_reg_def Let_def v(1-6)
  show ?thesis
  proof (cases "offset + count \<ge> sz")
    case True
    then have le: "unat sz \<le> unat offset + unat count" using oc by (simp add: word_le_nat_alt)
    then have sz1: "unat (sz + 1) = unat sz + 1" using rng(1) by (intro trans [OF unat_add_no_wrap]) auto
    then have "sz + 1 \<noteq> 0" by (metis add_is_0 one_neq_zero unat_0)
    from grow_65 [OF _ this, of "offset + count"] oc rng(1) obtain m where m:
      "grow 65 (offset + count) (sz + 1) = Inr m" "unat offset + unat count < unat m" "unat sz + 1 \<le> unat m"
      "unat m \<le> max (unat sz + 1) (2 * (unat offset + unat count))" by (auto simp: sz1)
    define base where "base = (case dt of None \<Rightarrow> junk_bytes s (unat m) | Some b \<Rightarrow> b @ drop (unat sz) (junk_bytes s (unat m)))"
    have lb: "length base = unat m" using v(7) m(3) junk by (auto simp: base_def reg_ok_def split: option.splits)
    have copied: "(case dt of None \<Rightarrow> if sz = 0 then Inr (junk_bytes s (unat m)) else Inl NullDeref
        | Some b \<Rightarrow> memcpy (junk_bytes s (unat m)) b (unat sz)) = Inr base"
      using v(7) m(3) junk by (auto simp: base_def reg_ok_def memcpy_spec split: option.splits)
    have spl: "memcpy_to base (unat offset) buf (unat count) = Inr (splice (unat offset) (take (unat count) buf) base)"
      by (rule memcpy_to_splice) (use lb m(2) rng(2) in auto)
    have "ramfs_write vn buf offset count s = Inr (0, s\<lparr>ramnodes := (ramnodes s)
      (v_data v := Some (n\<lparr>n_union := Reg (Some (splice (unat offset) (take (unat count) buf) base)) m\<rparr>))\<rparr>)"
      using True m(1) copied spl v(7) by (cases dt) (simp_all add: eval reg_ok_def cong: ebind_arg_cong)
    moreover have "write_post s vn n dt sz (unat offset) (take (unat count) buf)
      (splice (unat offset) (take (unat count) buf) base) m (s\<lparr>ramnodes := (ramnodes s)
      (v_data v := Some (n\<lparr>n_union := Reg (Some (splice (unat offset) (take (unat count) buf) base)) m\<rparr>))\<rparr>)"
      by (rule splice_write_post [OF f v(2)])
        (use m(2,3) lb rng(2) in \<open>auto simp: base_def nth_append split: option.splits\<close>)
    ultimately show ?thesis using m(4) by blast
  next
    case False
    then have lt: "unat offset + unat count < unat sz" using oc by (simp add: word_le_nat_alt)
    then obtain b where b: "dt = Some b" "length b = unat sz" using v(7) by (auto simp: reg_ok_def split: option.splits)
    have spl: "memcpy_to b (unat offset) buf (unat count) = Inr (splice (unat offset) (take (unat count) buf) b)"
      by (rule memcpy_to_splice) (use b lt rng(2) in auto)
    have "ramfs_write vn buf offset count s = Inr (0, s\<lparr>ramnodes := (ramnodes s)
      (v_data v := Some (n\<lparr>n_union := Reg (Some (splice (unat offset) (take (unat count) buf) b)) sz\<rparr>))\<rparr>)"
      using False b(1) spl by (simp add: eval cong: ebind_arg_cong)
    moreover have "write_post s vn n dt sz (unat offset) (take (unat count) buf)
      (splice (unat offset) (take (unat count) buf) b) sz (s\<lparr>ramnodes := (ramnodes s)
      (v_data v := Some (n\<lparr>n_union := Reg (Some (splice (unat offset) (take (unat count) buf) b)) sz\<rparr>))\<rparr>)"
      by (rule splice_write_post [OF f v(2)]) (use b lt rng(2) in auto)
    ultimately show ?thesis by (meson le_add1 max.coboundedI1 order_refl order_trans)
  qed
qed

lemma ramfs_read_spec:
  assumes f: "file_at s vn n (Some b) sz" and rng: "unat offset + unat count \<le> unat sz" "unat count \<le> length buf"
  shows "ramfs_read vn buf offset count s =
    Inr (sint (ucast count :: u32), take (unat count) (drop (unat offset) b) @ drop (unat count) buf, s)"
proof -
  from f obtain v where v: "vn \<noteq> 0" "vnodes s vn = Some v" "v_data v \<noteq> 0" "ramnodes s (v_data v) = Some n"
    "ramlock n = 0" "n_union n = Reg (Some b) sz" "length b = unat sz" by (auto simp: file_at_def reg_ok_def)
  have "unat offset + unat count < 2 ^ 64" using rng(1) unsigned_less [of sz, where ?'a = nat] by simp
  then have "\<not> offset + count > sz" using rng(1) by (simp add: word_less_nat_alt unat_add_no_wrap)
  moreover have "memcpy buf (drop (unat offset) b) (unat count) =
    Inr (take (unat count) (drop (unat offset) b) @ drop (unat count) buf)"
    by (rule memcpy_spec) (use rng v(7) in auto)
  ultimately show ?thesis
    using v(1-6) by (simp add: ramfs_read_def fs_eval as_reg_def Let_def fun_upd_idem cong: ebind_arg_cong)
qed

lemma ramfs_read_beyond:
  assumes f: "file_at s vn n dt sz" and rng: "unat sz < unat offset + unat count" "unat offset + unat count < 2 ^ 64"
  shows "ramfs_read vn buf offset count s = Inr (- EINVAL, buf, s)"
proof -
  have "offset + count > sz" using rng by (simp add: word_less_nat_alt unat_add_no_wrap)
  then show ?thesis
    using f by (auto simp: file_at_def ramfs_read_def fs_eval as_reg_def Let_def fun_upd_idem cong: ebind_arg_cong)
qed

lemma sint_ucast_small:
  assumes "unat (c :: u64) < 2 ^ 31"
  shows "sint (ucast c :: u32) = int (unat c)"
proof -
  have "take_bit 32 (unat c) = unat c" by (rule take_bit_nat_eq_self) (use assms in simp)
  then have "unat (ucast c :: u32) = unat c" by (simp add: unsigned_ucast_eq)
  then have u: "uint (ucast c :: u32) = int (unat c)" by (simp only: uint_nat)
  have small: "signed_take_bit 31 (int n) = int n" if "n < 2 ^ 31" for n :: nat
    by (rule signed_take_bit_int_eq_self) (use that in simp_all)
  have "sint (ucast c :: u32) = signed_take_bit 31 (uint (ucast c :: u32))" by (simp add: sint_uint)
  then show ?thesis by (simp only: u small [OF assms])
qed

subsection \<open>Properties\<close>


text \<open>A store with one empty regular file, vnode 1 on node 2.\<close>

definition one_file :: fs where
  "one_file = \<lparr>vnodes = [1 \<mapsto> \<lparr>v_vfs = 3, v_mountedhere = 0, v_type = VREG, v_refcount = 1, v_flags = 0, v_lock = 0, v_data = 2\<rparr>],
     mounts = Map.empty, ramvfss = Map.empty, dentries = Map.empty,
     ramnodes = [2 \<mapsto> \<lparr>n_prev = 0, n_next = 0, n_vnode = 1, n_type = VREG, ramlock = 0, linkcount = 1, n_union = Reg None 0\<rparr>],
     next_ptr = 4, freed = {}, rootfs = 0, rootvn = 0, mountedlist = 0, vfslist_lock = 0, vfs_types = [], junk_ptr = 0,
     junk_flags = 0, junk_bytes = (\<lambda>k. replicate k 0)\<rparr>"


end
