(* ===== verification/Ramfs_Dir.thy ===== *)
theory Ramfs_Dir
  imports Ramfs
begin

section \<open>The directory tree of ramfs: entries, link counts, invariants\<close>

text \<open>
  The well-formedness invariant of a mounted ramfs and what the operations do to it.  The entries of a directory are
  a linked list; the ghost argument \<open>E\<close> gives, for every node, the list of its entry pointers, and \<open>dots\<close> the number
  of virtual links of a node (2 for a root, 1 for another directory, 0 for a file or a removed directory).  The
  invariant says that the chain of each directory is \<open>E\<close>, that no entry is in two directories, that names are
  proper strings, and that the link count of every node is the number of entries pointing at it, plus the number of entries
  in it, plus its virtual links.
\<close>

subsection \<open>Chains of entries\<close>

fun dchain :: "(ptr \<Rightarrow> ramdentry option) \<Rightarrow> ptr \<Rightarrow> ptr list \<Rightarrow> bool" where
  "dchain m p [] = (p = 0)"
| "dchain m p (d # ds) = (p = d \<and> d \<noteq> 0 \<and> (\<exists>x. m d = Some x \<and> dchain m (d_next x) ds))"

lemma dchain_unique: "dchain m p ds \<Longrightarrow> dchain m p ds' \<Longrightarrow> ds = ds'"
proof (induction ds arbitrary: p ds')
  case Nil
  then show ?case by (cases ds') auto
next
  case (Cons d ds)
  then show ?case by (cases ds') auto
qed

lemma dchain_append: "dchain m p (xs @ d # ys) \<Longrightarrow> dchain m d (d # ys)"
  by (induction xs arbitrary: p) auto

lemma dchain_distinct: "dchain m p ds \<Longrightarrow> distinct ds"
proof (induction ds arbitrary: p)
  case (Cons d ds)
  have "d \<notin> set ds"
  proof
    assume "d \<in> set ds"
    then obtain xs ys where "ds = xs @ d # ys" by (meson split_list)
    moreover have "dchain m d (d # xs @ d # ys)" using Cons.prems calculation by auto
    ultimately have "dchain m d (d # ys)" using dchain_append [of m d "d # xs" d ys] by simp
    with \<open>dchain m d (d # xs @ d # ys)\<close> have "d # ys = d # xs @ d # ys"
      using dchain_unique by blast
    then have "length ys = length (xs @ d # ys)" by simp
    then show False by simp
  qed
  with Cons show ?case by auto
qed simp

lemma dchain_defined: "dchain m p ds \<Longrightarrow> d \<in> set ds \<Longrightarrow> d \<noteq> 0 \<and> m d \<noteq> None"
  by (induction ds arbitrary: p) auto

lemma dchain_upd: "d \<notin> set ds \<Longrightarrow> dchain (m(d := v)) p ds = dchain m p ds"
  by (induction ds arbitrary: p) auto

lemma dchain_length:
  assumes "dchain m p ds" and "dom m \<subseteq> {0<..<k}"
  shows "length ds < Suc k"
proof -
  have "set ds \<subseteq> {0<..<k}" using dchain_defined [OF assms(1)] assms(2) by blast
  then have "card (set ds) \<le> card {0<..<k}" by (intro card_mono) auto
  then show ?thesis using distinct_card [OF dchain_distinct [OF assms(1)]] by simp
qed

lemma dchain_zero: "dchain m 0 ds \<longleftrightarrow> ds = []"
  by (cases ds) auto

subsection \<open>Names\<close>

definition good_name :: "u8 list \<Rightarrow> bool" where
  "good_name b \<longleftrightarrow> b \<noteq> [] \<and> last b = 0 \<and> butlast b \<noteq> [] \<and> 0 \<notin> set (butlast b)"

lemma good_nameE:
  assumes "good_name b"
  obtains t where "b = t @ [0]" "t \<noteq> []" "0 \<notin> set t" "butlast b = t"
  using assms unfolding good_name_def by (metis append_butlast_last_id)

lemma good_name_cstr [simp]: "good_name (cstr t) \<longleftrightarrow> t \<noteq> [] \<and> 0 \<notin> set t"
  by (auto simp: good_name_def cstr_def)

lemma butlast_cstr [simp]: "butlast (cstr t) = t"
  by (simp add: cstr_def)

text \<open>The name of an entry and the node it points to.\<close>

definition ename :: "fs \<Rightarrow> ptr \<Rightarrow> u8 list" where
  "ename s d = butlast (d_name (the (dentries s d)))"

definition enode :: "fs \<Rightarrow> ptr \<Rightarrow> ptr" where
  "enode s d = d_node (the (dentries s d))"

lemma dir_find_spec:
  assumes "dchain (dentries s) p ds" and "\<forall>d \<in> set ds. good_name (d_name (the (dentries s d)))"
    and "t \<noteq> []" "0 \<notin> set t" and "length ds < k"
  shows "dir_find k p (t @ 0 # r) s = Inr (case find (\<lambda>d. ename s d = t) ds of None \<Rightarrow> 0 | Some d \<Rightarrow> d)"
  using assms
proof (induction ds arbitrary: p k)
  case Nil
  then show ?case by (cases k) auto
next
  case (Cons d ds)
  then obtain x k' where x: "p = d" "d \<noteq> 0" "dentries s d = Some x" "dchain (dentries s) (d_next x) ds"
    and k: "k = Suc k'" by (cases k) auto
  obtain u where u: "d_name x = u @ [0]" "u \<noteq> []" "0 \<notin> set u" "ename s d = u"
    using Cons.prems(2) x by (auto simp: ename_def elim: good_nameE)
  have "strcmp (d_name x) (t @ 0 # r) = Inr (if u = t then 0 else - 1)"
    using strcmp_spec [OF u(2,3) Cons.prems(3,4), of "[]" r] u(1) by simp
  with Cons.IH [OF x(4)] Cons.prems x u(4) k show ?case by simp
qed

lemma lookup_entries_spec:
  assumes "dchain (dentries s) p ds" and "\<forall>d \<in> set ds. good_name (d_name (the (dentries s d)))"
    and "n \<le> length t" "0 \<notin> set (take n t)" and "length ds < k"
  shows "lookup_entries k p t n s =
    Inr (case find (\<lambda>d. take n (ename s d) = take n t) ds of None \<Rightarrow> 0 | Some d \<Rightarrow> d)"
  using assms
proof (induction ds arbitrary: p k)
  case Nil
  then show ?case by (cases k) auto
next
  case (Cons d ds)
  then obtain x k' where x: "p = d" "d \<noteq> 0" "dentries s d = Some x" "dchain (dentries s) (d_next x) ds"
    and k: "k = Suc k'" by (cases k) auto
  obtain u where u: "d_name x = u @ [0]" "u \<noteq> []" "0 \<notin> set u" "ename s d = u"
    using Cons.prems(2) x by (auto simp: ename_def elim: good_nameE)
  have "strncmp (d_name x) t n = Inr (if take n u = take n t then 0 else - 1)"
    using strncmp_spec [OF Cons.prems(3,4), of u "[]"] u(1) by simp
  with Cons.IH [OF x(4)] Cons.prems x u(4) k show ?case by simp
qed

subsection \<open>The invariant\<close>

text \<open>Entries, of any directory, that point at node \<open>p\<close>.\<close>

definition pointing :: "fs \<Rightarrow> (ptr \<Rightarrow> ptr list) \<Rightarrow> ptr \<Rightarrow> ptr set" where
  "pointing s E p = {d. \<exists>q. d \<in> set (E q) \<and> enode s d = p}"

definition bounded :: "fs \<Rightarrow> bool" where
  "bounded s \<longleftrightarrow> 0 < next_ptr s \<and> dom (ramnodes s) \<subseteq> {0<..<next_ptr s} \<and> dom (dentries s) \<subseteq> {0<..<next_ptr s} \<and>
     dom (vnodes s) \<subseteq> {0<..<next_ptr s}"

definition ptr_ok :: "(ptr \<Rightarrow> 'o option) \<Rightarrow> ptr \<Rightarrow> bool" where
  "ptr_ok m p \<longleftrightarrow> p = 0 \<or> m p \<noteq> None"

definition node_ok :: "fs \<Rightarrow> (ptr \<Rightarrow> ptr list) \<Rightarrow> ptr \<Rightarrow> ramnode \<Rightarrow> bool" where
  "node_ok s E p n \<longleftrightarrow>
     (if n_type n = VDIR
      then \<exists>de par sq. n_union n = Dir de par sq \<and> dchain (dentries s) de (E p) \<and> ramnodes s par \<noteq> None
      else E p = []) \<and>
     ptr_ok (ramnodes s) (n_prev n) \<and> ptr_ok (ramnodes s) (n_next n) \<and>
     (n_vnode n \<noteq> 0 \<longrightarrow> (\<exists>v. vnodes s (n_vnode n) = Some v \<and> v_data v = p \<and> v_type v = n_type n))"

definition entries_ok :: "fs \<Rightarrow> (ptr \<Rightarrow> ptr list) \<Rightarrow> bool" where
  "entries_ok s E \<longleftrightarrow>
     (\<forall>p. ramnodes s p = None \<longrightarrow> E p = []) \<and>
     (\<forall>p q. p \<noteq> q \<longrightarrow> set (E p) \<inter> set (E q) = {}) \<and>
     (\<forall>p. \<forall>d \<in> set (E p). \<exists>x. dentries s d = Some x \<and> good_name (d_name x) \<and> ramnodes s (d_node x) \<noteq> None)"

definition links_ok :: "fs \<Rightarrow> (ptr \<Rightarrow> ptr list) \<Rightarrow> (ptr \<Rightarrow> nat) \<Rightarrow> bool" where
  "links_ok s E dots \<longleftrightarrow> (\<forall>p n. ramnodes s p = Some n \<longrightarrow>
     linkcount n = int (card (pointing s E p) + length (E p) + dots p))"

definition ramfs_wf :: "fs \<Rightarrow> (ptr \<Rightarrow> ptr list) \<Rightarrow> (ptr \<Rightarrow> nat) \<Rightarrow> bool" where
  "ramfs_wf s E dots \<longleftrightarrow> bounded s \<and> (\<forall>p n. ramnodes s p = Some n \<longrightarrow> node_ok s E p n) \<and> entries_ok s E \<and> links_ok s E dots"

definition unlocked :: "fs \<Rightarrow> bool" where
  "unlocked s \<longleftrightarrow> (\<forall>p n. ramnodes s p = Some n \<longrightarrow> ramlock n = 0)"

lemma ramfs_wfD:
  assumes "ramfs_wf s E dots"
  shows "bounded s" "entries_ok s E" "links_ok s E dots" "\<And>p n. ramnodes s p = Some n \<Longrightarrow> node_ok s E p n"
  using assms by (auto simp: ramfs_wf_def)

lemma bounded_fresh:
  assumes "bounded s"
  shows "ramnodes s (next_ptr s) = None" "dentries s (next_ptr s) = None" "vnodes s (next_ptr s) = None" "next_ptr s \<noteq> 0"
    "ramnodes s 0 = None" "dentries s 0 = None" "vnodes s 0 = None"
  using assms by (auto simp: bounded_def)

lemma bounded_nonzero:
  assumes "bounded s"
  shows "ramnodes s p = Some n \<Longrightarrow> 0 < p \<and> p < next_ptr s" "dentries s p = Some d \<Longrightarrow> 0 < p \<and> p < next_ptr s"
    "vnodes s p = Some v \<Longrightarrow> 0 < p \<and> p < next_ptr s"
  using assms unfolding bounded_def by auto

lemma entries_okD:
  assumes "entries_ok s E" "d \<in> set (E p)"
  obtains x where "dentries s d = Some x" "good_name (d_name x)" "ramnodes s (d_node x) \<noteq> None" "ename s d = butlast (d_name x)"
    "enode s d = d_node x"
proof -
  have "\<forall>d \<in> set (E p). \<exists>x. dentries s d = Some x \<and> good_name (d_name x) \<and> ramnodes s (d_node x) \<noteq> None"
    using assms(1) by (simp add: entries_ok_def)
  with assms(2) obtain x where "dentries s d = Some x" "good_name (d_name x)" "ramnodes s (d_node x) \<noteq> None" by blast
  then show ?thesis using that [of x] by (simp add: ename_def enode_def)
qed

lemma entry_old:
  assumes "bounded s" "entries_ok s E" "d \<in> set (E q)"
  shows "0 < d" "d < next_ptr s"
  using entries_okD [OF assms(2,3)] bounded_nonzero(2) [OF assms(1)] by blast+

lemma pointing_finite:
  assumes "bounded s" "entries_ok s E"
  shows "finite (pointing s E p)"
proof (rule finite_subset)
  show "pointing s E p \<subseteq> {0<..<next_ptr s}"
    using assms by (fastforce simp: pointing_def bounded_def elim: entries_okD)
qed simp

text \<open>A directory node of a well-formed file system.\<close>

lemma dir_nodeE:
  assumes "ramfs_wf s E dots" "ramnodes s p = Some n" "n_type n = VDIR"
  obtains de par sq where "n_union n = Dir de par sq" "dchain (dentries s) de (E p)" "ramnodes s par \<noteq> None" "p \<noteq> 0"
    "length (E p) < fs_fuel s" "\<forall>d \<in> set (E p). good_name (d_name (the (dentries s d)))"
proof -
  have "node_ok s E p n" "bounded s" "entries_ok s E" using ramfs_wfD [OF assms(1)] assms(2) by auto
  moreover have "p \<noteq> 0" using bounded_fresh(5) [OF \<open>bounded s\<close>] assms(2) by (metis option.distinct(1))
  moreover have "\<forall>d \<in> set (E p). good_name (d_name (the (dentries s d)))"
    using \<open>entries_ok s E\<close> by (fastforce elim: entries_okD)
  moreover have "length ds < fs_fuel s" if "dchain (dentries s) de ds" for de ds
    using dchain_length [OF that] \<open>bounded s\<close> by (simp add: bounded_def fs_fuel_def)
  ultimately show ?thesis using that assms(3) by (auto simp: node_ok_def)
qed

subsection \<open>Finding an entry\<close>

lemma ramfs_dir_lookup_spec:
  assumes wf: "ramfs_wf s E dots" and n: "ramnodes s p = Some n" "n_type n = VDIR" "ramlock n = 0"
    and t: "t \<noteq> []" "0 \<notin> set t"
  shows "ramfs_dir_lookup p (t @ 0 # r) s = Inr (case find (\<lambda>d. ename s d = t) (E p) of None \<Rightarrow> 0 | Some d \<Rightarrow> d, s)"
proof -
  obtain de par sq where d: "n_union n = Dir de par sq" "dchain (dentries s) de (E p)" "p \<noteq> 0"
    "length (E p) < fs_fuel s" "\<forall>d \<in> set (E p). good_name (d_name (the (dentries s d)))"
    using dir_nodeE [OF wf n(1,2)] by metis
  let ?s = "s\<lparr>ramnodes := (ramnodes s)(p := Some (n\<lparr>ramlock := 1\<rparr>))\<rparr>"
  have "dir_find (fs_fuel ?s) de (t @ 0 # r) ?s = Inr (case find (\<lambda>d. ename ?s d = t) (E p) of None \<Rightarrow> 0 | Some d \<Rightarrow> d)"
    by (rule dir_find_spec) (use d t in \<open>simp_all add: fs_fuel_def\<close>)
  then show ?thesis using d n
    by (simp add: ramfs_dir_lookup_def fs_eval as_dir_def ename_def fun_upd_idem cong: ebind_arg_cong)
qed

subsection \<open>Transfer of the invariant to a changed store\<close>

lemma dchain_cong: "(\<And>d. d \<in> set ds \<Longrightarrow> m' d = m d) \<Longrightarrow> dchain m' p ds = dchain m p ds"
  by (induction ds arbitrary: p) auto

lemma node_ok_transfer:
  assumes "node_ok s E p n" "n_type n' = n_type n" "n_union n' = n_union n" "n_vnode n' = n_vnode n"
    and "ptr_ok (ramnodes s') (n_prev n')" "ptr_ok (ramnodes s') (n_next n')" "E' p = E p"
    and "\<And>d. d \<in> set (E p) \<Longrightarrow> dentries s' d = dentries s d"
    and "\<And>q. ramnodes s q \<noteq> None \<Longrightarrow> ramnodes s' q \<noteq> None"
    and "\<And>w. n_vnode n \<noteq> 0 \<Longrightarrow> vnodes s (n_vnode n) = Some w \<Longrightarrow>
      \<exists>w'. vnodes s' (n_vnode n) = Some w' \<and> v_data w' = v_data w \<and> v_type w' = v_type w"
  shows "node_ok s' E' p n'"
proof -
  have "dchain (dentries s') de (E' p) = dchain (dentries s) de (E p)" for de
    using dchain_cong assms(7,8) by metis
  with assms show ?thesis unfolding node_ok_def by (auto split: if_splits)
qed

lemma node_okD:
  assumes "node_ok s E p n"
  shows "ptr_ok (ramnodes s) (n_prev n)" "ptr_ok (ramnodes s) (n_next n)"
  using assms by (auto simp: node_ok_def)

lemma ptr_ok_mono: "ptr_ok m p \<Longrightarrow> (\<And>q. m q \<noteq> None \<Longrightarrow> m' q \<noteq> None) \<Longrightarrow> ptr_ok m' p"
  by (auto simp: ptr_ok_def)

lemma pointing_cong:
  assumes "\<And>q d. d \<in> set (E q) \<Longrightarrow> dentries s' d = dentries s d"
  shows "pointing s' E p = pointing s E p"
  using assms by (auto simp: pointing_def enode_def)

lemma pointing_none:
  assumes "entries_ok s E" "ramnodes s p = None"
  shows "pointing s E p = {}"
  using assms by (auto simp: pointing_def elim!: entries_okD)

lemma entries_ok_transfer:
  assumes "entries_ok s E" and "\<And>q d. d \<in> set (E q) \<Longrightarrow> dentries s' d = dentries s d"
    and "\<And>q. ramnodes s q \<noteq> None \<Longrightarrow> ramnodes s' q \<noteq> None"
  shows "entries_ok s' E"
  unfolding entries_ok_def
proof (intro conjI allI impI ballI)
  show "E p = []" if "ramnodes s' p = None" for p
    using assms(1) assms(3) [of p] that unfolding entries_ok_def by blast
  show "set (E p) \<inter> set (E q) = {}" if "p \<noteq> q" for p q using assms(1) that by (simp add: entries_ok_def)
  show "\<exists>x. dentries s' d = Some x \<and> good_name (d_name x) \<and> ramnodes s' (d_node x) \<noteq> None" if "d \<in> set (E p)" for p d
    using entries_okD [OF assms(1) that] assms(2) [OF that] assms(3) by metis
qed

subsection \<open>Allocating a node\<close>

definition set_prev :: "(ptr \<Rightarrow> ramnode option) \<Rightarrow> ptr \<Rightarrow> ptr \<Rightarrow> ptr \<Rightarrow> ramnode option" where
  "set_prev m p q = m(p := map_option (\<lambda>n. n\<lparr>n_prev := q\<rparr>) (m p))"

lemma set_prev_None: "m p = None \<Longrightarrow> set_prev m p q = m"
  by (simp add: set_prev_def fun_upd_idem)

lemma set_prev_Some: "m p = Some n \<Longrightarrow> set_prev m p q = m(p := Some (n\<lparr>n_prev := q\<rparr>))"
  by (simp add: set_prev_def)

definition fresh_union :: "vtype \<Rightarrow> ptr \<Rightarrow> ptr \<Rightarrow> u8 list option \<Rightarrow> contents" where
  "fresh_union type node dir link = (case type of
       VDIR \<Rightarrow> Dir 0 (if dir = 0 then node else dir) SEQ_START
     | VLNK \<Rightarrow> Lnk (the link)
     | VREG \<Rightarrow> Reg None 0
     | _ \<Rightarrow> Raw)"

definition fresh_node :: "vtype \<Rightarrow> ptr \<Rightarrow> ptr \<Rightarrow> u8 list option \<Rightarrow> ptr \<Rightarrow> ramnode" where
  "fresh_node type node dir link nxt =
     \<lparr>n_prev = 0, n_next = nxt, n_vnode = 0, n_type = type, ramlock = 0, linkcount = (if type = VDIR then 1 else 0),
      n_union = fresh_union type node dir link\<rparr>"

definition node_added :: "ptr \<Rightarrow> ramvfs \<Rightarrow> vtype \<Rightarrow> ptr \<Rightarrow> u8 list option \<Rightarrow> fs \<Rightarrow> fs" where
  "node_added ram rv type dir link s = s\<lparr>next_ptr := Suc (next_ptr s),
     ramvfss := (ramvfss s)(ram := Some (rv\<lparr>rv_nodes := next_ptr s\<rparr>)),
     ramnodes := (set_prev (ramnodes s) (rv_nodes rv) (next_ptr s))
       (next_ptr s := Some (fresh_node type (next_ptr s) dir link (rv_nodes rv)))\<rparr>"

definition link_arg_ok :: "vtype \<Rightarrow> u8 list option \<Rightarrow> bool" where
  "link_arg_ok type link \<longleftrightarrow> (type = VLNK \<longrightarrow> (\<exists>t. link = Some (cstr t) \<and> t \<noteq> [] \<and> 0 \<notin> set t))"

lemma ramfs_alloc_node_eq:
  assumes b: "bounded s" and z: "zeroed s" "\<And>k. length (junk_bytes s k) = k"
    and ram: "ram \<noteq> 0" "ramvfss s ram = Some rv" "ptr_ok (ramnodes s) (rv_nodes rv)" and l: "link_arg_ok type link"
  shows "ramfs_alloc_node ram dir type link s = Inr (next_ptr s, node_added ram rv type dir link s)"
proof -
  note fresh = bounded_fresh [OF b]
  have len: "\<And>k. length (junk_bytes s k) = k" by (rule z(2))
  have ne: "rv_nodes rv \<noteq> next_ptr s" using ram(3) fresh(1,4) by (auto simp: ptr_ok_def)
  have nodes: "(case ramnodes s (rv_nodes rv) of None \<Rightarrow> rv_nodes rv = 0 | Some _ \<Rightarrow> rv_nodes rv \<noteq> 0)"
    using ram(3) bounded_nonzero(1) [OF b] by (auto simp: ptr_ok_def split: option.splits)
  show ?thesis
  proof (cases "ramnodes s (rv_nodes rv)")
    case None
    then show ?thesis using nodes ram z fresh l ne strdup_cstr [of _ "junk_bytes s"] len
      by (cases type) (auto simp: ramfs_alloc_node_def node_added_def fresh_node_def fresh_union_def set_prev_None fs_eval
          Let_def zeroed_def link_arg_ok_def fun_upd_twist cong: ebind_arg_cong)
  next
    case (Some n)
    then show ?thesis using nodes ram z fresh l ne strdup_cstr [of _ "junk_bytes s"] len
      by (cases type) (auto simp: ramfs_alloc_node_def node_added_def fresh_node_def fresh_union_def set_prev_Some fs_eval
          Let_def zeroed_def link_arg_ok_def fun_upd_twist cong: ebind_arg_cong)
  qed
qed

lemma node_added_wf:
  assumes wf: "ramfs_wf s E dots" and rv: "ptr_ok (ramnodes s) (rv_nodes rv)" and dir: "ptr_ok (ramnodes s) dir"
  shows "ramfs_wf (node_added ram rv type dir link s) E (dots(next_ptr s := if type = VDIR then 1 else 0))"
    (is "ramfs_wf ?s E ?dots")
proof -
  note D = ramfs_wfD [OF wf]
  note fresh = bounded_fresh [OF D(1)]
  have E0: "E (next_ptr s) = []" using D(2) fresh(1) by (auto simp: entries_ok_def)
  have sel: "dentries ?s = dentries s" "vnodes ?s = vnodes s" "next_ptr ?s = Suc (next_ptr s)"
    by (simp_all add: node_added_def)
  have dom: "ramnodes ?s q \<noteq> None" if "ramnodes s q \<noteq> None" for q
    using that by (auto simp: node_added_def set_prev_def)
  have new: "ramnodes ?s (next_ptr s) = Some (fresh_node type (next_ptr s) dir link (rv_nodes rv))"
    by (simp add: node_added_def)
  have old: "\<exists>n. ramnodes s p = Some n \<and> (n' = n \<or> n' = n\<lparr>n_prev := next_ptr s\<rparr>)"
    if "ramnodes ?s p = Some n'" "p \<noteq> next_ptr s" for p n'
    using that by (auto simp: node_added_def set_prev_def split: if_splits)
  have ok: "node_ok ?s E p n'" if n': "ramnodes ?s p = Some n'" for p n'
  proof (cases "p = next_ptr s")
    case True
    have "ptr_ok (ramnodes ?s) (rv_nodes rv)" "ptr_ok (ramnodes ?s) dir" using ptr_ok_mono rv dir dom by blast+
    moreover have "n' = fresh_node type (next_ptr s) dir link (rv_nodes rv)" using n' new True by simp
    ultimately show ?thesis using True E0 new
      by (auto simp: node_ok_def fresh_node_def fresh_union_def ptr_ok_def)
  next
    case False
    from old [OF n' False] obtain n where n: "ramnodes s p = Some n" "n' = n \<or> n' = n\<lparr>n_prev := next_ptr s\<rparr>" by blast
    have "ptr_ok (ramnodes ?s) (next_ptr s)" using new by (simp add: ptr_ok_def)
    moreover have "ptr_ok (ramnodes ?s) (n_prev n)" "ptr_ok (ramnodes ?s) (n_next n)"
      using node_okD [OF D(4) [OF n(1)]] ptr_ok_mono dom by blast+
    ultimately show ?thesis
      using n(2) by (intro node_ok_transfer [OF D(4) [OF n(1)]]) (use sel dom in auto)
  qed
  have bnd: "bounded ?s" using D(1) by (auto simp: bounded_def node_added_def set_prev_def split: if_splits)
  have ent: "entries_ok ?s E" by (rule entries_ok_transfer [OF D(2)]) (use sel dom in simp_all)
  have pt: "pointing ?s E p = pointing s E p" for p by (rule pointing_cong) (simp add: sel)
  have "links_ok ?s E ?dots" unfolding links_ok_def
  proof (intro allI impI)
    fix p n' assume n': "ramnodes ?s p = Some n'"
    show "linkcount n' = int (card (pointing ?s E p) + length (E p) + ?dots p)"
    proof (cases "p = next_ptr s")
      case True
      then show ?thesis using n' new E0 pt pointing_none [OF D(2) fresh(1)] by (auto simp: fresh_node_def)
    next
      case False
      with old [OF n'] D(3) pt show ?thesis by (auto simp: links_ok_def)
    qed
  qed
  with bnd ok ent show ?thesis by (simp add: ramfs_wf_def)
qed

subsection \<open>Adding an entry\<close>

definition entry_added :: "ptr \<Rightarrow> ramnode \<Rightarrow> ptr \<Rightarrow> ramnode \<Rightarrow> u8 list \<Rightarrow> fs \<Rightarrow> fs" where
  "entry_added p np node n t s = s\<lparr>next_ptr := Suc (next_ptr s),
     dentries := (dentries s)(next_ptr s := Some \<lparr>d_next = dir_dentry (n_union np), d_node = node,
       d_seq = dir_lastseq (n_union np), d_name = cstr t\<rparr>),
     ramnodes := (ramnodes s)(node := Some (n\<lparr>linkcount := linkcount n + 1\<rparr>),
       p := Some (np\<lparr>n_union := Dir (next_ptr s) (dir_parent (n_union np)) (dir_lastseq (n_union np) + 1),
         linkcount := linkcount np + 1\<rparr>))\<rparr>"

lemma entry_added_eq:
  assumes b: "bounded s" and len: "\<And>k. length (junk_bytes s k) = k"
    and p: "ramnodes s p = Some np" "n_type np = VDIR" "n_union np = Dir de par sq" "ramlock np = 0"
    and n: "ramnodes s node = Some n" "ramlock n = 0" "node \<noteq> p" and t: "t \<noteq> []" "0 \<notin> set t"
  shows "ebind (ramfs_alloc_dentry node (t @ 0 # r) s) (\<lambda>(_, d, s). ebind (ramfs_dir_attach p d s) (\<lambda>(_, s). f s)) =
    f (entry_added p np node n t s)"
proof -
  have "p \<noteq> 0" "node \<noteq> 0" using bounded_nonzero(1) [OF b] p(1) n(1) by blast+
  moreover have "strdup (junk_bytes s) (t @ 0 # r) = Inr (cstr t)"
    using strdup_spec [OF t, of "junk_bytes s"] len by (simp add: cstr_def)
  ultimately show ?thesis using p n bounded_fresh(4) [OF b]
    by (simp add: ramfs_alloc_dentry_def ramfs_dir_attach_def entry_added_def fs_eval as_dir_def Let_def
        fun_upd_twist cong: ebind_arg_cong)
qed

lemma ex_fun_upd: "(\<exists>r. P ((E(p := x)) r)) \<longleftrightarrow> P x \<or> (\<exists>r. r \<noteq> p \<and> P (E r))"
  by (metis fun_upd_apply)

lemma pointing_entry_added:
  assumes "bounded s" "entries_ok s E"
  shows "pointing (entry_added p np node n t s) (E(p := next_ptr s # E p)) q =
    (if q = node then insert (next_ptr s) (pointing s E q) else pointing s E q)"
proof -
  have "enode (entry_added p np node n t s) d = (if d = next_ptr s then node else enode s d)" for d
    by (simp add: enode_def entry_added_def)
  moreover have "d \<noteq> next_ptr s" if "d \<in> set (E r)" for d r
    using entry_old [OF assms that] by simp
  moreover have "(\<exists>r. d \<in> set ((E(p := next_ptr s # E p)) r)) \<longleftrightarrow> d = next_ptr s \<or> (\<exists>r. d \<in> set (E r))" for d
    unfolding ex_fun_upd [of "\<lambda>l. d \<in> set l"] by auto
  ultimately show ?thesis by (auto simp: pointing_def simp del: fun_upd_apply)
qed

lemma entry_added_entries:
  assumes b: "bounded s" and ent: "entries_ok s E" and p: "ramnodes s p = Some np" and n: "ramnodes s node = Some n" and t: "t \<noteq> []" "0 \<notin> set t"
  shows "entries_ok (entry_added p np node n t s) (E(p := next_ptr s # E p))" (is "entries_ok ?s ?E")
  unfolding entries_ok_def
proof (intro conjI allI impI ballI)
  have old: "d \<noteq> next_ptr s" if "d \<in> set (E q)" for d q using entry_old [OF b ent that] by simp
  have dom: "ramnodes ?s q \<noteq> None \<longleftrightarrow> ramnodes s q \<noteq> None" for q using p n by (auto simp: entry_added_def)
  show "?E q = []" if "ramnodes ?s q = None" for q using that dom [of q] ent p by (auto simp: entries_ok_def)
  show "set (?E q) \<inter> set (?E r) = {}" if "q \<noteq> r" for q r using that ent old by (auto simp: entries_ok_def)
  fix q d assume d: "d \<in> set (?E q)"
  show "\<exists>x. dentries ?s d = Some x \<and> good_name (d_name x) \<and> ramnodes ?s (d_node x) \<noteq> None"
  proof (cases "d = next_ptr s")
    case True
    then show ?thesis using t n dom [of node] by (auto simp: entry_added_def)
  next
    case False
    then have "d \<in> set (E q)" "dentries ?s d = dentries s d" using d by (auto simp: entry_added_def split: if_splits)
    then show ?thesis using entries_okD [OF ent] dom by metis
  qed
qed

lemma entry_added_links:
  assumes wf: "ramfs_wf s E dots" and p: "ramnodes s p = Some np" and n: "ramnodes s node = Some n" "node \<noteq> p"
  shows "links_ok (entry_added p np node n t s) (E(p := next_ptr s # E p)) dots" (is "links_ok ?s ?E dots")
  unfolding links_ok_def
proof (intro allI impI)
  note D = ramfs_wfD [OF wf]
  fix q n' assume n': "ramnodes ?s q = Some n'"
  have "next_ptr s \<notin> pointing s E node" using entry_old [OF D(1,2)] by (fastforce simp: pointing_def)
  then have card: "card (pointing ?s ?E q) = card (pointing s E q) + (if q = node then 1 else 0)"
    using pointing_entry_added [OF D(1,2), of p np node n t q] pointing_finite [OF D(1,2)] by simp
  show "linkcount n' = int (card (pointing ?s ?E q) + length (?E q) + dots q)"
    using n' n p card D(3) by (auto simp: links_ok_def entry_added_def split: if_splits)
qed

lemma entry_added_wf:
  assumes wf: "ramfs_wf s E dots"
    and p: "ramnodes s p = Some np" "n_type np = VDIR" and n: "ramnodes s node = Some n" "node \<noteq> p"
    and t: "t \<noteq> []" "0 \<notin> set t"
  shows "ramfs_wf (entry_added p np node n t s) (E(p := next_ptr s # E p)) dots" (is "ramfs_wf ?s ?E dots")
proof -
  note D = ramfs_wfD [OF wf]
  note fresh = bounded_fresh [OF D(1)]
  obtain de par sq where u: "n_union np = Dir de par sq" "dchain (dentries s) de (E p)" "ramnodes s par \<noteq> None"
    using dir_nodeE [OF wf p] by metis
  have old: "d \<noteq> next_ptr s" if "d \<in> set (E q)" for d q
    using entry_old [OF D(1,2) that] by simp
  have sel: "vnodes ?s = vnodes s" by (simp add: entry_added_def)
  have dents: "dentries ?s d = dentries s d" if "d \<in> set (E q)" for d q using old [OF that] by (simp add: entry_added_def)
  have dom: "ramnodes ?s q \<noteq> None \<longleftrightarrow> ramnodes s q \<noteq> None" for q using p(1) n(1) by (auto simp: entry_added_def)
  have ch: "dchain (dentries ?s) de (E p)" using u(2) dchain_cong [of "E p" "dentries ?s" "dentries s"] dents by blast
  have at_p: "ramnodes ?s p = Some (np\<lparr>n_union := Dir (next_ptr s) par (sq + 1), linkcount := linkcount np + 1\<rparr>)"
    using u(1) by (simp add: entry_added_def)
  have away: "\<exists>n. ramnodes s q = Some n \<and> (n' = n \<or> q = node \<and> n' = n\<lparr>linkcount := linkcount n + 1\<rparr>)"
    if "ramnodes ?s q = Some n'" "q \<noteq> p" for q n'
    using that n by (auto simp: entry_added_def split: if_splits)
  have ok: "node_ok ?s ?E q n'" if n': "ramnodes ?s q = Some n'" for q n'
  proof (cases "q = p")
    case True
    then have eq: "n' = np\<lparr>n_union := Dir (next_ptr s) par (sq + 1), linkcount := linkcount np + 1\<rparr>" using n' at_p by simp
    have np: "node_ok s E p np" by (rule D(4) [OF p(1)])
    have "dchain (dentries ?s) (next_ptr s) (?E p)" using ch fresh(4) u(1) by (simp add: entry_added_def)
    moreover have "ramnodes ?s par \<noteq> None" using u(3) dom by simp
    moreover have "ptr_ok (ramnodes ?s) (n_prev np)" "ptr_ok (ramnodes ?s) (n_next np)"
      using node_okD [OF np] dom by (auto simp: ptr_ok_def)
    ultimately show ?thesis using np True p(2) sel by (simp add: node_ok_def eq)
  next
    case False
    from away [OF n' False] obtain m where m: "ramnodes s q = Some m" "n' = m \<or> n' = m\<lparr>linkcount := linkcount m + 1\<rparr>" by blast
    have "ptr_ok (ramnodes ?s) (n_prev m)" "ptr_ok (ramnodes ?s) (n_next m)"
      using node_okD [OF D(4) [OF m(1)]] dom by (auto simp: ptr_ok_def)
    then show ?thesis
      using m(2) by (intro node_ok_transfer [OF D(4) [OF m(1)]]) (use sel dom dents False in auto)
  qed
  have bnd: "bounded ?s" using D(1) p(1) n(1) unfolding bounded_def by (auto simp: entry_added_def split: if_splits)
  have "entries_ok ?s ?E" "links_ok ?s ?E dots" using entry_added_entries [OF D(1,2) p(1) n(1) t] entry_added_links [OF wf p(1) n] by simp_all
  with bnd ok show ?thesis by (simp add: ramfs_wf_def)
qed

subsection \<open>The vnode of a node\<close>

definition fresh_vnode :: "ptr \<Rightarrow> ptr \<Rightarrow> ramnode \<Rightarrow> vnode" where
  "fresh_vnode vfs ino n = \<lparr>v_vfs = vfs, v_mountedhere = 0, v_type = n_type n, v_refcount = 1,
     v_flags = (if n_type n = VDIR \<and> dir_parent (n_union n) = ino then VROOT else 0), v_lock = 0, v_data = ino\<rparr>"

definition got_vnode :: "ptr \<Rightarrow> ptr \<Rightarrow> ramnode \<Rightarrow> fs \<Rightarrow> ptr \<times> fs" where
  "got_vnode vfs ino n s =
     (if n_vnode n \<noteq> 0
      then (n_vnode n, s\<lparr>vnodes := (vnodes s)(n_vnode n := map_option (\<lambda>v. v\<lparr>v_refcount := v_refcount v + 1\<rparr>) (vnodes s (n_vnode n)))\<rparr>)
      else (next_ptr s, s\<lparr>next_ptr := Suc (next_ptr s), ramnodes := (ramnodes s)(ino := Some (n\<lparr>n_vnode := next_ptr s\<rparr>)),
              vnodes := (vnodes s)(next_ptr s := Some (fresh_vnode vfs ino n))\<rparr>))"

lemma ramfs_vget_eq:
  assumes b: "bounded s" and z: "zeroed s" and n: "ramnodes s ino = Some n" "ramlock n = 0"
    and u: "n_type n = VDIR \<Longrightarrow> n_union n = Dir de par sq"
    and v: "n_vnode n \<noteq> 0 \<Longrightarrow> \<exists>v. vnodes s (n_vnode n) = Some v \<and> v_lock v = 0"
  shows "ramfs_vget vfs ino s = Inr (0, got_vnode vfs ino n s)"
proof (cases "n_vnode n = 0")
  case True
  then show ?thesis using n u z bounded_nonzero(1) [OF b n(1)] bounded_fresh(4) [OF b]
    by (auto simp: ramfs_vget_def got_vnode_def fresh_vnode_def fs_eval as_dir_def Let_def zeroed_def
        cong: ebind_arg_cong)
next
  case False
  with v obtain w where "vnodes s (n_vnode n) = Some w" "v_lock w = 0" by blast
  then show ?thesis using False n bounded_nonzero(1) [OF b n(1)]
    by (simp add: ramfs_vget_def got_vnode_def fs_eval fun_upd_idem cong: ebind_arg_cong)
qed

lemma got_vnode_sel [simp]:
  "dentries (snd (got_vnode vfs ino n s)) = dentries s" "mounts (snd (got_vnode vfs ino n s)) = mounts s"
  "ramvfss (snd (got_vnode vfs ino n s)) = ramvfss s" "junk_bytes (snd (got_vnode vfs ino n s)) = junk_bytes s"
  "zeroed (snd (got_vnode vfs ino n s)) = zeroed s"
  by (simp_all add: got_vnode_def zeroed_def)

lemma got_vnode_nodes:
  assumes "ramnodes s ino = Some n"
  shows "ramnodes (snd (got_vnode vfs ino n s)) =
    (ramnodes s)(ino := Some (n\<lparr>n_vnode := fst (got_vnode vfs ino n s)\<rparr>))"
  using assms by (auto simp: got_vnode_def fun_upd_idem)

lemma got_vnode_wf:
  assumes wf: "ramfs_wf s E dots" and n: "ramnodes s ino = Some n"
  shows "ramfs_wf (snd (got_vnode vfs ino n s)) E dots" (is "ramfs_wf ?s E dots")
proof -
  note D = ramfs_wfD [OF wf]
  let ?vn = "fst (got_vnode vfs ino n s)"
  have nodes: "ramnodes ?s = (ramnodes s)(ino := Some (n\<lparr>n_vnode := ?vn\<rparr>))" by (rule got_vnode_nodes [OF n])
  have dom: "ramnodes ?s q \<noteq> None \<longleftrightarrow> ramnodes s q \<noteq> None" for q using n by (simp add: nodes)
  have ino: "node_ok s E ino n" by (rule D(4) [OF n])
  have vold: "\<exists>w'. vnodes ?s q = Some w' \<and> v_data w' = v_data w \<and> v_type w' = v_type w" if "vnodes s q = Some w" for q w
    using that bounded_fresh(3) [OF D(1)] by (auto simp: got_vnode_def)
  have vn: "\<exists>w. vnodes ?s ?vn = Some w \<and> v_data w = ino \<and> v_type w = n_type n"
    using ino by (auto simp: got_vnode_def fresh_vnode_def node_ok_def)
  have ok: "node_ok ?s E q n'" if n': "ramnodes ?s q = Some n'" for q n'
  proof -
    obtain m where m: "ramnodes s q = Some m" "n' = m \<or> q = ino \<and> m = n \<and> n' = n\<lparr>n_vnode := ?vn\<rparr>"
      using n' n by (auto simp: nodes split: if_splits)
    have "ptr_ok (ramnodes ?s) (n_prev m)" "ptr_ok (ramnodes ?s) (n_next m)"
      using node_okD [OF D(4) [OF m(1)]] dom by (auto simp: ptr_ok_def)
    then have tr: "node_ok ?s E q m" by (intro node_ok_transfer [OF D(4) [OF m(1)]]) (use dom vold in auto)
    then show ?thesis using m(2) vn by (auto simp: node_ok_def)
  qed
  have bnd: "bounded ?s" using D(1) n unfolding bounded_def
    by (auto simp: got_vnode_def split: if_splits)
  have ent: "entries_ok ?s E" by (rule entries_ok_transfer [OF D(2)]) (use dom in simp_all)
  have "pointing ?s E q = pointing s E q" for q by (rule pointing_cong) simp
  then have "links_ok ?s E dots" using D(3) n by (auto simp: links_ok_def nodes split: if_splits)
  with bnd ok ent show ?thesis by (simp add: ramfs_wf_def)
qed

subsection \<open>Directories as association lists\<close>

text \<open>The abstract view of a directory: names with the nodes they stand for, the newest first.\<close>

definition listing :: "fs \<Rightarrow> (ptr \<Rightarrow> ptr list) \<Rightarrow> ptr \<Rightarrow> (u8 list \<times> ptr) list" where
  "listing s E p = map (\<lambda>d. (ename s d, enode s d)) (E p)"

lemma listing_cong: "(\<And>d. d \<in> set (E p) \<Longrightarrow> dentries s' d = dentries s d) \<Longrightarrow> listing s' E p = listing s E p"
  by (simp add: listing_def ename_def enode_def)

lemma listing_find:
  "map_of (listing s E p) t = map_option (enode s) (find (\<lambda>d. ename s d = t) (E p))"
proof -
  have "map_of (map (\<lambda>d. (ename s d, enode s d)) ds) t = map_option (enode s) (find (\<lambda>d. ename s d = t) ds)" for ds
    by (induction ds) auto
  then show ?thesis by (simp add: listing_def)
qed

lemma node_added_sel [simp]:
  "dentries (node_added ram rv type dir link s) = dentries s" "vnodes (node_added ram rv type dir link s) = vnodes s"
  "mounts (node_added ram rv type dir link s) = mounts s" "junk_bytes (node_added ram rv type dir link s) = junk_bytes s"
  "zeroed (node_added ram rv type dir link s) = zeroed s"
  "ramvfss (node_added ram rv type dir link s) = (ramvfss s)(ram := Some (rv\<lparr>rv_nodes := next_ptr s\<rparr>))"
  by (simp_all add: node_added_def zeroed_def)

lemma entry_added_sel [simp]:
  "vnodes (entry_added p np node n t s) = vnodes s" "mounts (entry_added p np node n t s) = mounts s"
  "junk_bytes (entry_added p np node n t s) = junk_bytes s" "zeroed (entry_added p np node n t s) = zeroed s"
  "ramvfss (entry_added p np node n t s) = ramvfss s"
  by (simp_all add: entry_added_def zeroed_def)

lemma listing_entry_added:
  assumes "bounded s" "entries_ok s E"
  shows "listing (entry_added p np node n t s) (E(p := next_ptr s # E p)) p = (t, node) # listing s E p"
    and "q \<noteq> p \<Longrightarrow> listing (entry_added p np node n t s) (E(p := next_ptr s # E p)) q = listing s E q"
proof -
  have "dentries (entry_added p np node n t s) d = dentries s d" if "d \<in> set (E r)" for d r
    using entry_old [OF assms that] by (simp add: entry_added_def)
  then have old: "listing (entry_added p np node n t s) E r = listing s E r" for r by (intro listing_cong) blast
  have new: "ename (entry_added p np node n t s) (next_ptr s) = t" "enode (entry_added p np node n t s) (next_ptr s) = node"
    by (simp_all add: ename_def enode_def entry_added_def)
  show "listing (entry_added p np node n t s) (E(p := next_ptr s # E p)) p = (t, node) # listing s E p"
    using old [of p] new by (simp add: listing_def)
  show "listing (entry_added p np node n t s) (E(p := next_ptr s # E p)) q = listing s E q" if "q \<noteq> p"
    using old [of q] that by (simp add: listing_def)
qed

lemma unlocked_node_added: "unlocked s \<Longrightarrow> unlocked (node_added ram rv type dir link s)"
  by (auto simp: unlocked_def node_added_def set_prev_def fresh_node_def)

lemma unlocked_entry_added:
  "unlocked s \<Longrightarrow> ramnodes s p = Some np \<Longrightarrow> ramnodes s node = Some n \<Longrightarrow> unlocked (entry_added p np node n t s)"
  by (auto simp: unlocked_def entry_added_def)

lemma unlocked_got_vnode: "unlocked s \<Longrightarrow> ramnodes s ino = Some n \<Longrightarrow> unlocked (snd (got_vnode vfs ino n s))"
  by (auto simp: unlocked_def got_vnode_nodes)

subsection \<open>Creating a file\<close>

definition mount_ok :: "fs \<Rightarrow> ptr \<Rightarrow> bool" where
  "mount_ok s vfs \<longleftrightarrow> (\<exists>m rv. vfs \<noteq> 0 \<and> mounts s vfs = Some m \<and> m_data m \<noteq> 0 \<and> ramvfss s (m_data m) = Some rv \<and>
     ptr_ok (ramnodes s) (rv_nodes rv))"

definition dir_vnode :: "fs \<Rightarrow> ptr \<Rightarrow> ptr \<Rightarrow> bool" where
  "dir_vnode s vd p \<longleftrightarrow> (\<exists>v n. vd \<noteq> 0 \<and> vnodes s vd = Some v \<and> v_type v = VDIR \<and> v_data v = p \<and>
     ramnodes s p = Some n \<and> n_type n = VDIR \<and> mount_ok s (v_vfs v))"

definition kalloc_ok :: "fs \<Rightarrow> bool" where
  "kalloc_ok s \<longleftrightarrow> zeroed s \<and> (\<forall>k. length (junk_bytes s k) = k)"

text \<open>
  What no operation on names touches: the globals, the roots of the mounts, the vnodes that nodes point to, the contents of
  everything but directories.
\<close>

definition kept :: "fs \<Rightarrow> fs \<Rightarrow> bool" where
  "kept s s' \<longleftrightarrow> rootfs s' = rootfs s \<and> rootvn s' = rootvn s \<and>
     (\<forall>r. map_option rv_root (ramvfss s' r) = map_option rv_root (ramvfss s r)) \<and>
     (\<forall>q n. ramnodes s q = Some n \<longrightarrow> (\<exists>n'. ramnodes s' q = Some n' \<and> n_vnode n' = n_vnode n \<and> n_type n' = n_type n \<and>
        (n_type n \<noteq> VDIR \<longrightarrow> n_union n' = n_union n)))"

lemma kept_trans: "kept s s' \<Longrightarrow> kept s' s'' \<Longrightarrow> kept s s''"
  unfolding kept_def by metis

text \<open>The outcome of creating a file: node and vnode are new, the directory has one more name.\<close>

definition file_created :: "fs \<Rightarrow> (ptr \<Rightarrow> ptr list) \<Rightarrow> (ptr \<Rightarrow> nat) \<Rightarrow> ptr \<Rightarrow> u8 list \<Rightarrow> vtype \<Rightarrow> ptr \<Rightarrow>
    fs \<Rightarrow> (ptr \<Rightarrow> ptr list) \<Rightarrow> (ptr \<Rightarrow> nat) \<Rightarrow> ptr \<Rightarrow> ptr \<Rightarrow> bool" where
  "file_created s E dots p t type vfs s' E' dots' node vn \<longleftrightarrow>
     ramfs_wf s' E' dots' \<and> unlocked s' \<and> kalloc_ok s' \<and>
     ramnodes s node = None \<and> vnodes s vn = None \<and>
     listing s' E' p = (t, node) # listing s E p \<and> (\<forall>q. q \<noteq> p \<longrightarrow> listing s' E' q = listing s E q) \<and>
     vnodes s' vn = Some \<lparr>v_vfs = vfs, v_mountedhere = 0, v_type = type, v_refcount = 1, v_flags = 0, v_lock = 0, v_data = node\<rparr> \<and>
     (\<forall>w. w \<noteq> vn \<longrightarrow> vnodes s' w = vnodes s w) \<and>
     (\<exists>n. ramnodes s' node = Some n \<and> n_type n = type \<and> n_vnode n = vn \<and> linkcount n = (if type = VDIR then 2 else 1) \<and>
        (type = VDIR \<longrightarrow> n_union n = Dir 0 p SEQ_START) \<and> (type = VREG \<longrightarrow> n_union n = Reg None 0)) \<and>
     dots' = dots(node := if type = VDIR then 1 else 0) \<and>
     (\<forall>n. ramnodes s p = Some n \<longrightarrow> (\<exists>n'. ramnodes s' p = Some n' \<and> n_type n' = n_type n \<and> linkcount n' = linkcount n + 1)) \<and>
     mounts s' = mounts s \<and> (\<forall>m. mount_ok s m \<longrightarrow> mount_ok s' m) \<and> kept s s'"

text \<open>The same before the vnode exists: the node \<open>n\<close> is the next pointer of \<open>s\<close>.\<close>

definition file_linked :: "fs \<Rightarrow> (ptr \<Rightarrow> ptr list) \<Rightarrow> (ptr \<Rightarrow> nat) \<Rightarrow> ptr \<Rightarrow> u8 list \<Rightarrow> vtype \<Rightarrow>
    fs \<Rightarrow> (ptr \<Rightarrow> ptr list) \<Rightarrow> (ptr \<Rightarrow> nat) \<Rightarrow> ramnode \<Rightarrow> bool" where
  "file_linked s E dots p t type s' E' dots' n \<longleftrightarrow> dots' = dots(next_ptr s := if type = VDIR then 1 else 0) \<and>
     ramfs_wf s' E' dots' \<and> unlocked s' \<and> kalloc_ok s' \<and>
     listing s' E' p = (t, next_ptr s) # listing s E p \<and> (\<forall>q. q \<noteq> p \<longrightarrow> listing s' E' q = listing s E q) \<and>
     ramnodes s' (next_ptr s) = Some n \<and> n_type n = type \<and> n_vnode n = 0 \<and> ramlock n = 0 \<and>
     (type = VDIR \<longrightarrow> n_union n = Dir 0 p SEQ_START) \<and> (type = VREG \<longrightarrow> n_union n = Reg None 0) \<and> linkcount n = (if type = VDIR then 2 else 1) \<and>
     (\<forall>n. ramnodes s p = Some n \<longrightarrow> (\<exists>n'. ramnodes s' p = Some n' \<and> n_type n' = n_type n \<and> linkcount n' = linkcount n + 1)) \<and>
     vnodes s' = vnodes s \<and> mounts s' = mounts s \<and> (\<forall>m. mount_ok s m \<longrightarrow> mount_ok s' m) \<and> kept s s'"

lemma mount_ok_mono:
  assumes "mount_ok s m" "mounts s' = mounts s" "\<And>q. ramnodes s q \<noteq> None \<Longrightarrow> ramnodes s' q \<noteq> None"
    and "\<And>r rv. ramvfss s r = Some rv \<Longrightarrow> ptr_ok (ramnodes s') (rv_nodes rv) \<Longrightarrow>
      \<exists>rv'. ramvfss s' r = Some rv' \<and> ptr_ok (ramnodes s') (rv_nodes rv')"
  shows "mount_ok s' m"
proof -
  from assms(1) obtain k rv where k: "m \<noteq> 0" "mounts s m = Some k" "m_data k \<noteq> 0" "ramvfss s (m_data k) = Some rv"
    "ptr_ok (ramnodes s) (rv_nodes rv)" by (auto simp: mount_ok_def)
  from assms(4) [OF k(4) ptr_ok_mono [OF k(5) assms(3)]] k assms(2) show ?thesis by (auto simp: mount_ok_def)
qed

lemma file_linked_run:
  assumes wf: "ramfs_wf s E dots" "unlocked s" "kalloc_ok s" and p: "ramnodes s p = Some np" "n_type np = VDIR"
    and ram: "ram \<noteq> 0" "ramvfss s ram = Some rv" "ptr_ok (ramnodes s) (rv_nodes rv)"
    and t: "t \<noteq> []" "0 \<notin> set t" and l: "link_arg_ok type target"
  shows "\<exists>s' E' dots' n. (\<forall>f. ebind (ramfs_alloc_node ram p type target s) (\<lambda>(node, s).
      ebind (ramfs_alloc_dentry node (t @ [0]) s) (\<lambda>(_, d, s). ebind (ramfs_dir_attach p d s) (\<lambda>(_, s). f node s))) =
      f (next_ptr s) s') \<and> file_linked s E dots p t type s' E' dots' n"
proof -
  note D = ramfs_wfD [OF wf(1)]
  have z: "zeroed s" and len: "\<And>k. length (junk_bytes s k) = k" using wf(3) by (auto simp: kalloc_ok_def)
  let ?node = "next_ptr s" and ?s1 = "node_added ram rv type p target s"
  let ?dots = "dots(?node := if type = VDIR then 1 else 0)"
  have a: "ramfs_alloc_node ram p type target s = Inr (?node, ?s1)"
    by (rule ramfs_alloc_node_eq [OF D(1) z len ram l])
  have p0: "p \<noteq> ?node" "p \<noteq> 0" using bounded_nonzero(1) [OF D(1) p(1)] by auto
  have wf1: "ramfs_wf ?s1 E ?dots" using node_added_wf [OF wf(1) ram(3)] p(1) by (simp add: ptr_ok_def)
  have u1: "unlocked ?s1" by (rule unlocked_node_added [OF wf(2)])
  obtain np1 where np1: "ramnodes ?s1 p = Some np1" "n_type np1 = VDIR" "linkcount np1 = linkcount np"
    using p p0 by (cases "p = rv_nodes rv") (auto simp: node_added_def set_prev_def)
  have n1: "ramnodes ?s1 ?node = Some (fresh_node type ?node p target (rv_nodes rv))" (is "_ = Some ?n1")
    by (simp add: node_added_def)
  obtain de par sq where u: "n_union np1 = Dir de par sq" using dir_nodeE [OF wf1 np1(1,2)] by metis
  note D1 = ramfs_wfD [OF wf1]
  let ?s2 = "entry_added p np1 ?node ?n1 t ?s1" and ?E2 = "E(p := next_ptr ?s1 # E p)"
  have link: "ebind (ramfs_alloc_dentry ?node (t @ [0]) ?s1) (\<lambda>(_, d, s). ebind (ramfs_dir_attach p d s) (\<lambda>(_, s). f s)) = f ?s2" for f
    using entry_added_eq [OF D1(1) _ np1(1,2) u _ n1 _ _ t, of "[]" f] len u1 np1(1) n1 p0(1)
    by (auto simp: unlocked_def)
  have n2: "ramnodes ?s2 ?node = Some (?n1\<lparr>linkcount := linkcount ?n1 + 1\<rparr>)" (is "_ = Some ?n2")
    and p2: "\<exists>n'. ramnodes ?s2 p = Some n' \<and> n_type n' = n_type np \<and> linkcount n' = linkcount np + 1"
    using p0 np1 p(2) by (simp_all add: entry_added_def)
  have ty: "n_type ?n2 = type" "n_vnode ?n2 = 0" "ramlock ?n2 = 0"
    "type = VDIR \<longrightarrow> n_union ?n2 = Dir 0 p SEQ_START" "type = VREG \<longrightarrow> n_union ?n2 = Reg None 0" "linkcount ?n2 = (if type = VDIR then 2 else 1)"
    using p0(2) by (simp_all add: fresh_node_def fresh_union_def)
  have l1: "listing ?s1 E q = listing s E q" for q by (rule listing_cong) simp
  have mo: "mount_ok ?s2 k" if "mount_ok s k" for k
  proof (rule mount_ok_mono [OF that])
    show "ramnodes ?s2 q \<noteq> None" if "ramnodes s q \<noteq> None" for q
      using that np1(1) n1 by (auto simp: entry_added_def node_added_def set_prev_def)
    show "\<exists>rv'. ramvfss ?s2 r = Some rv' \<and> ptr_ok (ramnodes ?s2) (rv_nodes rv')"
      if "ramvfss s r = Some rv" "ptr_ok (ramnodes ?s2) (rv_nodes rv)" for r rv
      using that n2 by (auto simp: ptr_ok_def)
  qed simp
  have "kept s ?s1" using ram(2) bounded_fresh(1) [OF D(1)] by (auto simp: kept_def node_added_def set_prev_def)
  moreover have "kept ?s1 ?s2" using np1(1,2) n1 by (auto simp: kept_def entry_added_def)
  ultimately have kp: "kept s ?s2" by (rule kept_trans)
  have "ramfs_wf ?s2 ?E2 ?dots" by (rule entry_added_wf [OF wf1 np1(1,2) n1 _ t]) (use p0 in simp)
  then have "file_linked s E dots p t type ?s2 ?E2 ?dots ?n2"
    unfolding file_linked_def using unlocked_entry_added [OF u1 np1(1) n1] listing_entry_added [OF D1(1,2)] l1 n2 p2 ty wf(3) p(1) mo kp
    by (auto simp: kalloc_ok_def simp del: fun_upd_apply)
  with a link show ?thesis by (intro exI conjI) auto
qed

lemma ramfs_alloc_file_spec:
  assumes wf: "ramfs_wf s E dots" "unlocked s" "kalloc_ok s" and v: "vnodes s vd = Some v" "dir_vnode s vd p"
    and t: "name = t @ r" "t \<noteq> []" "0 \<notin> set t" and l: "link_arg_ok type target" "target \<noteq> None \<longrightarrow> type = VLNK"
  shows "\<exists>s' E' dots' node vn. ramfs_alloc_file vd name (length t) type target s = Inr (0, Some vn, s') \<and>
    file_created s E dots p t type (v_vfs v) s' E' dots' node vn"
proof -
  note D = ramfs_wfD [OF wf(1)]
  from v obtain np where vd: "vd \<noteq> 0" "v_type v = VDIR" "v_data v = p" "ramnodes s p = Some np" "n_type np = VDIR"
    and mo: "mount_ok s (v_vfs v)" by (auto simp: dir_vnode_def)
  from mo obtain m rv where m: "v_vfs v \<noteq> 0" "mounts s (v_vfs v) = Some m" "m_data m \<noteq> 0" "ramvfss s (m_data m) = Some rv"
    "ptr_ok (ramnodes s) (rv_nodes rv)" by (auto simp: mount_ok_def)
  let ?node = "next_ptr s"
  obtain s2 E2 dots2 n2 where run2: "\<And>f :: ptr \<Rightarrow> fs \<Rightarrow> (int \<times> ptr option \<times> fs) result. ebind (ramfs_alloc_node (m_data m) p type target s) (\<lambda>(node, s).
      ebind (ramfs_alloc_dentry node (t @ [0]) s) (\<lambda>(_, d, s). ebind (ramfs_dir_attach p d s) (\<lambda>(_, s). f node s))) = f ?node s2"
    and "file_linked s E dots p t type s2 E2 dots2 n2"
    using file_linked_run [OF wf vd(4,5) m(3-5) t(2,3) l(1)] by blast
  then have L: "ramfs_wf s2 E2 dots2" "unlocked s2" "kalloc_ok s2" "listing s2 E2 p = (t, ?node) # listing s E p"
    "\<forall>q. q \<noteq> p \<longrightarrow> listing s2 E2 q = listing s E q" "ramnodes s2 ?node = Some n2" "n_type n2 = type" "n_vnode n2 = 0"
    "ramlock n2 = 0" "type = VDIR \<Longrightarrow> n_union n2 = Dir 0 p SEQ_START" "linkcount n2 = (if type = VDIR then 2 else 1)"
    "\<exists>n'. ramnodes s2 p = Some n' \<and> n_type n' = n_type np \<and> linkcount n' = linkcount np + 1"
    "vnodes s2 = vnodes s" "mounts s2 = mounts s" "\<And>k. mount_ok s k \<Longrightarrow> mount_ok s2 k"
    "dots2 = dots(?node := if type = VDIR then 1 else 0)" "kept s s2" "type = VREG \<Longrightarrow> n_union n2 = Reg None 0" using vd(4) unfolding file_linked_def by blast+
  note D2 = ramfs_wfD [OF L(1)]
  let ?s3 = "snd (got_vnode (v_vfs v) ?node n2 s2)"
  have vn: "fst (got_vnode (v_vfs v) ?node n2 s2) = next_ptr s2" using L(8) by (simp add: got_vnode_def)
  have g: "ramfs_vget (v_vfs v) ?node s2 = Inr (0, next_ptr s2, ?s3)"
    using ramfs_vget_eq [OF D2(1) _ L(6,9), of 0 p SEQ_START "v_vfs v"] L vn by (simp add: prod_eq_iff kalloc_ok_def)
  have dup: "strldup (junk_bytes s) name (length t) = Inr (t @ [0])"
    using strldup_spec [of "length t" name "junk_bytes s"] wf(3) t(1) by (simp add: kalloc_ok_def)
  have guard: "(v_type v \<noteq> VDIR \<or> (target \<noteq> None \<and> type \<noteq> VLNK)) = False" using vd(2) l(2) by blast
  have run: "ramfs_alloc_file vd name (length t) type target s = Inr (0, Some (next_ptr s2), ?s3)"
    unfolding ramfs_alloc_file_def deref_Some [of vd "vnodes s", OF vd(1) v(1)] deref_Some [of "v_vfs v" "mounts s", OF m(1,2)]
      ebind_Inr dup guard if_False vd(3)
    by (rule trans [OF run2 [of "\<lambda>node s. ebind (ramfs_vget (v_vfs v) node s) (\<lambda>(_, vn, s). Inr (0, Some vn, s))"]])
      (simp add: g)
  have ls: "listing ?s3 E2 q = listing s2 E2 q" for q by (rule listing_cong) simp
  have fv: "fresh_vnode (v_vfs v) ?node n2 =
    \<lparr>v_vfs = v_vfs v, v_mountedhere = 0, v_type = type, v_refcount = 1, v_flags = 0, v_lock = 0, v_data = ?node\<rparr>"
    using L(7,10) bounded_nonzero(1) [OF D(1) vd(4)] by (auto simp: fresh_vnode_def)
  have v3: "vnodes ?s3 = (vnodes s)(next_ptr s2 := Some (fresh_vnode (v_vfs v) ?node n2))"
    using L(8,13) by (simp add: got_vnode_def)
  have "ramnodes ?s3 = (ramnodes s2)(?node := Some (n2\<lparr>n_vnode := next_ptr s2\<rparr>))"
    using got_vnode_nodes [OF L(6)] vn by simp
  moreover have "p \<noteq> ?node" using bounded_nonzero(1) [OF D(1) vd(4)] by simp
  moreover have "vnodes s (next_ptr s2) = None" using bounded_fresh(3) [OF D2(1)] L(13) by simp
  moreover have "mount_ok ?s3 k" if "mount_ok s k" for k
    by (rule mount_ok_mono [OF L(15) [OF that]]) (use got_vnode_nodes [OF L(6)] in auto)
  moreover have "kept s ?s3"
    using L(17) got_vnode_nodes [OF L(6), of "v_vfs v"] bounded_fresh(1) [OF D(1)] by (auto simp: kept_def got_vnode_def)
  ultimately have "file_created s E dots p t type (v_vfs v) ?s3 E2 dots2 ?node (next_ptr s2)"
    unfolding file_created_def using got_vnode_wf [OF L(1,6)] unlocked_got_vnode [OF L(2,6)] bounded_fresh(1) [OF D(1)]
      L(3-7,10-12,14,16,18) ls v3 fv vd(4) by (auto simp: kalloc_ok_def)
  with run show ?thesis by blast
qed

subsection \<open>Looking up a name\<close>

definition lock_node :: "ptr \<Rightarrow> u32 \<Rightarrow> fs \<Rightarrow> fs" where
  "lock_node p l s = s\<lparr>ramnodes := (ramnodes s)(p := map_option (\<lambda>n. n\<lparr>ramlock := l\<rparr>) (ramnodes s p))\<rparr>"

lemma lock_node_unlock:
  assumes "ramnodes s p = Some n" "ramlock n = 0"
  shows "lock_node p 0 (lock_node p 1 s) = s"
  using assms by (simp add: lock_node_def fun_upd_idem)

lemma acquire_node_eq:
  "p \<noteq> 0 \<Longrightarrow> ramnodes s p = Some n \<Longrightarrow> ramlock n = 0 \<Longrightarrow> acquire_node p s = Inr (lock_node p 1 s)"
  by (simp add: fs_eval lock_node_def)

lemma release_node_eq: "p \<noteq> 0 \<Longrightarrow> ramnodes s p = Some n \<Longrightarrow> release_node p s = Inr (lock_node p 0 s)"
  by (simp add: fs_eval lock_node_def)

lemma got_vnode_lock:
  assumes "ramnodes s p = Some n" "ramlock n = 0" "ino \<noteq> p"
  shows "lock_node p 0 (snd (got_vnode vfs ino m (lock_node p 1 s))) = snd (got_vnode vfs ino m s)"
    "fst (got_vnode vfs ino m (lock_node p 1 s)) = fst (got_vnode vfs ino m s)"
  using assms by (auto simp: got_vnode_def lock_node_def fun_upd_twist fun_upd_idem)

lemma lock_node_sel [simp]:
  "dentries (lock_node p l s) = dentries s" "vnodes (lock_node p l s) = vnodes s" "next_ptr (lock_node p l s) = next_ptr s"
  "zeroed (lock_node p l s) = zeroed s" "mounts (lock_node p l s) = mounts s" "junk_bytes (lock_node p l s) = junk_bytes s"
  by (simp_all add: lock_node_def zeroed_def)

lemma bounded_lock_node: "bounded s \<Longrightarrow> bounded (lock_node p l s)"
  unfolding bounded_def by (auto simp: lock_node_def split: if_splits)

text \<open>The entry that \<open>ramfs_lookup\<close> settles on: the first one whose name starts with the component.\<close>

definition lookup_match :: "fs \<Rightarrow> (ptr \<Rightarrow> ptr list) \<Rightarrow> ptr \<Rightarrow> u8 list \<Rightarrow> ptr option" where
  "lookup_match s E p t = find (\<lambda>d. take (length t) (ename s d) = t) (E p)"

text \<open>A vnode whose lock is free, or a node that has no vnode yet.\<close>

definition vnode_free :: "fs \<Rightarrow> ramnode \<Rightarrow> bool" where
  "vnode_free s n \<longleftrightarrow> (n_vnode n \<noteq> 0 \<longrightarrow> (\<exists>v. vnodes s (n_vnode n) = Some v \<and> v_lock v = 0))"

lemma ramfs_lookup_spec:
  assumes wf: "ramfs_wf s E dots" "unlocked s" "zeroed s" and v: "vnodes s vd = Some v" "dir_vnode s vd p"
    and u: "u \<noteq> []" "0 \<notin> set u" "u \<noteq> bytes ''.''" "u \<noteq> bytes ''..''" "u = t @ r"
  shows "lookup_match s E p t = None \<Longrightarrow> ramfs_lookup vd (u @ 0 # q) (length t) s = Inr (- ENOENT, Some 0, s)"
    and "lookup_match s E p t = Some d \<Longrightarrow> enode s d \<noteq> p \<Longrightarrow> ramnodes s (enode s d) = Some n \<Longrightarrow> vnode_free s n \<Longrightarrow>
      ramfs_lookup vd (u @ 0 # q) (length t) s = Inr (0, Some (fst (got_vnode (v_vfs v) (enode s d) n s)),
        snd (got_vnode (v_vfs v) (enode s d) n s))"
proof -
  note D = ramfs_wfD [OF wf(1)]
  from v obtain np where vd: "vd \<noteq> 0" "v_type v = VDIR" "v_data v = p" "ramnodes s p = Some np" "n_type np = VDIR"
    by (auto simp: dir_vnode_def)
  obtain de par sq where c: "n_union np = Dir de par sq" "dchain (dentries s) de (E p)" "p \<noteq> 0"
    "length (E p) < fs_fuel s" "\<forall>d \<in> set (E p). good_name (d_name (the (dentries s d)))"
    using dir_nodeE [OF wf(1) vd(4,5)] by metis
  have lk: "ramlock np = 0" using wf(2) vd(4) by (simp add: unlocked_def)
  have b0: "bytes ''.'' \<noteq> []" "0 \<notin> set (bytes ''.'')" "bytes ''..'' \<noteq> []" "0 \<notin> set (bytes ''..'')"
    by (simp_all add: bytes_def)
  have cmp: "strcmp (u @ 0 # q) (cstr (bytes ''.'')) = Inr (- 1)" "strcmp (u @ 0 # q) (cstr (bytes ''..'')) = Inr (- 1)"
    using strcmp_spec [OF u(1,2) b0(1,2), of q "[]"] strcmp_spec [OF u(1,2) b0(3,4), of q "[]"] u(3,4) by (simp_all add: cstr_def)
  let ?s = "lock_node p 1 s"
  have "lookup_entries (fs_fuel ?s) de (u @ 0 # q) (length t) ?s =
    Inr (case find (\<lambda>d. take (length t) (ename ?s d) = take (length t) (u @ 0 # q)) (E p) of None \<Rightarrow> 0 | Some d \<Rightarrow> d)"
    by (rule lookup_entries_spec) (use c u in \<open>auto simp: fs_fuel_def\<close>)
  then have le: "lookup_entries (fs_fuel ?s) de (u @ 0 # q) (length t) ?s =
    Inr (case lookup_match s E p t of None \<Rightarrow> 0 | Some d \<Rightarrow> d)"
    using u(5) by (simp add: lookup_match_def ename_def)
  have np: "ramnodes ?s p = Some (np\<lparr>ramlock := 1\<rparr>)" using vd(4) by (simp add: lock_node_def)
  have rel: "release_node p ?s = Inr s"
    using release_node_eq [OF c(3) np] lock_node_unlock [OF vd(4) lk] by simp
  note run = ramfs_lookup_def Let_def as_dir_def acquire_node_eq [OF c(3) vd(4) lk] np c(1) cmp le
  show "ramfs_lookup vd (u @ 0 # q) (length t) s = Inr (- ENOENT, Some 0, s)" if "lookup_match s E p t = None"
    using that vd v(1) c(3) rel by (simp add: run cong: ebind_arg_cong)
  assume d: "lookup_match s E p t = Some d" "enode s d \<noteq> p" "ramnodes s (enode s d) = Some n" "vnode_free s n"
  have de: "d \<in> set (E p)" using d(1) by (auto simp: lookup_match_def find_Some_iff)
  then obtain x where x: "dentries s d = Some x" "enode s d = d_node x" using entries_okD [OF D(2)] by metis
  have d0: "d \<noteq> 0" using entry_old [OF D(1,2) de] by simp
  have nl: "ramnodes ?s (d_node x) = Some n" "ramlock n = 0"
    using d(2,3) x(2) wf(2) by (auto simp: lock_node_def unlocked_def)
  obtain de' par' sq' where nu: "n_type n = VDIR \<Longrightarrow> n_union n = Dir de' par' sq'"
    using D(4) [OF d(3)] by (auto simp: node_ok_def split: if_splits)
  have vg: "ramfs_vget (v_vfs v) (d_node x) ?s = Inr (0, got_vnode (v_vfs v) (d_node x) n ?s)"
    by (rule ramfs_vget_eq [OF bounded_lock_node [OF D(1)] _ nl nu]) (use wf(3) d(4) in \<open>auto simp: vnode_free_def\<close>)
  have np2: "ramnodes (snd (got_vnode (v_vfs v) (d_node x) n ?s)) p = Some (np\<lparr>ramlock := 1\<rparr>)"
    using got_vnode_nodes [OF nl(1)] np d(2) x(2) by simp
  show "ramfs_lookup vd (u @ 0 # q) (length t) s = Inr (0, Some (fst (got_vnode (v_vfs v) (enode s d) n s)),
      snd (got_vnode (v_vfs v) (enode s d) n s))"
    using vd v(1) c(3) d(1,2) d0 x vg release_node_eq [OF c(3) np2] got_vnode_lock [OF vd(4) lk, of "d_node x" "v_vfs v" n]
    by (simp add: run split_beta cong: ebind_arg_cong)
qed

subsection \<open>Unlinking a node from the list of all nodes\<close>

text \<open>Only \<open>prev\<close> and \<open>next\<close> pointers differ.\<close>

definition relinked :: "fs \<Rightarrow> fs \<Rightarrow> bool" where
  "relinked s s' \<longleftrightarrow> (\<exists>m. s' = s\<lparr>ramnodes := m\<rparr>) \<and> (\<forall>p. ramnodes s' p = None \<longleftrightarrow> ramnodes s p = None) \<and>
     (\<forall>p n n'. ramnodes s p = Some n \<longrightarrow> ramnodes s' p = Some n' \<longrightarrow> n' = n\<lparr>n_prev := n_prev n', n_next := n_next n'\<rparr> \<and>
        ptr_ok (ramnodes s) (n_prev n') \<and> ptr_ok (ramnodes s) (n_next n'))"

lemma relinked_dom: "relinked s s' \<Longrightarrow> ramnodes s' p = None \<longleftrightarrow> ramnodes s p = None"
  by (simp add: relinked_def)

lemma relinked_node:
  assumes "relinked s s'" "ramnodes s' p = Some n'"
  obtains n where "ramnodes s p = Some n" "n' = n\<lparr>n_prev := n_prev n', n_next := n_next n'\<rparr>"
    "ptr_ok (ramnodes s) (n_prev n')" "ptr_ok (ramnodes s) (n_next n')"
proof -
  obtain n where "ramnodes s p = Some n" using relinked_dom [OF assms(1), of p] assms(2) by auto
  then show ?thesis using that assms unfolding relinked_def by blast
qed

lemma relinked_sel:
  assumes "relinked s s'"
  shows "dentries s' = dentries s" "vnodes s' = vnodes s" "next_ptr s' = next_ptr s" "mounts s' = mounts s"
    "junk_bytes s' = junk_bytes s" "zeroed s' = zeroed s" "ramvfss s' = ramvfss s"
proof -
  from assms obtain m where "s' = s\<lparr>ramnodes := m\<rparr>" by (auto simp: relinked_def)
  then show "dentries s' = dentries s" "vnodes s' = vnodes s" "next_ptr s' = next_ptr s" "mounts s' = mounts s"
    "junk_bytes s' = junk_bytes s" "zeroed s' = zeroed s" "ramvfss s' = ramvfss s" by (simp_all add: zeroed_def)
qed

lemma relinked_wf:
  assumes wf: "ramfs_wf s E dots" and r: "relinked s s'"
  shows "ramfs_wf s' E dots"
proof -
  note D = ramfs_wfD [OF wf] and sel = relinked_sel [OF r] and dom = relinked_dom [OF r]
  have pok: "ptr_ok (ramnodes s') a = ptr_ok (ramnodes s) a" for a using dom by (simp add: ptr_ok_def)
  have ok: "node_ok s' E p n'" if n': "ramnodes s' p = Some n'" for p n'
  proof -
    from relinked_node [OF r n'] obtain n where n: "ramnodes s p = Some n" "n' = n\<lparr>n_prev := n_prev n', n_next := n_next n'\<rparr>"
      "ptr_ok (ramnodes s) (n_prev n')" "ptr_ok (ramnodes s) (n_next n')" by blast
    have eq: "n_type n' = n_type n" "n_union n' = n_union n" "n_vnode n' = n_vnode n" by (subst n(2), simp)+
    show ?thesis by (rule node_ok_transfer [OF D(4) [OF n(1)] eq]) (use n sel dom pok in auto)
  qed
  have "dom (ramnodes s') = dom (ramnodes s)" using dom by (auto simp: dom_def)
  then have bnd: "bounded s'" using D(1) sel by (simp add: bounded_def)
  have ent: "entries_ok s' E" by (rule entries_ok_transfer [OF D(2)]) (use sel dom in auto)
  have "pointing s' E p = pointing s E p" for p by (rule pointing_cong) (simp add: sel)
  moreover have "\<exists>n. ramnodes s p = Some n \<and> linkcount n' = linkcount n" if "ramnodes s' p = Some n'" for p n'
  proof -
    from relinked_node [OF r that] obtain n where n: "ramnodes s p = Some n" "n' = n\<lparr>n_prev := n_prev n', n_next := n_next n'\<rparr>" by blast
    have "linkcount n' = linkcount n" by (subst n(2), simp)
    with n(1) show ?thesis by blast
  qed
  ultimately have "links_ok s' E dots" using D(3) unfolding links_ok_def by metis
  with bnd ok ent show ?thesis by (simp add: ramfs_wf_def)
qed

lemma relinked_trans:
  assumes a: "relinked s s'" and b: "relinked s' s''"
  shows "relinked s s''"
proof -
  have eq: "\<exists>m. s'' = s\<lparr>ramnodes := m\<rparr>" using a b by (auto simp: relinked_def)
  have pok: "ptr_ok (ramnodes s') x = ptr_ok (ramnodes s) x" for x using relinked_dom [OF a] by (simp add: ptr_ok_def)
  have "n'' = n\<lparr>n_prev := n_prev n'', n_next := n_next n''\<rparr> \<and> ptr_ok (ramnodes s) (n_prev n'') \<and> ptr_ok (ramnodes s) (n_next n'')"
    if n: "ramnodes s p = Some n" and n'': "ramnodes s'' p = Some n''" for p n n''
  proof -
    from relinked_node [OF b n''] obtain n' where n': "ramnodes s' p = Some n'" "n'' = n'\<lparr>n_prev := n_prev n'', n_next := n_next n''\<rparr>"
      "ptr_ok (ramnodes s') (n_prev n'')" "ptr_ok (ramnodes s') (n_next n'')" by blast
    from relinked_node [OF a n'(1)] n have "n' = n\<lparr>n_prev := n_prev n', n_next := n_next n'\<rparr>" by (metis option.inject)
    then obtain x y where "n' = n\<lparr>n_prev := x, n_next := y\<rparr>" by blast
    with n'(2) have "n'' = n\<lparr>n_prev := n_prev n'', n_next := n_next n''\<rparr>" by simp
    with n'(3,4) pok show ?thesis by simp
  qed
  then show ?thesis using eq relinked_dom [OF a] relinked_dom [OF b] by (simp add: relinked_def)
qed

lemma relinked_set:
  assumes wf: "ramfs_wf s E dots" and p: "ramnodes s p = Some n" and x: "ptr_ok (ramnodes s) x"
  shows "relinked s (put_node p (n\<lparr>n_next := x\<rparr>) s)" "relinked s (put_node p (n\<lparr>n_prev := x\<rparr>) s)"
  using p x node_okD [OF ramfs_wfD(4) [OF wf]] by (auto simp: relinked_def put_node_def)

lemma relinked_refl: "ramfs_wf s E dots \<Longrightarrow> ramnodes s p = Some n \<Longrightarrow> relinked s s"
  using relinked_set(1) [of s E dots p n "n_next n"] node_okD(2) [OF ramfs_wfD(4)] by (simp add: put_node_def fun_upd_idem)

lemma unlink_node_relinked:
  assumes wf: "ramfs_wf s E dots" and n: "ramnodes s node = Some n"
  shows "\<exists>s'. unlink_node node s = Inr s' \<and> relinked s s'"
proof -
  have n0: "node \<noteq> 0" using bounded_nonzero(1) [OF ramfs_wfD(1) [OF wf] n] by simp
  have ok: "ptr_ok (ramnodes s) (n_prev n)" "ptr_ok (ramnodes s) (n_next n)" using node_okD [OF ramfs_wfD(4) [OF wf n]] .
  obtain s1 where s1: "(if n_prev n \<noteq> 0 then mod_node (n_prev n) (\<lambda>m. m\<lparr>n_next := n_next n\<rparr>) s else Inr s) = Inr s1" "relinked s s1"
    using relinked_set(1) [OF wf _ ok(2)] relinked_refl [OF wf n] ok(1)
    by (cases "n_prev n = 0") (auto simp: mod_node_def ptr_ok_def)
  have wf1: "ramfs_wf s1 E dots" by (rule relinked_wf [OF wf s1(2)])
  obtain n1 where n1: "ramnodes s1 node = Some n1" using relinked_dom [OF s1(2), of node] n by auto
  have ok1: "ptr_ok (ramnodes s1) (n_prev n1)" "ptr_ok (ramnodes s1) (n_next n1)" using node_okD [OF ramfs_wfD(4) [OF wf1 n1]] .
  obtain s2 where s2: "(if n_next n1 \<noteq> 0 then mod_node (n_next n1) (\<lambda>m. m\<lparr>n_prev := n_prev n1\<rparr>) s1 else Inr s1) = Inr s2" "relinked s1 s2"
    using relinked_set(2) [OF wf1 _ ok1(1)] relinked_refl [OF wf1 n1] ok1(2)
    by (cases "n_next n1 = 0") (auto simp: mod_node_def ptr_ok_def)
  have "unlink_node node s = Inr s2"
    using n0 n n1 s1(1) s2(1) by (simp add: unlink_node_def cong: ebind_arg_cong if_cong)
  with relinked_trans [OF s1(2) s2(2)] show ?thesis by blast
qed

subsection \<open>Removing an entry\<close>

lemma dentry_prev_spec:
  "dchain (dentries s) a (xs @ b # d # ys) \<Longrightarrow> length xs < k \<Longrightarrow> dentry_prev k a d s = Inr b"
proof (induction xs arbitrary: a k)
  case Nil
  then show ?case by (cases k) auto
next
  case (Cons c xs)
  then obtain x k' where x: "a = c" "c \<noteq> 0" "dentries s c = Some x" "dchain (dentries s) (d_next x) (xs @ b # d # ys)"
    and k: "k = Suc k'" by (cases k) auto
  have "distinct (xs @ b # d # ys)" by (rule dchain_distinct [OF x(4)])
  then have "d_next x \<noteq> d" using x(4) by (cases xs) auto
  with Cons x k show ?case by simp
qed

lemma dchain_remove:
  assumes "dchain m a (xs @ b # d # ys)" "m b = Some bx" "m d = Some x"
  shows "dchain (m(b := Some (bx\<lparr>d_next := d_next x\<rparr>))) a (xs @ b # ys)"
  using assms(1)
proof (induction xs arbitrary: a)
  case Nil
  then have "dchain m (d_next x) ys" "a = b" "b \<noteq> 0" and "b \<notin> set ys"
    using assms dchain_distinct [OF Nil.prems] by auto
  then show ?case using dchain_upd [of b ys m] by (simp del: fun_upd_apply add: fun_upd_same)
next
  case (Cons c xs)
  moreover have "c \<noteq> b" using dchain_distinct [OF Cons.prems] by auto
  ultimately show ?case by auto
qed

text \<open>
  The store after \<open>ramfs_dir_detach\<close> and \<open>ramfs_free_dentry\<close>: the entry \<open>d\<close> leaves the list of the directory \<open>p\<close>,
  either at its head or behind the entry \<open>b\<close>; both link counts go down.
\<close>

definition entry_removed :: "ptr \<Rightarrow> ramnode \<Rightarrow> ptr \<Rightarrow> ramnode \<Rightarrow> ptr \<Rightarrow> ptr option \<Rightarrow> fs \<Rightarrow> fs" where
  "entry_removed p np node n d b s =
     (let nxt = d_next (the (dentries s d)) in
      s\<lparr>dentries := (case b of None \<Rightarrow> dentries s | Some b \<Rightarrow> (dentries s)(b := Some ((the (dentries s b))\<lparr>d_next := nxt\<rparr>))),
        freed := insert d (freed s),
        ramnodes := (ramnodes s)(
          p := Some (case b of
            None \<Rightarrow> np\<lparr>linkcount := linkcount np - 1, n_union := Dir nxt (dir_parent (n_union np)) (dir_lastseq (n_union np))\<rparr>
          | Some _ \<Rightarrow> np\<lparr>linkcount := linkcount np - 1\<rparr>),
          node := Some (n\<lparr>linkcount := linkcount n - 1\<rparr>))\<rparr>)"

definition pred_in :: "ptr list \<Rightarrow> ptr \<Rightarrow> ptr option \<Rightarrow> ptr list \<Rightarrow> bool" where
  "pred_in ds d b ds' \<longleftrightarrow> (case b of None \<Rightarrow> ds = d # ds' | Some b \<Rightarrow> \<exists>xs ys. ds = xs @ b # d # ys \<and> ds' = xs @ b # ys)"

lemma pred_in_exists:
  assumes "d \<in> set ds" "distinct ds"
  shows "\<exists>b. pred_in ds d b (remove1 d ds)"
proof -
  obtain xs ys where ds: "ds = xs @ d # ys" using assms(1) by (meson split_list)
  then have "d \<notin> set xs" using assms(2) by simp
  then have rm: "remove1 d ds = xs @ ys" by (simp add: ds remove1_append)
  show ?thesis
  proof (cases xs rule: rev_cases)
    case Nil
    then show ?thesis using ds rm by (intro exI [of _ None]) (simp add: pred_in_def)
  next
    case (snoc zs b)
    then show ?thesis using ds rm by (intro exI [of _ "Some b"]) (auto simp: pred_in_def)
  qed
qed

lemma entry_removed_eq:
  assumes wf: "ramfs_wf s E dots" and u: "unlocked s"
    and p: "ramnodes s p = Some np" "n_type np = VDIR" and d: "d \<in> set (E p)" "pred_in (E p) d b ds'"
    and n: "enode s d = node" "ramnodes s node = Some n" "node \<noteq> p"
  shows "ebind (ramfs_dir_detach p d s) (\<lambda>(_, s). ebind (ramfs_free_dentry d s) (\<lambda>(_, s). f s)) =
    f (entry_removed p np node n d b s)"
proof -
  note D = ramfs_wfD [OF wf]
  obtain de par sq where c: "n_union np = Dir de par sq" "dchain (dentries s) de (E p)" "p \<noteq> 0" "length (E p) < fs_fuel s"
    using dir_nodeE [OF wf p] by metis
  obtain x where x: "dentries s d = Some x" "d_node x = node" using entries_okD [OF D(2) d(1)] n(1) by metis
  have d0: "d \<noteq> 0" "node \<noteq> 0" using entry_old [OF D(1,2) d(1)] bounded_nonzero(1) [OF D(1) n(2)] by auto
  have lk: "ramlock np = 0" "ramlock n = 0" using u p(1) n(2) by (auto simp: unlocked_def)
  have "d \<in> pointing s E node" using d(1) n(1) by (auto simp: pointing_def)
  then have "card (pointing s E node) > 0" using pointing_finite [OF D(1,2)] by (auto simp: card_gt_0_iff)
  then have lc: "\<not> linkcount n \<le> 0" using D(3) n(2) by (auto simp: links_ok_def)
  show ?thesis
  proof (cases b)
    case None
    then have "de = d" using d(2) c(2) by (auto simp: pred_in_def)
    then show ?thesis using None c x d0 lk lc p n
      by (simp add: ramfs_dir_detach_def ramfs_free_dentry_def entry_removed_def fs_eval as_dir_def Let_def cong: ebind_arg_cong)
  next
    case (Some a)
    then obtain xs ys where E: "E p = xs @ a # d # ys" using d(2) by (auto simp: pred_in_def)
    have ch: "dchain (dentries s) de (xs @ a # d # ys)" using c(2) E by simp
    have dist: "a \<noteq> d" "de \<noteq> d" using dchain_distinct [OF ch] ch by (auto, cases xs) auto
    obtain ax where ax: "dentries s a = Some ax" "d_next ax = d" "a \<noteq> 0"
      using dchain_append [OF ch] by auto
    let ?s = "s\<lparr>ramnodes := (ramnodes s)(p := Some (np\<lparr>ramlock := 1, linkcount := linkcount np - 1\<rparr>))\<rparr>"
    have "dentry_prev (fs_fuel ?s) de d ?s = Inr a"
      by (rule dentry_prev_spec) (use ch c(4) E in \<open>auto simp: fs_fuel_def\<close>)
    then show ?thesis using Some c x d0 lk lc p n dist ax
      by (simp add: ramfs_dir_detach_def ramfs_free_dentry_def entry_removed_def fs_eval as_dir_def Let_def cong: ebind_arg_cong)
  qed
qed

lemma pred_in_set:
  assumes "pred_in ds d b ds'" "distinct ds"
  shows "set ds' = set ds - {d}" "length ds = Suc (length ds')" "d \<in> set ds"
  using assms by (auto simp: pred_in_def split: option.splits)

lemma dchain_entry_removed:
  assumes "dchain (dentries s) a ds" "pred_in ds d b ds'" "dentries s d = Some x"
  shows "dchain (dentries (entry_removed p np node n d b s)) (case b of None \<Rightarrow> d_next x | Some _ \<Rightarrow> a) ds'"
proof (cases b)
  case None
  then show ?thesis using assms by (auto simp: pred_in_def entry_removed_def Let_def)
next
  case (Some c)
  then obtain xs ys where ds: "ds = xs @ c # d # ys" "ds' = xs @ c # ys" using assms(2) by (auto simp: pred_in_def)
  then obtain cx where "dentries s c = Some cx" using dchain_append [of "dentries s" a xs c "d # ys"] assms(1) by auto
  then show ?thesis using dchain_remove [of "dentries s" a xs c d ys cx x] assms Some ds
    by (simp add: entry_removed_def Let_def)
qed

lemma entry_removed_dentries:
  assumes "dentries s d' = Some x" "b = Some d' \<longrightarrow> dentries s d \<noteq> None"
  shows "\<exists>y. dentries (entry_removed p np node n d b s) d' = Some y \<and> d_name y = d_name x \<and> d_node y = d_node x"
  using assms by (auto simp: entry_removed_def Let_def split: option.splits)

lemma entry_removed_names:
  "ename (entry_removed p np node n d b s) = ename s" "enode (entry_removed p np node n d b s) = enode s"
  by (auto simp: ename_def enode_def entry_removed_def Let_def fun_eq_iff split: option.splits)

lemma pointing_entry_removed:
  assumes ent: "entries_ok s E" and d: "d \<in> set (E p)" "pred_in (E p) d b ds'" "distinct (E p)"
  shows "pointing (entry_removed p np node n d b s) (E(p := ds')) q = pointing s E q - {d}"
proof -
  have other: "d \<notin> set (E r)" if "r \<noteq> p" for r using ent d(1) that by (auto simp: entries_ok_def)
  have "(\<exists>r. e \<in> set ((E(p := ds')) r)) \<longleftrightarrow> e \<noteq> d \<and> (\<exists>r. e \<in> set (E r))" for e
    unfolding ex_fun_upd [of "\<lambda>l. e \<in> set l"] pred_in_set(1) [OF d(2,3)] using other by (metis DiffE DiffI singletonD singletonI)
  then show ?thesis by (auto simp: pointing_def entry_removed_names simp del: fun_upd_apply)
qed

lemma entry_removed_entries:
  assumes ent: "entries_ok s E" and p: "ramnodes s p = Some np" and n: "ramnodes s node = Some n"
    and d: "d \<in> set (E p)" "pred_in (E p) d b ds'" "distinct (E p)"
  shows "entries_ok (entry_removed p np node n d b s) (E(p := ds'))" (is "entries_ok ?s ?E")
  unfolding entries_ok_def
proof (intro conjI allI impI ballI)
  have dom: "ramnodes ?s q \<noteq> None \<longleftrightarrow> ramnodes s q \<noteq> None" for q using p n by (auto simp: entry_removed_def Let_def)
  have sub: "set (?E q) \<subseteq> set (E q)" for q using pred_in_set(1) [OF d(2,3)] by auto
  show "?E q = []" if "ramnodes ?s q = None" for q using that dom [of q] ent p by (auto simp: entries_ok_def)
  show "set (?E q) \<inter> set (?E r) = {}" if "q \<noteq> r" for q r using ent that sub [of q] sub [of r] unfolding entries_ok_def by blast
  fix q e assume "e \<in> set (?E q)"
  then have "e \<in> set (E q)" using sub by blast
  then obtain y where y: "dentries s e = Some y" "good_name (d_name y)" "ramnodes s (d_node y) \<noteq> None" using entries_okD [OF ent] by metis
  obtain x where x: "dentries s d = Some x" using entries_okD [OF ent d(1)] by metis
  show "\<exists>y. dentries ?s e = Some y \<and> good_name (d_name y) \<and> ramnodes ?s (d_node y) \<noteq> None"
    using entry_removed_dentries [OF y(1), of b d p np node n] x y dom by (metis option.distinct(1))
qed

lemma entry_removed_links:
  assumes wf: "ramfs_wf s E dots" and p: "ramnodes s p = Some np" and n: "enode s d = node" "ramnodes s node = Some n" "node \<noteq> p"
    and d: "d \<in> set (E p)" "pred_in (E p) d b ds'" "distinct (E p)"
  shows "links_ok (entry_removed p np node n d b s) (E(p := ds')) dots" (is "links_ok ?s ?E dots")
  unfolding links_ok_def
proof (intro allI impI)
  note D = ramfs_wfD [OF wf]
  fix q n' assume n': "ramnodes ?s q = Some n'"
  have mem: "d \<in> pointing s E q \<longleftrightarrow> q = node" using d(1) n(1) by (auto simp: pointing_def)
  have card: "int (card (pointing ?s ?E q)) = int (card (pointing s E q)) - (if q = node then 1 else 0)"
    unfolding pointing_entry_removed [OF D(2) d] using mem card_Suc_Diff1 [OF pointing_finite [OF D(1,2)], of d q]
    by (auto simp: Diff_insert0)
  show "linkcount n' = int (card (pointing ?s ?E q) + length (?E q) + dots q)"
    using n' n p card D(3) pred_in_set(2) [OF d(2,3)] by (auto simp: links_ok_def entry_removed_def Let_def split: if_splits option.splits)
qed

lemma entry_removed_wf:
  assumes wf: "ramfs_wf s E dots"
    and p: "ramnodes s p = Some np" "n_type np = VDIR" and d: "d \<in> set (E p)" "pred_in (E p) d b ds'"
    and n: "enode s d = node" "ramnodes s node = Some n" "node \<noteq> p"
  shows "ramfs_wf (entry_removed p np node n d b s) (E(p := ds')) dots" (is "ramfs_wf ?s ?E dots")
proof -
  note D = ramfs_wfD [OF wf]
  obtain de par sq where c: "n_union np = Dir de par sq" "dchain (dentries s) de (E p)" "ramnodes s par \<noteq> None"
    using dir_nodeE [OF wf p] by metis
  have dist: "distinct (E p)" by (rule dchain_distinct [OF c(2)])
  note ds' = pred_in_set [OF d(2) dist]
  obtain x where x: "dentries s d = Some x" using entries_okD [OF D(2) d(1)] by metis
  have dom: "ramnodes ?s q \<noteq> None \<longleftrightarrow> ramnodes s q \<noteq> None" for q
    using p(1) n(2) by (auto simp: entry_removed_def Let_def)
  have sel: "vnodes ?s = vnodes s" "next_ptr ?s = next_ptr s" by (simp_all add: entry_removed_def Let_def)
  have pok: "ptr_ok (ramnodes ?s) a = ptr_ok (ramnodes s) a" for a using dom by (simp add: ptr_ok_def)
  have b: "a \<in> set (E p) \<and> a \<in> set ds'" if "b = Some a" for a using d(2) that by (auto simp: pred_in_def)
  have dents: "dentries ?s e = dentries s e" if "e \<in> set (E q)" "q \<noteq> p" for e q
  proof -
    have "set (E q) \<inter> set (E p) = {}" using D(2) that(2) by (simp add: entries_ok_def)
    then have "b \<noteq> Some e" using b [of e] that(1) by blast
    then show ?thesis by (auto simp: entry_removed_def Let_def split: option.splits)
  qed
  define un where "un = (case b of None \<Rightarrow> Dir (d_next x) par sq | Some _ \<Rightarrow> Dir de par sq)"
  have at_p: "ramnodes ?s p = Some (np\<lparr>linkcount := linkcount np - 1, n_union := un\<rparr>)"
    using n(3) c(1) x by (auto simp: un_def entry_removed_def Let_def split: option.splits)
  have ok: "node_ok ?s ?E q n'" if n': "ramnodes ?s q = Some n'" for q n'
  proof (cases "q = p")
    case True
    have "dchain (dentries ?s) (dir_dentry un) ds'"
      using dchain_entry_removed [OF c(2) d(2) x, of p np node n] by (auto simp: un_def split: option.splits)
    moreover have "\<exists>f. un = Dir f par sq" by (auto simp: un_def split: option.splits)
    moreover have "n' = np\<lparr>linkcount := linkcount np - 1, n_union := un\<rparr>" using True n' at_p by simp
    moreover have "ramnodes ?s par \<noteq> None" using c(3) dom [of par] by simp
    ultimately show ?thesis using True D(4) [OF p(1)] p(2) sel(1) pok unfolding node_ok_def by auto
  next
    case False
    obtain m where m: "ramnodes s q = Some m" "n' = m \<or> n' = m\<lparr>linkcount := linkcount m - 1\<rparr>"
      using n' n(2) False by (auto simp: entry_removed_def Let_def split: if_splits)
    then show ?thesis using node_okD [OF D(4) [OF m(1)]] pok
      by (intro node_ok_transfer [OF D(4) [OF m(1)]]) (use sel dom dents False in auto)
  qed
  have "dom (dentries ?s) = dom (dentries s)"
  proof (cases b)
    case (Some a)
    then have "dentries s a \<noteq> None" using b entries_okD [OF D(2)] by (metis option.distinct(1))
    then show ?thesis using Some by (auto simp: entry_removed_def Let_def)
  qed (simp add: entry_removed_def Let_def)
  moreover have "dom (ramnodes ?s) = dom (ramnodes s)" using dom by (simp add: dom_def)
  ultimately have bnd: "bounded ?s" using D(1) sel by (simp add: bounded_def)
  have "entries_ok ?s ?E" "links_ok ?s ?E dots"
    using entry_removed_entries [OF D(2) p(1) n(2) d dist] entry_removed_links [OF wf p(1) n d dist] by simp_all
  with bnd ok show ?thesis by (simp add: ramfs_wf_def)
qed

end
