(* ===== verification/Ramfs_Ops.thy ===== *)
theory Ramfs_Ops
  imports Ramfs_Dir Name_Space
begin

section \<open>The ramfs operations on well-formed file systems\<close>

text \<open>
  What creating, finding and removing names do on a well-formed ramfs, seen through the association lists
  \<open>listing\<close> of its directories; the error branches; and when \<open>ramfs_inactive\<close> destroys a node.
\<close>

subsection \<open>Removing a name\<close>

lemma map_remove1_find:
  "find (\<lambda>d. fst (f d) = t) ds = Some d \<Longrightarrow> map f (remove1 d ds) = remove1 (f d) (map f ds)"
proof (induction ds)
  case (Cons a ds)
  show ?case
  proof (cases "fst (f a) = t")
    case True
    with Cons.prems show ?thesis by simp
  next
    case False
    with Cons.prems have "find (\<lambda>d. fst (f d) = t) ds = Some d" by simp
    moreover from this have "fst (f d) = t" by (auto simp: find_Some_iff)
    ultimately show ?thesis using Cons.IH False by auto
  qed
qed simp

text \<open>The outcome of taking the name \<open>t\<close> of \<open>node\<close> out of directory \<open>p\<close>.\<close>

definition name_removed :: "fs \<Rightarrow> (ptr \<Rightarrow> ptr list) \<Rightarrow> ptr \<Rightarrow> u8 list \<Rightarrow> ptr \<Rightarrow> fs \<Rightarrow> (ptr \<Rightarrow> ptr list) \<Rightarrow> (ptr \<Rightarrow> nat) \<Rightarrow> bool" where
  "name_removed s E p t node s' E' dots' \<longleftrightarrow>
     ramfs_wf s' E' dots' \<and> unlocked s' \<and>
     listing s' E' p = remove1 (t, node) (listing s E p) \<and> (\<forall>q. q \<noteq> p \<longrightarrow> listing s' E' q = listing s E q) \<and>
     (\<forall>n. ramnodes s p = Some n \<longrightarrow> (\<exists>n'. ramnodes s' p = Some n' \<and> n_type n' = n_type n \<and> linkcount n' = linkcount n - 1)) \<and>
     (\<forall>n. ramnodes s node = Some n \<longrightarrow> (\<exists>n'. ramnodes s' node = Some n' \<and> n_type n' = n_type n \<and>
        linkcount n' = linkcount n - (if n_type n = VDIR then 2 else 1))) \<and>
     vnodes s' = vnodes s \<and> mounts s' = mounts s \<and> (\<forall>m. mount_ok s m \<longrightarrow> mount_ok s' m) \<and> (kalloc_ok s \<longrightarrow> kalloc_ok s') \<and> kept s s'"

lemma relinked_lock:
  assumes "relinked s s'" "ramnodes s' p = Some n'"
  obtains n where "ramnodes s p = Some n" "ramlock n' = ramlock n" "linkcount n' = linkcount n" "n_type n' = n_type n"
    "n_union n' = n_union n" "n_vnode n' = n_vnode n"
proof -
  obtain n where n: "ramnodes s p = Some n" "n' = n\<lparr>n_prev := n_prev n', n_next := n_next n'\<rparr>"
    using relinked_node [OF assms] by blast
  have "ramlock n' = ramlock n" "linkcount n' = linkcount n" "n_type n' = n_type n" "n_union n' = n_union n" "n_vnode n' = n_vnode n"
    by (subst n(2), simp)+
  with n(1) show ?thesis by (rule that)
qed

lemma relinked_unlocked: "relinked s s' \<Longrightarrow> unlocked s \<Longrightarrow> unlocked s'"
  unfolding unlocked_def by (metis relinked_lock)

lemma relinked_kept:
  assumes r: "relinked s s'"
  shows "kept s s'"
proof -
  obtain m where m: "s' = s\<lparr>ramnodes := m\<rparr>" using r by (auto simp: relinked_def)
  have "\<exists>n'. ramnodes s' q = Some n' \<and> n_vnode n' = n_vnode n \<and> n_type n' = n_type n \<and> n_union n' = n_union n"
    if q: "ramnodes s q = Some n" for q n
  proof -
    obtain n' where n': "ramnodes s' q = Some n'" using relinked_dom [OF r, of q] q by auto
    then show ?thesis using relinked_lock [OF r n'] q by (metis option.inject)
  qed
  then show ?thesis using m unfolding kept_def by (metis (no_types, lifting) fs.select_convs(3,8,9) fs.surjective fs.update_convs(5))
qed

lemma listing_entry_removed:
  "listing (entry_removed p np node n d b s) (E(p := ds')) q = (if q = p then map (\<lambda>d. (ename s d, enode s d)) ds' else listing s E q)"
  by (simp add: listing_def entry_removed_names)

lemma unlocked_entry_removed:
  "unlocked s \<Longrightarrow> ramnodes s p = Some np \<Longrightarrow> ramnodes s node = Some n \<Longrightarrow> unlocked (entry_removed p np node n d b s)"
  by (auto simp: unlocked_def entry_removed_def Let_def split: option.splits)

text \<open>The common tail of \<open>ramfs_remove\<close> and \<open>ramfs_rmdir\<close>, on the entry \<open>d\<close> that the name was found at.\<close>

lemma unlink_entry_run:
  assumes wf: "ramfs_wf s E dots" "unlocked s" and p: "ramnodes s p = Some np" "n_type np = VDIR"
    and d: "find (\<lambda>d. ename s d = t) (E p) = Some d" "enode s d = node" "ramnodes s node = Some n" "node \<noteq> p"
  shows "\<exists>s'. (\<forall>f. ebind (unlink_node node s) (\<lambda>s. ebind (ramfs_dir_detach p d s) (\<lambda>(_, s).
        ebind (ramfs_free_dentry d s) (\<lambda>(_, s). f s))) = f s') \<and>
      ramfs_wf s' (E(p := remove1 d (E p))) dots \<and> unlocked s' \<and>
      (\<forall>q. listing s' (E(p := remove1 d (E p))) q = (if q = p then remove1 (t, node) (listing s E p) else listing s E q)) \<and>
      (\<exists>n'. ramnodes s' p = Some n' \<and> n_type n' = VDIR \<and> linkcount n' = linkcount np - 1) \<and>
      (\<exists>n'. ramnodes s' node = Some n' \<and> n_type n' = n_type n \<and> linkcount n' = linkcount n - 1) \<and>
      vnodes s' = vnodes s \<and> mounts s' = mounts s \<and> (\<forall>m. mount_ok s m \<longrightarrow> mount_ok s' m) \<and> (kalloc_ok s \<longrightarrow> kalloc_ok s') \<and> kept s s'"
proof -
  obtain s1 where s1: "unlink_node node s = Inr s1" "relinked s s1" using unlink_node_relinked [OF wf(1) d(3)] by blast
  note sel = relinked_sel [OF s1(2)]
  have wf1: "ramfs_wf s1 E dots" "unlocked s1" using relinked_wf [OF wf(1) s1(2)] relinked_unlocked [OF s1(2) wf(2)] .
  have ee: "ename s1 = ename s" "enode s1 = enode s" by (auto simp: ename_def enode_def sel fun_eq_iff)
  obtain np1 n1 where n1: "ramnodes s1 p = Some np1" "ramnodes s1 node = Some n1"
    using relinked_dom [OF s1(2), of p] relinked_dom [OF s1(2), of node] p(1) d(3) by auto
  have k: "n_type np1 = VDIR" "linkcount np1 = linkcount np" "n_type n1 = n_type n" "linkcount n1 = linkcount n"
    using relinked_lock [OF s1(2) n1(1)] relinked_lock [OF s1(2) n1(2)] p d(3) by (metis option.inject)+
  have dE: "d \<in> set (E p)" using d(1) by (auto simp: find_Some_iff)
  obtain de par sq where "dchain (dentries s1) de (E p)" using dir_nodeE [OF wf1(1) n1(1) k(1)] by metis
  then obtain b where b: "pred_in (E p) d b (remove1 d (E p))" using pred_in_exists [OF dE dchain_distinct] by blast
  let ?s2 = "entry_removed p np1 node n1 d b s1"
  have dn: "enode s1 d = node" using ee d(2) by simp
  have run: "ebind (unlink_node node s) (\<lambda>s. ebind (ramfs_dir_detach p d s) (\<lambda>(_, s).
      ebind (ramfs_free_dentry d s) (\<lambda>(_, s). f s))) = f ?s2" for f
    using entry_removed_eq [OF wf1 n1(1) k(1) dE b dn n1(2) d(4)] s1(1) by simp
  have w2: "ramfs_wf ?s2 (E(p := remove1 d (E p))) dots" by (rule entry_removed_wf [OF wf1(1) n1(1) k(1) dE b dn n1(2) d(4)])
  have "map (\<lambda>d. (ename s d, enode s d)) (remove1 d (E p)) = remove1 (ename s d, enode s d) (map (\<lambda>d. (ename s d, enode s d)) (E p))"
    by (rule map_remove1_find [where t = t]) (use d(1) in simp)
  moreover have "ename s d = t" using d(1) by (auto simp: find_Some_iff)
  moreover have "listing s1 E q = listing s E q" for q by (simp add: listing_def ee)
  ultimately have ls: "listing ?s2 (E(p := remove1 d (E p))) q = (if q = p then remove1 (t, node) (listing s E p) else listing s E q)" for q
    using listing_entry_removed [of p np1 node n1 d b s1 E "remove1 d (E p)" q] d(2) by (simp add: ee listing_def)
  have p2: "\<exists>n'. ramnodes ?s2 p = Some n' \<and> n_type n' = VDIR \<and> linkcount n' = linkcount np - 1"
    and n2: "\<exists>n'. ramnodes ?s2 node = Some n' \<and> n_type n' = n_type n \<and> linkcount n' = linkcount n - 1"
    using d(4) k by (auto simp: entry_removed_def Let_def split: option.splits)
  have dom2: "ramnodes ?s2 q \<noteq> None" if "ramnodes s q \<noteq> None" for q
    using that relinked_dom [OF s1(2), of q] by (auto simp: entry_removed_def Let_def)
  have mo: "mount_ok ?s2 k" if "mount_ok s k" for k
    by (rule mount_ok_mono [OF that _ dom2]) (auto simp: entry_removed_def Let_def sel)
  have ka: "kalloc_ok s \<longrightarrow> kalloc_ok ?s2" using sel by (simp add: kalloc_ok_def zeroed_def entry_removed_def Let_def)
  have "vnodes ?s2 = vnodes s" "mounts ?s2 = mounts s" by (simp_all add: entry_removed_def Let_def sel)
  moreover have "kept s1 ?s2" using n1 k(1) by (auto simp: kept_def entry_removed_def Let_def split: option.splits)
  with relinked_kept [OF s1(2)] have "kept s ?s2" by (rule kept_trans)
  ultimately show ?thesis using mo ka run w2 unlocked_entry_removed [OF wf1(2) n1] ls p2 n2 by blast
qed

lemma ramfs_remove_spec:
  assumes wf: "ramfs_wf s E dots" "unlocked s" and vd: "dir_vnode s vd p"
    and vn: "vn \<noteq> 0" "vnodes s vn = Some w" "v_type w \<noteq> VDIR" "v_data w = node" "ramnodes s node = Some n" "n_type n \<noteq> VDIR"
    and t: "t \<noteq> []" "0 \<notin> set t" "map_of (listing s E p) t = Some node"
  shows "\<exists>s' E'. ramfs_remove vd vn (t @ 0 # r) s = Inr (0, s') \<and> name_removed s E p t node s' E' dots"
proof -
  from vd obtain v np where v: "vd \<noteq> 0" "vnodes s vd = Some v" "v_type v = VDIR" "v_data v = p"
    "ramnodes s p = Some np" "n_type np = VDIR" by (auto simp: dir_vnode_def)
  obtain d where d: "find (\<lambda>d. ename s d = t) (E p) = Some d" "enode s d = node"
    using t(3) by (auto simp: listing_find)
  have "node \<noteq> p" using v(5,6) vn(5,6) by auto
  from unlink_entry_run [OF wf v(5,6) d vn(5) this] obtain s' where
    run: "\<And>f :: fs \<Rightarrow> (int \<times> fs) result. ebind (unlink_node node s) (\<lambda>s. ebind (ramfs_dir_detach p d s) (\<lambda>(_, s).
        ebind (ramfs_free_dentry d s) (\<lambda>(_, s). f s))) = f s'"
    and s': "ramfs_wf s' (E(p := remove1 d (E p))) dots" "unlocked s'"
      "\<forall>q. listing s' (E(p := remove1 d (E p))) q = (if q = p then remove1 (t, node) (listing s E p) else listing s E q)"
      "\<exists>n'. ramnodes s' p = Some n' \<and> n_type n' = VDIR \<and> linkcount n' = linkcount np - 1"
      "\<exists>n'. ramnodes s' node = Some n' \<and> n_type n' = n_type n \<and> linkcount n' = linkcount n - 1"
      "vnodes s' = vnodes s" "mounts s' = mounts s" "\<forall>m. mount_ok s m \<longrightarrow> mount_ok s' m" "kalloc_ok s \<longrightarrow> kalloc_ok s'" "kept s s'" by blast
  have "ramlock np = 0" using wf(2) v(5) by (simp add: unlocked_def)
  then have look: "ramfs_dir_lookup p (t @ 0 # r) s = Inr (d, s)"
    using ramfs_dir_lookup_spec [OF wf(1) v(5,6) _ t(1,2), of r] d(1) by simp
  have dE: "d \<in> set (E p)" using d(1) by (auto simp: find_Some_iff)
  obtain x where x: "dentries s d = Some x" "d_node x = node" using entries_okD [OF ramfs_wfD(2) [OF wf(1)] dE] d(2) by metis
  have "d \<noteq> 0" using entry_old [OF ramfs_wfD(1) [OF wf(1)] ramfs_wfD(2) [OF wf(1)] dE] by simp
  then have "ramfs_remove vd vn (t @ 0 # r) s = Inr (0, s')"
    using v vn look x run [of "\<lambda>s. Inr (0, s)"] by (simp add: ramfs_remove_def cong: ebind_arg_cong) simp
  moreover have "name_removed s E p t node s' (E(p := remove1 d (E p))) dots"
    using s' v(5,6) vn(5,6) by (auto simp: name_removed_def simp del: fun_upd_apply)
  ultimately show ?thesis by blast
qed

subsection \<open>Removing a directory\<close>

text \<open>A change of one node that keeps what the invariant looks at, the link count and the virtual links apart.\<close>

lemma node_ok_same:
  assumes "node_ok s E p n" "n_type n' = n_type n" "n_type n = VDIR \<longrightarrow> n_union n' = n_union n" "n_vnode n' = n_vnode n \<or> n_vnode n' = 0"
    "n_prev n' = n_prev n" "n_next n' = n_next n"
  shows "node_ok s E p n'"
  using assms(1,3,4) unfolding node_ok_def assms(2,5,6) by (auto split: if_splits)

lemma node_changed_wf:
  assumes wf: "ramfs_wf s E dots" and n: "ramnodes s p = Some n"
    and n': "n_type n' = n_type n" "n_type n = VDIR \<longrightarrow> n_union n' = n_union n" "n_vnode n' = n_vnode n \<or> n_vnode n' = 0"
      "n_prev n' = n_prev n" "n_next n' = n_next n"
    and lc: "linkcount n' - int (dots' p) = linkcount n - int (dots p)" "\<And>q. q \<noteq> p \<Longrightarrow> dots' q = dots q"
  shows "ramfs_wf (s\<lparr>ramnodes := (ramnodes s)(p := Some n')\<rparr>) E dots'" (is "ramfs_wf ?s E dots'")
proof -
  note D = ramfs_wfD [OF wf]
  have dom: "ramnodes ?s q \<noteq> None \<longleftrightarrow> ramnodes s q \<noteq> None" for q using n by simp
  have pok: "ptr_ok (ramnodes ?s) a = ptr_ok (ramnodes s) a" for a using dom by (simp add: ptr_ok_def)
  have ok: "node_ok ?s E q m" if m: "ramnodes ?s q = Some m" for q m
  proof -
    obtain k where k: "ramnodes s q = Some k" "m = k \<or> q = p \<and> k = n \<and> m = n'" using m n by (auto split: if_splits)
    have "node_ok ?s E q k" using node_okD [OF D(4) [OF k(1)]] pok
      by (intro node_ok_transfer [OF D(4) [OF k(1)]]) (use dom in auto)
    then show ?thesis using k(2) node_ok_same [OF _ n'] by blast
  qed
  have "dom (ramnodes ?s) = dom (ramnodes s)" using n by auto
  then have bnd: "bounded ?s" using D(1) by (simp add: bounded_def)
  have ent: "entries_ok ?s E" by (rule entries_ok_transfer [OF D(2)]) (use dom in auto)
  have "pointing ?s E q = pointing s E q" for q by (rule pointing_cong) simp
  moreover have "linkcount m = int (card (pointing s E q) + length (E q) + dots' q)" if "ramnodes ?s q = Some m" for q m
  proof (cases "q = p")
    case True
    moreover have "linkcount n = int (card (pointing s E p) + length (E p) + dots p)" using D(3) n by (simp add: links_ok_def)
    ultimately show ?thesis using that lc(1) by auto
  next
    case False
    then show ?thesis using that lc(2) D(3) by (simp add: links_ok_def)
  qed
  ultimately have "links_ok ?s E dots'" by (simp add: links_ok_def)
  with bnd ok ent show ?thesis by (simp add: ramfs_wf_def)
qed

lemma rmdir_nonempty:
  assumes wf: "ramfs_wf s E dots" "unlocked s" and v: "vd \<noteq> 0" "vnodes s vd = Some v" "v_data v = p"
    and vn: "vn \<noteq> 0" "vnodes s vn = Some w" "v_data w = node" "ramnodes s node = Some n" "n_type n = VDIR" "dir_parent (n_union n) = p"
    and ne: "listing s E node \<noteq> []" "t \<noteq> bytes ''..''"
  shows "ramfs_rmdir vd vn (t @ 0 # r) (length t) s = Inr (- ENOTEMPTY, s)"
proof -
  obtain first par sq where u: "n_union n = Dir first par sq" "dchain (dentries s) first (E node)" "node \<noteq> 0"
    using dir_nodeE [OF wf(1) vn(4,5)] by metis
  have "par = p" "ramlock n = 0" using u(1) vn(4,6) wf(2) by (auto simp: unlocked_def)
  moreover have "first \<noteq> 0" using u(2) ne(1) by (cases "E node") (auto simp: listing_def)
  moreover have "(ramnodes s)(node := Some n) = ramnodes s" using vn(4) by (simp add: fun_upd_idem)
  moreover have g: "(length t = 2 \<and> take 2 (t @ 0 # r) = bytes ''..'') = False" using ne(2) by auto
  ultimately show ?thesis unfolding ramfs_rmdir_def g if_False using v vn u
    by (simp add: fs_eval as_dir_def cong: ebind_arg_cong)
qed

lemma ramfs_rmdir_spec:
  assumes wf: "ramfs_wf s E dots" "unlocked s" and vd: "dir_vnode s vd p"
    and vn: "vn \<noteq> 0" "vnodes s vn = Some w" "v_data w = node" "ramnodes s node = Some n" "n_type n = VDIR"
      "dir_parent (n_union n) = p" "node \<noteq> p" "0 < dots node"
    and t: "t \<noteq> []" "0 \<notin> set t" "t \<noteq> bytes ''..''"
  shows "listing s E node \<noteq> [] \<Longrightarrow> ramfs_rmdir vd vn (t @ 0 # r) (length t) s = Inr (- ENOTEMPTY, s)"
    and "listing s E node = [] \<Longrightarrow> map_of (listing s E p) t = Some node \<Longrightarrow>
      \<exists>s' E'. ramfs_rmdir vd vn (t @ 0 # r) (length t) s = Inr (0, s') \<and>
        name_removed s E p t node s' E' (dots(node := dots node - 1))"
proof -
  from vd obtain v np where v: "vd \<noteq> 0" "vnodes s vd = Some v" "v_type v = VDIR" "v_data v = p"
    "ramnodes s p = Some np" "n_type np = VDIR" by (auto simp: dir_vnode_def)
  obtain first par sq where u: "n_union n = Dir first par sq" "dchain (dentries s) first (E node)" "node \<noteq> 0"
    using dir_nodeE [OF wf(1) vn(4,5)] by metis
  have par: "par = p" using u(1) vn(6) by simp
  have lk: "ramlock n = 0" "ramlock np = 0" using wf(2) vn(4) v(5) by (auto simp: unlocked_def)
  have g: "(length t = 2 \<and> take 2 (t @ 0 # r) = bytes ''..'') = False" using t(3) by auto
  have emp: "first = 0 \<longleftrightarrow> listing s E node = []" using u(2) dchain_zero by (cases "E node") (auto simp: listing_def)
  note run = fs_eval as_dir_def
  show "ramfs_rmdir vd vn (t @ 0 # r) (length t) s = Inr (- ENOTEMPTY, s)" if "listing s E node \<noteq> []"
    by (rule rmdir_nonempty [OF wf v(1,2,4) vn(1-6) that t(3)])
  assume em: "listing s E node = []" and mo: "map_of (listing s E p) t = Some node"
  let ?n1 = "n\<lparr>linkcount := linkcount n - 1\<rparr>"
  let ?s1 = "s\<lparr>ramnodes := (ramnodes s)(node := Some ?n1)\<rparr>" and ?dots = "dots(node := dots node - 1)"
  have wf1: "ramfs_wf ?s1 E ?dots" by (rule node_changed_wf [OF wf(1) vn(4)]) (use vn(8) in auto)
  have u1: "unlocked ?s1" using wf(2) vn(4) by (auto simp: unlocked_def)
  have np1: "ramnodes ?s1 p = Some np" "ramnodes ?s1 node = Some ?n1" using v(5) vn(7) by simp_all
  have ee: "ename ?s1 = ename s" "enode ?s1 = enode s" "listing ?s1 E q = listing s E q" for q
    by (auto simp: ename_def enode_def listing_def fun_eq_iff)
  obtain d where d: "find (\<lambda>d. ename ?s1 d = t) (E p) = Some d" "enode ?s1 d = node"
    using mo by (auto simp: listing_find ee)
  from unlink_entry_run [OF wf1 u1 np1(1) v(6) d np1(2) vn(7)] obtain s' where
    tail: "\<And>f :: fs \<Rightarrow> (int \<times> fs) result. ebind (unlink_node node ?s1) (\<lambda>s. ebind (ramfs_dir_detach p d s) (\<lambda>(_, s).
        ebind (ramfs_free_dentry d s) (\<lambda>(_, s). f s))) = f s'"
    and s': "ramfs_wf s' (E(p := remove1 d (E p))) ?dots" "unlocked s'"
      "\<forall>q. listing s' (E(p := remove1 d (E p))) q = (if q = p then remove1 (t, node) (listing ?s1 E p) else listing ?s1 E q)"
      "\<exists>n'. ramnodes s' p = Some n' \<and> n_type n' = VDIR \<and> linkcount n' = linkcount np - 1"
      "\<exists>n'. ramnodes s' node = Some n' \<and> n_type n' = n_type ?n1 \<and> linkcount n' = linkcount ?n1 - 1"
      "vnodes s' = vnodes ?s1" "mounts s' = mounts ?s1" "\<forall>m. mount_ok ?s1 m \<longrightarrow> mount_ok s' m" "kalloc_ok ?s1 \<longrightarrow> kalloc_ok s'" "kept ?s1 s'" by blast
  have "mount_ok s' k" if "mount_ok s k" for k
  proof -
    have "mount_ok ?s1 k" by (rule mount_ok_mono [OF that]) auto
    then show ?thesis using s'(8) by blast
  qed
  moreover have "kalloc_ok s \<longrightarrow> kalloc_ok s'" using s'(9) by (simp add: kalloc_ok_def zeroed_def)
  moreover have "kept s ?s1" using vn(4) by (simp add: kept_def)
  then have "kept s s'" using s'(10) by (rule kept_trans)
  ultimately have mk: "(\<forall>m. mount_ok s m \<longrightarrow> mount_ok s' m) \<and> (kalloc_ok s \<longrightarrow> kalloc_ok s') \<and> kept s s'" by blast
  have look: "ramfs_dir_lookup p (t @ 0 # r) ?s1 = Inr (d, ?s1)"
    using ramfs_dir_lookup_spec [OF wf1 np1(1) v(6) lk(2) t(1,2), of r] d(1) by simp
  have dE: "d \<in> set (E p)" using d(1) by (auto simp: find_Some_iff)
  note D1 = ramfs_wfD [OF wf1]
  obtain x where x: "dentries s d = Some x" "d_node x = node" using entries_okD [OF D1(2) dE] d(2) by (metis fs.select_convs(4) fs.simps(5) fs.surjective fs.update_convs(5))
  have d0: "d \<noteq> 0" using entry_old [OF D1(1,2) dE] by simp
  have "ramfs_rmdir vd vn (t @ 0 # r) (length t) s = Inr (0, s')"
    unfolding ramfs_rmdir_def g if_False
    using em emp v vn lk u par look x d0 tail [of "\<lambda>s. Inr (0, s)"] by (simp add: run cong: ebind_arg_cong) simp
  moreover have "name_removed s E p t node s' (E(p := remove1 d (E p))) ?dots"
    using s' mk v(5,6) vn(4,5) ee(3) by (auto simp: name_removed_def simp del: fun_upd_apply)
  ultimately show "\<exists>s' E'. ramfs_rmdir vd vn (t @ 0 # r) (length t) s = Inr (0, s') \<and>
        name_removed s E p t node s' E' (dots(node := dots node - 1))" by blast
qed

subsection \<open>Destroying nodes\<close>

lemma ramfs_wf_freed: "ramfs_wf (s\<lparr>freed := F\<rparr>) E dots = ramfs_wf s E dots"
proof -
  have "enode (s\<lparr>freed := F\<rparr>) = enode s" by (simp add: enode_def fun_eq_iff)
  then have "pointing (s\<lparr>freed := F\<rparr>) E = pointing s E" by (simp add: pointing_def fun_eq_iff)
  then show ?thesis by (simp add: ramfs_wf_def bounded_def node_ok_def entries_ok_def links_ok_def)
qed

lemma ramfs_free_node_spec:
  assumes wf: "ramfs_wf s E dots" and n: "ramnodes s node = Some n"
  shows "\<exists>s'. ramfs_free_node ram node s = Inr (s'\<lparr>freed := insert node (freed s)\<rparr>) \<and> relinked s s'"
proof -
  have n0: "node \<noteq> 0" using bounded_nonzero(1) [OF ramfs_wfD(1) [OF wf] n] by simp
  have ok: "ptr_ok (ramnodes s) (n_prev n)" "ptr_ok (ramnodes s) (n_next n)" using node_okD [OF ramfs_wfD(4) [OF wf n]] .
  obtain s1 where s1: "(if n_next n \<noteq> 0 then mod_node (n_next n) (\<lambda>m. m\<lparr>n_prev := n_prev n\<rparr>) s else Inr s) = Inr s1" "relinked s s1"
    using relinked_set(2) [OF wf _ ok(1)] relinked_refl [OF wf n] ok(2)
    by (cases "n_next n = 0") (auto simp: mod_node_def ptr_ok_def)
  have wf1: "ramfs_wf s1 E dots" by (rule relinked_wf [OF wf s1(2)])
  obtain n1 where n1: "ramnodes s1 node = Some n1" using relinked_dom [OF s1(2), of node] n by auto
  let ?s2 = "put_node node (n1\<lparr>n_prev := n_next n1\<rparr>) s1"
  have s2: "relinked s1 ?s2" by (rule relinked_set(2) [OF wf1 n1 node_okD(2) [OF ramfs_wfD(4) [OF wf1 n1]]])
  have "freed ?s2 = freed s" using s1(2) by (auto simp: relinked_def put_node_def)
  then have "ramfs_free_node ram node s = Inr (?s2\<lparr>freed := insert node (freed s)\<rparr>)"
    using n0 n n1 s1(1) by (simp add: ramfs_free_node_def mod_node_def kfree_obj_def cong: ebind_arg_cong)
  with relinked_trans [OF s1(2) s2] show ?thesis by blast
qed

lemma links_zero:
  assumes "ramfs_wf s E dots" "ramnodes s p = Some n" "linkcount n = 0"
  shows "pointing s E p = {} \<and> E p = [] \<and> dots p = 0"
proof -
  note D = ramfs_wfD [OF assms(1)]
  have "linkcount n = int (card (pointing s E p) + length (E p) + dots p)" using D(3) assms(2) by (simp add: links_ok_def)
  then have "card (pointing s E p) + length (E p) + dots p = 0" using assms(3) by (metis of_nat_eq_0_iff)
  then show ?thesis using pointing_finite [OF D(1,2), of p] by simp
qed

text \<open>The state after the last reference to the vnode of \<open>node\<close> has gone.\<close>

definition forget_vnode :: "ptr \<Rightarrow> fs \<Rightarrow> fs" where
  "forget_vnode node s = s\<lparr>ramnodes := (ramnodes s)(node := map_option (\<lambda>n. n\<lparr>n_vnode := 0\<rparr>) (ramnodes s node))\<rparr>"

definition node_inactive :: "fs \<Rightarrow> (ptr \<Rightarrow> ptr list) \<Rightarrow> ptr \<Rightarrow> fs \<Rightarrow> bool" where
  "node_inactive s E node s' \<longleftrightarrow> unlocked s' \<and> (\<exists>n'. ramnodes s' node = Some n' \<and> n_vnode n' = 0) \<and>
     vnodes s' = vnodes s \<and> (\<forall>q. listing s' E q = listing s E q) \<and> mounts s' = mounts s \<and> kalloc_ok s' = kalloc_ok s \<and> ramvfss s' = ramvfss s \<and>
     kept (forget_vnode node s) s'"

lemma ramfs_inactive_spec:
  assumes wf: "ramfs_wf s E dots" "unlocked s" and vn: "vn \<noteq> 0" "vnodes s vn = Some w" "v_data w = node" "ramnodes s node = Some n"
    and mo: "v_vfs w \<noteq> 0" "mounts s (v_vfs w) \<noteq> None"
  shows "\<exists>s'. ramfs_inactive vn s = Inr s' \<and> ramfs_wf s' E dots \<and> node_inactive s E node s' \<and>
    freed s' = (if linkcount n = 0 then insert node (freed s) else freed s)"
proof -
  note D = ramfs_wfD [OF wf(1)]
  have n0: "node \<noteq> 0" using bounded_nonzero(1) [OF D(1) vn(4)] by simp
  have lk: "ramlock n = 0" using wf(2) vn(4) by (simp add: unlocked_def)
  let ?n1 = "n\<lparr>ramlock := 1, n_vnode := 0\<rparr>"
  let ?s1 = "s\<lparr>ramnodes := (ramnodes s)(node := Some ?n1)\<rparr>"
  have wf1: "ramfs_wf ?s1 E dots" by (rule node_changed_wf [OF wf(1) vn(4)]) auto
  obtain s2 where s2: "(if linkcount ?n1 = 0 then ebind (deref (mounts ?s1) (v_vfs w)) (\<lambda>m. ramfs_free_node (m_data m) node ?s1) else Inr ?s1) =
      Inr (s2\<lparr>freed := if linkcount n = 0 then insert node (freed s) else freed s\<rparr>)" "relinked ?s1 s2"
  proof (cases "linkcount n = 0")
    case True
    obtain m where "deref (mounts s) (v_vfs w) = Inr m" using mo by auto
    with ramfs_free_node_spec [OF wf1, of node ?n1 "m_data m"] True that show ?thesis by auto
  next
    case False
    have "relinked ?s1 ?s1" by (rule relinked_refl [OF wf1, of node ?n1]) simp
    with False that [of ?s1] show ?thesis by simp
  qed
  have wf2: "ramfs_wf s2 E dots" by (rule relinked_wf [OF wf1 s2(2)])
  obtain n2 where n2: "ramnodes s2 node = Some n2" using relinked_dom [OF s2(2), of node] by auto
  let ?F = "if linkcount n = 0 then insert node (freed s) else freed s"
  have n2v: "n_vnode n2 = 0" by (rule relinked_lock [OF s2(2) n2]) auto
  let ?s3 = "s2\<lparr>ramnodes := (ramnodes s2)(node := Some (n2\<lparr>ramlock := 0\<rparr>)), freed := ?F\<rparr>"
  have run: "ramfs_inactive vn s = Inr ?s3"
  proof -
    have "ramfs_inactive vn s = ebind (if linkcount ?n1 = 0 then ebind (deref (mounts ?s1) (v_vfs w)) (\<lambda>m. ramfs_free_node (m_data m) node ?s1)
        else Inr ?s1) (\<lambda>s. release_node node s)"
      using vn n0 lk by (simp add: ramfs_inactive_def fs_eval split del: if_split cong: if_cong)
    then show ?thesis unfolding s2(1) using n0 n2 by (simp add: release_node_def mod_node_def put_node_def)
  qed
  have wf3: "ramfs_wf ?s3 E dots" unfolding ramfs_wf_freed by (rule node_changed_wf [OF wf2 n2]) auto
  note sel = relinked_sel [OF s2(2)]
  have "ramlock m = 0" if "ramnodes s2 q = Some m" "q \<noteq> node" for q m
    by (rule relinked_lock [OF s2(2) that(1)]) (use that(2) wf(2) in \<open>auto simp: unlocked_def\<close>)
  then have "unlocked ?s3" by (auto simp: unlocked_def)
  moreover have "listing ?s3 E q = listing s E q" for q by (rule listing_cong) (simp add: sel)
  moreover have "kalloc_ok ?s3 = kalloc_ok s" using sel(5,6) by (simp add: kalloc_ok_def zeroed_def)
  moreover have "kept (forget_vnode node s) ?s1" using vn(4) by (auto simp: kept_def forget_vnode_def)
  then have "kept (forget_vnode node s) s2" using relinked_kept [OF s2(2)] by (rule kept_trans)
  then have "kept (forget_vnode node s) ?s3" by (rule kept_trans) (use n2 in \<open>auto simp: kept_def\<close>)
  ultimately have "node_inactive s E node ?s3" using n2v sel by (simp add: node_inactive_def)
  with run wf3 show ?thesis by (intro exI [of _ ?s3]) simp
qed

subsection \<open>The directory map without ghost arguments\<close>

text \<open>The entries of a directory, followed along the \<open>next\<close> pointers.\<close>

fun dents :: "nat \<Rightarrow> ptr \<Rightarrow> fs \<Rightarrow> ptr list" where
  "dents 0 d s = []"
| "dents (Suc k) d s = (if d = 0 then [] else case dentries s d of None \<Rightarrow> [] | Some x \<Rightarrow> d # dents k (d_next x) s)"

definition dir_names :: "fs \<Rightarrow> ptr \<Rightarrow> (u8 list \<times> ptr) list" where
  "dir_names s p = (case ramnodes s p of None \<Rightarrow> [] | Some n \<Rightarrow>
     if n_type n = VDIR then map (\<lambda>d. (ename s d, enode s d)) (dents (fs_fuel s) (dir_dentry (n_union n)) s) else [])"

definition ramfs_inv :: "fs \<Rightarrow> bool" where
  "ramfs_inv s \<longleftrightarrow> (\<exists>E dots. ramfs_wf s E dots) \<and> unlocked s \<and> kalloc_ok s"

lemma dents_chain: "dchain (dentries s) p ds \<Longrightarrow> length ds < k \<Longrightarrow> dents k p s = ds"
proof (induction ds arbitrary: p k)
  case Nil
  then show ?case by (cases k) auto
next
  case (Cons d ds)
  then show ?case by (cases k) auto
qed

lemma dir_names_listing:
  assumes "ramfs_wf s E dots"
  shows "dir_names s p = listing s E p"
proof (cases "ramnodes s p")
  case None
  then have "E p = []" using ramfs_wfD(2) [OF assms] by (simp add: entries_ok_def)
  with None show ?thesis by (simp add: dir_names_def listing_def)
next
  case (Some n)
  show ?thesis
  proof (cases "n_type n = VDIR")
    case True
    then show ?thesis using dir_nodeE [OF assms Some True] dents_chain Some by (fastforce simp: dir_names_def listing_def)
  next
    case False
    then have "E p = []" using ramfs_wfD(4) [OF assms Some] by (simp add: node_ok_def)
    with Some False show ?thesis by (simp add: dir_names_def listing_def)
  qed
qed

text \<open>The two operations that change a directory, as \<^verbatim>\<open>vfs.c\<close> calls them.\<close>

definition ramfs_creates :: "ptr \<Rightarrow> u8 list \<Rightarrow> fs \<Rightarrow> ptr \<Rightarrow> fs \<Rightarrow> bool" where
  "ramfs_creates p t s n s' \<longleftrightarrow> (\<exists>vd r type target vn v. dir_vnode s vd p \<and> t \<noteq> [] \<and> 0 \<notin> set t \<and> link_arg_ok type target \<and>
     (target \<noteq> None \<longrightarrow> type = VLNK) \<and> ramfs_alloc_file vd (t @ r) (length t) type target s = Inr (0, Some vn, s') \<and>
     vnodes s' vn = Some v \<and> v_data v = n)"

definition ramfs_removes :: "ptr \<Rightarrow> u8 list \<Rightarrow> fs \<Rightarrow> fs \<Rightarrow> bool" where
  "ramfs_removes p t s s' \<longleftrightarrow> (\<exists>vd vn w node n r. dir_vnode s vd p \<and> t \<noteq> [] \<and> 0 \<notin> set t \<and>
     vn \<noteq> 0 \<and> vnodes s vn = Some w \<and> v_data w = node \<and> ramnodes s node = Some n \<and> v_type w = n_type n \<and>
     map_of (dir_names s p) t = Some node \<and>
     (if n_type n = VDIR
      then dir_parent (n_union n) = p \<and> node \<noteq> p \<and> t \<noteq> bytes ''..'' \<and> (\<exists>E dots. ramfs_wf s E dots \<and> 0 < dots node) \<and>
           ramfs_rmdir vd vn (t @ 0 # r) (length t) s = Inr (0, s')
      else ramfs_remove vd vn (t @ 0 # r) s = Inr (0, s')))"

lemma ramfs_creates_spec:
  assumes "ramfs_wf s E dots" "unlocked s" "kalloc_ok s" "ramfs_creates p t s n s'"
  shows "\<exists>E' dots' vn type vfs. file_created s E dots p t type vfs s' E' dots' n vn"
proof -
  obtain vd r type target vn v where c: "dir_vnode s vd p" "t \<noteq> []" "0 \<notin> set t" "link_arg_ok type target"
    "target \<noteq> None \<longrightarrow> type = VLNK" "ramfs_alloc_file vd (t @ r) (length t) type target s = Inr (0, Some vn, s')"
    "vnodes s' vn = Some v" "v_data v = n" using assms(4) unfolding ramfs_creates_def by blast
  obtain w where w: "vnodes s vd = Some w" using c(1) by (auto simp: dir_vnode_def)
  obtain E' dots' node where "file_created s E dots p t type (v_vfs w) s' E' dots' node vn"
    using ramfs_alloc_file_spec [OF assms(1-3) w c(1) refl c(2-5), of r] c(6) by auto
  moreover have "node = n" using calculation c(7,8) by (auto simp: file_created_def)
  ultimately show ?thesis by blast
qed

lemma ramfs_removes_spec:
  assumes "ramfs_wf s E dots" "unlocked s" "ramfs_removes p t s s'"
  shows "\<exists>E' dots' node. map_of (dir_names s p) t = Some node \<and> name_removed s E p t node s' E' dots'"
proof -
  obtain vd vn w node n r where c: "dir_vnode s vd p" "t \<noteq> []" "0 \<notin> set t" "vn \<noteq> 0" "vnodes s vn = Some w" "v_data w = node"
    "ramnodes s node = Some n" "v_type w = n_type n" "map_of (dir_names s p) t = Some node"
    "if n_type n = VDIR then dir_parent (n_union n) = p \<and> node \<noteq> p \<and> t \<noteq> bytes ''..'' \<and> (\<exists>E dots. ramfs_wf s E dots \<and> 0 < dots node) \<and>
        ramfs_rmdir vd vn (t @ 0 # r) (length t) s = Inr (0, s')
      else ramfs_remove vd vn (t @ 0 # r) s = Inr (0, s')" using assms(3) unfolding ramfs_removes_def by blast
  show ?thesis
  proof (cases "n_type n = VDIR")
    case True
    then obtain F dt where F: "ramfs_wf s F dt" "0 < dt node" and k: "dir_parent (n_union n) = p" "node \<noteq> p" "t \<noteq> bytes ''..''"
      "ramfs_rmdir vd vn (t @ 0 # r) (length t) s = Inr (0, s')" using c(10) by auto
    have ls: "listing s F q = listing s E q" for q using dir_names_listing [OF F(1)] dir_names_listing [OF assms(1)] by metis
    note rm = ramfs_rmdir_spec [OF F(1) assms(2) c(1,4-7) True k(1,2) F(2) c(2,3) k(3), of r]
    have e: "listing s F node = []" using rm(1) k(4) by (auto simp: ENOTEMPTY_def)
    then obtain E' where "name_removed s F p t node s' E' (dt(node := dt node - 1))"
      using rm(2) [OF e] k(4) c(9) dir_names_listing [OF F(1)] by auto
    then show ?thesis using c(9) ls by (auto simp: name_removed_def)
  next
    case False
    then have "ramfs_remove vd vn (t @ 0 # r) s = Inr (0, s')" using c(10) by simp
    then obtain E' where "name_removed s E p t node s' E' dots"
      using ramfs_remove_spec [OF assms(1,2) c(1,4,5) _ c(6,7) False c(2,3), of r] False c(8,9) dir_names_listing [OF assms(1)] by auto
    then show ?thesis using c(9) by blast
  qed
qed

interpretation ramdir: name_space ramfs_inv dir_names ramfs_creates ramfs_removes
proof unfold_locales
  fix s d k n s' e
  assume inv: "ramfs_inv s" and c: "ramfs_creates d k s n s'"
  from inv obtain E dots where wf: "ramfs_wf s E dots" "unlocked s" "kalloc_ok s" by (auto simp: ramfs_inv_def)
  from ramfs_creates_spec [OF wf c] obtain E' dots' vn type vfs where f: "file_created s E dots d k type vfs s' E' dots' n vn" by blast
  then show "ramfs_inv s'" by (auto simp: ramfs_inv_def file_created_def)
  show "dir_names s' e = (if e = d then (k, n) # dir_names s d else dir_names s e)"
    using f dir_names_listing [OF wf(1)] dir_names_listing [of s' E' dots'] by (auto simp: file_created_def)
next
  fix s d k s'
  assume inv: "ramfs_inv s" and c: "ramfs_removes d k s s'"
  from inv obtain E dots where wf: "ramfs_wf s E dots" "unlocked s" "kalloc_ok s" by (auto simp: ramfs_inv_def)
  from ramfs_removes_spec [OF wf(1,2) c] obtain E' dots' node where
    f: "map_of (dir_names s d) k = Some node" "name_removed s E d k node s' E' dots'" by blast
  then show "ramfs_inv s'" using wf(3) by (auto simp: ramfs_inv_def name_removed_def)
  have "\<forall>e. dir_names s' e = (if e = d then remove1 (k, node) (dir_names s d) else dir_names s e)"
    using f(2) dir_names_listing [OF wf(1)] dir_names_listing [of s' E' dots'] by (auto simp: name_removed_def)
  with map_of_SomeD [OF f(1)] show "\<exists>n. (k, n) \<in> set (dir_names s d) \<and>
    (\<forall>e. dir_names s' e = (if e = d then remove1 (k, n) (dir_names s d) else dir_names s e))" by blast
qed

subsection \<open>Using a file just created\<close>

lemma ramfs_invE:
  assumes "ramfs_inv s"
  obtains E dots where "ramfs_wf s E dots" "unlocked s" "kalloc_ok s" "\<And>p. dir_names s p = listing s E p"
  using assms dir_names_listing by (auto simp: ramfs_inv_def)

lemma file_createdD:
  assumes "file_created s E dots p t type vfs s' E' dots' node vn"
  shows "ramfs_wf s' E' dots'" "unlocked s'" "kalloc_ok s'"
  using assms unfolding file_created_def by blast+

lemma file_createdE:
  assumes f: "file_created s E dots p t type vfs s' E' dots' node vn" and p: "ramnodes s p \<noteq> None"
  obtains d ds n where "E' p = d # ds" "ename s' d = t" "enode s' d = node" "node \<noteq> p" "vn \<noteq> 0"
    "ramnodes s' node = Some n" "n_type n = type" "n_vnode n = vn" "n_union n = Dir 0 p SEQ_START \<or> type \<noteq> VDIR"
    "E' node = []" "dir_names s' p = (t, node) # listing s E p" "\<And>q. q \<noteq> p \<Longrightarrow> dir_names s' q = listing s E q"
proof -
  have wf: "ramfs_wf s' E' dots'" and ls: "listing s' E' p = (t, node) # listing s E p" "\<And>q. q \<noteq> p \<Longrightarrow> listing s' E' q = listing s E q"
    and nn: "ramnodes s node = None" using f by (auto simp: file_created_def)
  obtain n where n: "ramnodes s' node = Some n" "n_type n = type" "n_vnode n = vn" "n_union n = Dir 0 p SEQ_START \<or> type \<noteq> VDIR"
    using f unfolding file_created_def by blast
  obtain d ds where d: "E' p = d # ds" "ename s' d = t" "enode s' d = node" using ls(1) by (auto simp: listing_def)
  have v: "vnodes s' vn \<noteq> None" using f by (auto simp: file_created_def)
  have "vn \<noteq> 0" using v bounded_nonzero(3) [OF ramfs_wfD(1) [OF wf]] by (metis not_Some_eq less_irrefl)
  moreover have "E' node = []"
  proof (cases "type = VDIR")
    case True
    then show ?thesis using n dir_nodeE [OF wf n(1)] dchain_zero by (metis contents.inject(1))
  next
    case False
    then show ?thesis using ramfs_wfD(4) [OF wf n(1)] n(2) by (simp add: node_ok_def)
  qed
  ultimately show ?thesis using that d n nn p ls dir_names_listing [OF wf] by metis
qed

lemma dir_vnode_created:
  assumes f: "file_created s E dots p t type vfs s' E' dots' node vn" and v: "dir_vnode s vd p"
  shows "dir_vnode s' vd p" "vnodes s' vd = vnodes s vd"
proof -
  obtain v n where v: "vd \<noteq> 0" "vnodes s vd = Some v" "v_type v = VDIR" "v_data v = p" "ramnodes s p = Some n" "n_type n = VDIR"
    "mount_ok s (v_vfs v)" using v by (auto simp: dir_vnode_def)
  have "vnodes s vn = None" "\<forall>w. w \<noteq> vn \<longrightarrow> vnodes s' w = vnodes s w" using f by (simp_all add: file_created_def)
  then show eq: "vnodes s' vd = vnodes s vd" using v(2) by (metis option.distinct(1))
  obtain n' where "ramnodes s' p = Some n'" "n_type n' = VDIR" "mount_ok s' (v_vfs v)"
    using f v(5-7) unfolding file_created_def by metis
  with eq v show "dir_vnode s' vd p" by (auto simp: dir_vnode_def)
qed

text \<open>The vnode with one more reference.\<close>

definition vnode_ref :: "ptr \<Rightarrow> fs \<Rightarrow> fs" where
  "vnode_ref vn s = s\<lparr>vnodes := (vnodes s)(vn := map_option (\<lambda>v. v\<lparr>v_refcount := v_refcount v + 1\<rparr>) (vnodes s vn))\<rparr>"

lemma lookup_created:
  assumes f: "file_created s E dots p t type vfs s' E' dots' node vn" and v: "dir_vnode s vd p"
    and t: "t \<noteq> []" "0 \<notin> set t" "t \<noteq> bytes ''.''" "t \<noteq> bytes ''..''"
  shows "ramfs_lookup vd (t @ 0 # q) (length t) s' = Inr (0, Some vn, vnode_ref vn s') \<and> ramfs_inv (vnode_ref vn s') \<and>
    dir_names (vnode_ref vn s') = dir_names s'"
proof -
  have p: "ramnodes s p \<noteq> None" using v by (auto simp: dir_vnode_def)
  obtain d ds n where d: "E' p = d # ds" "ename s' d = t" "enode s' d = node" "node \<noteq> p" "vn \<noteq> 0"
    "ramnodes s' node = Some n" "n_vnode n = vn" by (rule file_createdE [OF f p]) blast
  note wf = file_createdD [OF f]
  obtain w where w: "vnodes s' vd = Some w" "dir_vnode s' vd p" using dir_vnode_created [OF f v] v by (auto simp: dir_vnode_def)
  have m: "lookup_match s' E' p t = Some d" using d(1,2) by (simp add: lookup_match_def)
  have fr: "vnode_free s' n" using f d(7) by (auto simp: vnode_free_def file_created_def)
  have g: "got_vnode (v_vfs w) node n s' = (vn, vnode_ref vn s')" using d(5,7) by (simp add: got_vnode_def vnode_ref_def)
  have z: "zeroed s'" using wf(3) by (simp add: kalloc_ok_def)
  have wf2: "ramfs_wf (vnode_ref vn s') E' dots'" using got_vnode_wf [OF wf(1) d(6), of "v_vfs w"] g by simp
  have "unlocked (vnode_ref vn s')" "kalloc_ok (vnode_ref vn s')"
    using wf(2,3) by (simp_all add: unlocked_def kalloc_ok_def zeroed_def vnode_ref_def)
  moreover have "dir_names (vnode_ref vn s') e = dir_names s' e" for e
    unfolding dir_names_listing [OF wf2] dir_names_listing [OF wf(1)] by (rule listing_cong) (simp add: vnode_ref_def)
  ultimately show ?thesis using ramfs_lookup_spec(2) [OF wf(1,2) z w t append_Nil2 [symmetric] m, of n q] d(3,4,6) fr g wf2
    by (auto simp: ramfs_inv_def fun_eq_iff)
qed

lemma rmdir_created:
  assumes f: "file_created s E dots p t VDIR vfs s' E' dots' node vn" and v: "dir_vnode s vd p"
    and t: "t \<noteq> []" "0 \<notin> set t" "t \<noteq> bytes ''..''"
  shows "\<exists>s'' E''. ramfs_rmdir vd vn (t @ 0 # q) (length t) s' = Inr (0, s'') \<and>
    name_removed s' E' p t node s'' E'' (dots'(node := dots' node - 1)) \<and> dir_names s'' = listing s E"
proof -
  have p: "ramnodes s p \<noteq> None" using v by (auto simp: dir_vnode_def)
  obtain n where d: "node \<noteq> p" "vn \<noteq> 0" "ramnodes s' node = Some n" "n_type n = VDIR" "dir_parent (n_union n) = p"
    "E' node = []" "dir_names s' p = (t, node) # listing s E p" "\<And>q. q \<noteq> p \<Longrightarrow> dir_names s' q = listing s E q"
    by (rule file_createdE [OF f p]) auto
  note wf = file_createdD(1,2) [OF f]
  have dots: "0 < dots' node" using f by (simp add: file_created_def)
  obtain w where w: "vnodes s' vn = Some w" "v_data w = node" using f by (auto simp: file_created_def)
  have em: "listing s' E' node = []" using d(6) by (simp add: listing_def)
  have mo: "map_of (listing s' E' p) t = Some node" using d(7) dir_names_listing [OF wf(1)] by simp
  obtain s'' E'' where r: "ramfs_rmdir vd vn (t @ 0 # q) (length t) s' = Inr (0, s'')"
    "name_removed s' E' p t node s'' E'' (dots'(node := dots' node - 1))"
    using ramfs_rmdir_spec(2) [OF wf dir_vnode_created(1) [OF f v] d(2) w d(3,4,5,1) dots t em mo] by blast
  have "dir_names s'' e = listing s E e" for e
    using r(2) d(7,8) dir_names_listing [OF wf(1)] dir_names_listing [of s'' E''] by (cases "e = p") (auto simp: name_removed_def)
  with r show ?thesis by (auto simp: fun_eq_iff)
qed

subsection \<open>A mounted, empty file system\<close>

text \<open>Root vnode 1 on node 2, mount 3 with its ramfs structure 4.\<close>

definition root_fs :: fs where
  "root_fs = \<lparr>vnodes = [1 \<mapsto> \<lparr>v_vfs = 3, v_mountedhere = 0, v_type = VDIR, v_refcount = 1, v_flags = VROOT, v_lock = 0, v_data = 2\<rparr>],
     mounts = [3 \<mapsto> \<lparr>m_next = 0, mountpoint = 0, m_flags = 1, m_data = 4\<rparr>], ramvfss = [4 \<mapsto> \<lparr>rv_root = 2, rv_nodes = 2\<rparr>],
     dentries = Map.empty,
     ramnodes = [2 \<mapsto> \<lparr>n_prev = 0, n_next = 0, n_vnode = 1, n_type = VDIR, ramlock = 0, linkcount = 2, n_union = Dir 0 2 SEQ_START\<rparr>],
     next_ptr = 5, freed = {}, rootfs = 3, rootvn = 1, mountedlist = 3, vfslist_lock = 0, vfs_types = [cstr (bytes ''ramfs'')],
     junk_ptr = 0, junk_flags = 0, junk_bytes = (\<lambda>k. replicate k 0)\<rparr>"

lemma root_fs_wf:
  "ramfs_wf root_fs (\<lambda>_. []) ((\<lambda>_. 0)(2 := 2))" "unlocked root_fs" "kalloc_ok root_fs" "dir_vnode root_fs 1 2"
  "ramfs_inv root_fs" "dir_names root_fs d = []"
proof -
  show wf: "ramfs_wf root_fs (\<lambda>_. []) ((\<lambda>_. 0)(2 := 2))"
    by (auto simp: ramfs_wf_def bounded_def node_ok_def entries_ok_def links_ok_def pointing_def root_fs_def ptr_ok_def split: if_splits)
  show u: "unlocked root_fs" "kalloc_ok root_fs"
    by (auto simp: unlocked_def kalloc_ok_def zeroed_def root_fs_def split: if_splits)
  show "dir_vnode root_fs 1 2" by (simp add: dir_vnode_def mount_ok_def ptr_ok_def root_fs_def)
  show "ramfs_inv root_fs" using wf u by (auto simp: ramfs_inv_def)
  show "dir_names root_fs d = []" using dir_names_listing [OF wf] by (simp add: listing_def)
qed

subsection \<open>Properties\<close>

text \<open>
  C6 (ramfs implements maps from names to nodes).  Take any history of file creations (\<open>ramfs_alloc_file\<close> of any type,
  in any directory, of a name that is not there) and removals (\<open>ramfs_remove\<close> of a file, \<open>ramfs_rmdir\<close> of
  an empty directory) from a well-formed file system.  Afterwards it is well-formed again, no directory has a name
  twice, and the directories are exactly the maps that the same history of bindings and unbindings gives.
\<close>
theorem ramfs_refines_maps:
  assumes "name_run dir_names ramfs_creates ramfs_removes s ops s'"
    and "ramfs_inv s" and "\<And>d. distinct (map fst (dir_names s d))"
  shows "ramfs_inv s' \<and> (\<forall>d. distinct (map fst (dir_names s' d))) \<and>
    (\<lambda>d. map_of (dir_names s' d)) = fold apply_op ops (\<lambda>d. map_of (dir_names s d))"
proof -
  have "ramdir.uniq s" using assms(2,3) by (simp add: ramdir.uniq_def)
  from ramdir.run_view [OF assms(1) this] show ?thesis by (simp add: ramdir.uniq_def ramdir.view_def [abs_def])
qed

lemma bytes_a: "bytes ''a'' \<noteq> []" "0 \<notin> set (bytes ''a'')" "bytes ''a'' \<noteq> bytes ''.''" "bytes ''a'' \<noteq> bytes ''..''"
  by (simp_all add: bytes_def)

lemma root_fs_create:
  assumes "link_arg_ok type None"
  obtains s' E' dots' node vn where
    "ramfs_alloc_file 1 (bytes ''a'' @ 0 # q) (length (bytes ''a'')) type None root_fs = Inr (0, Some vn, s')"
    "file_created root_fs (\<lambda>_. []) ((\<lambda>_. 0)(2 := 2)) 2 (bytes ''a'') type 3 s' E' dots' node vn"
    "ramfs_creates 2 (bytes ''a'') root_fs node s'"
proof -
  have v: "vnodes root_fs 1 = Some (the (vnodes root_fs 1))" "v_vfs (the (vnodes root_fs 1)) = 3" by (simp_all add: root_fs_def)
  obtain s' E' dots' node vn where f:
    "ramfs_alloc_file 1 (bytes ''a'' @ 0 # q) (length (bytes ''a'')) type None root_fs = Inr (0, Some vn, s')"
    "file_created root_fs (\<lambda>_. []) ((\<lambda>_. 0)(2 := 2)) 2 (bytes ''a'') type 3 s' E' dots' node vn"
    using ramfs_alloc_file_spec [OF root_fs_wf(1,2,3) v(1) root_fs_wf(4) refl bytes_a(1,2) assms, of "0 # q"] v(2) by auto
  then have "\<exists>v. vnodes s' vn = Some v \<and> v_data v = node" by (auto simp: file_created_def)
  then have "ramfs_creates 2 (bytes ''a'') root_fs node s'"
    unfolding ramfs_creates_def using f(1) root_fs_wf(4) bytes_a(1,2) assms by blast
  with f show ?thesis by (rule that)
qed

theorem ramfs_refines_maps_witness:
  "\<exists>s' node. name_run dir_names ramfs_creates ramfs_removes root_fs [Create 2 (bytes ''a'') node] s' \<and>
     map_of (dir_names s' 2) (bytes ''a'') = Some node \<and> map_of (dir_names s' 2) (bytes ''b'') = None"
proof -
  have l: "link_arg_ok VREG None" by (simp add: link_arg_ok_def)
  obtain s' node where c: "ramfs_creates 2 (bytes ''a'') root_fs node s'" using root_fs_create [OF l] by metis
  have r: "name_run dir_names ramfs_creates ramfs_removes root_fs [Create 2 (bytes ''a'') node] s'"
    using c by (auto intro!: run_create run_nil simp: root_fs_wf(6))
  have "(\<lambda>d. map_of (dir_names s' d)) = fold apply_op [Create 2 (bytes ''a'') node] (\<lambda>d. map_of (dir_names root_fs d))"
    using ramfs_refines_maps [OF r root_fs_wf(5)] by (simp add: root_fs_wf(6))
  then have "map_of (dir_names s' 2) = [bytes ''a'' \<mapsto> node]" by (simp add: root_fs_wf(6) fun_eq_iff)
  moreover have "bytes ''b'' \<noteq> bytes ''a''" by (simp add: bytes_def)
  ultimately show ?thesis using r by (intro exI [of _ s'] exI [of _ node]) simp
qed

text \<open>
  A created file is found: Creating a file of any type but a link in a directory of a well-formed file system
  succeeds and puts the name in front of the directory's list, leaving all others as they were; the new vnode is unlocked,
  has one reference and the requested type; a directory starts with two links, another file with one, and the parent
  gains one.  A lookup of the same name then returns that very vnode, with one more reference, and changes no
  directory.
\<close>

lemma ramfs_create_lookup:
  assumes "ramfs_inv s" and "dir_vnode s vd p" and "type \<noteq> VLNK"
    and "t \<noteq> []" "0 \<notin> set t" "t \<noteq> bytes ''.''" "t \<noteq> bytes ''..''"
  shows "\<exists>s' vn node v n. ramfs_create vd (t @ 0 # q) (length t) type s = Inr (0, Some vn, s') \<and> ramfs_inv s' \<and>
    dir_names s' = (dir_names s)(p := (t, node) # dir_names s p) \<and>
    vnodes s vn = None \<and> vnodes s' = (vnodes s)(vn := Some v) \<and> v_data v = node \<and> v_type v = type \<and> v_refcount v = 1 \<and>
    v_lock v = 0 \<and> ramnodes s' node = Some n \<and> linkcount n = (if type = VDIR then 2 else 1) \<and>
    ramfs_lookup vd (t @ 0 # q) (length t) s' = Inr (0, Some vn, vnode_ref vn s') \<and>
    ramfs_inv (vnode_ref vn s') \<and> dir_names (vnode_ref vn s') = dir_names s'"
proof -
  obtain E dots where wf: "ramfs_wf s E dots" "unlocked s" "kalloc_ok s" and nm: "\<And>p. dir_names s p = listing s E p"
    using ramfs_invE [OF assms(1)] by metis
  obtain v where v: "vnodes s vd = Some v" and p: "ramnodes s p \<noteq> None" using assms(2) by (auto simp: dir_vnode_def)
  have l: "link_arg_ok type None" using assms(3) by (simp add: link_arg_ok_def)
  obtain s' E' dots' node vn where r: "ramfs_alloc_file vd (t @ 0 # q) (length t) type None s = Inr (0, Some vn, s')"
    and f: "file_created s E dots p t type (v_vfs v) s' E' dots' node vn"
    using ramfs_alloc_file_spec [OF wf v assms(2) refl assms(4,5) l, of "0 # q"] by auto
  have inv: "ramfs_inv s'" using file_createdD [OF f] by (auto simp: ramfs_inv_def)
  have "dir_names s' e = ((dir_names s)(p := (t, node) # dir_names s p)) e" for e
    by (rule file_createdE [OF f p]) (simp add: nm)
  then have names: "dir_names s' = (dir_names s)(p := (t, node) # dir_names s p)" by blast
  obtain w n where w: "vnodes s' vn = Some w" "v_data w = node" "v_type w = type" "v_refcount w = 1" "v_lock w = 0" "vnodes s vn = None"
    "ramnodes s' node = Some n" "linkcount n = (if type = VDIR then 2 else 1)" using f by (auto simp: file_created_def)
  have "vnodes s' = (vnodes s)(vn := Some w)" using f w(1) by (auto simp: file_created_def fun_eq_iff)
  with r inv names w lookup_created [OF f assms(2,4-7), of q] show ?thesis unfolding ramfs_create_def by blast
qed

text \<open>
  C10 (creating and removing a directory).  \<open>ramfs_mkdir\<close> followed by \<open>ramfs_rmdir\<close> of the same name succeeds and restores
  every directory to what it was, and the link count of the parent; the removed directory is left with link count 0,
  so that its node goes when its vnode does.
\<close>
theorem ramfs_mkdir_rmdir:
  assumes "ramfs_inv s" and "dir_vnode s vd p" and "ramnodes s p = Some np"
    and "t \<noteq> []" "0 \<notin> set t" "t \<noteq> bytes ''..''"
  shows "\<exists>s' s'' vn v n np'. ramfs_mkdir vd (t @ 0 # q) (length t) s = Inr (0, Some vn, s') \<and>
    ramfs_rmdir vd vn (t @ 0 # q) (length t) s' = Inr (0, s'') \<and> ramfs_inv s'' \<and> dir_names s'' = dir_names s \<and>
    vnodes s'' vn = Some v \<and> ramnodes s'' (v_data v) = Some n \<and> linkcount n = 0 \<and>
    ramnodes s'' p = Some np' \<and> linkcount np' = linkcount np"
proof -
  obtain E dots where wf: "ramfs_wf s E dots" "unlocked s" "kalloc_ok s" and nm: "\<And>p. dir_names s p = listing s E p"
    using ramfs_invE [OF assms(1)] by metis
  obtain v where v: "vnodes s vd = Some v" using assms(2) by (auto simp: dir_vnode_def)
  have l: "link_arg_ok VDIR None" by (simp add: link_arg_ok_def)
  obtain s' E' dots' node vn where r: "ramfs_alloc_file vd (t @ 0 # q) (length t) VDIR None s = Inr (0, Some vn, s')"
    and f: "file_created s E dots p t VDIR (v_vfs v) s' E' dots' node vn"
    using ramfs_alloc_file_spec [OF wf v assms(2) refl assms(4,5) l, of "0 # q"] by auto
  obtain s'' E'' where rm: "ramfs_rmdir vd vn (t @ 0 # q) (length t) s' = Inr (0, s'')"
    "name_removed s' E' p t node s'' E'' (dots'(node := dots' node - 1))" "dir_names s'' = listing s E"
    using rmdir_created [OF f assms(2,4-6), of q] by blast
  obtain w n np1 where w: "vnodes s' vn = Some w" "v_data w = node" "ramnodes s' node = Some n" "linkcount n = 2" "n_type n = VDIR"
    "ramnodes s' p = Some np1" "linkcount np1 = linkcount np + 1" using f assms(3) by (auto simp: file_created_def)
  have inv: "ramfs_inv s''" using rm(2) file_createdD(3) [OF f] by (auto simp: ramfs_inv_def name_removed_def)
  have vv: "vnodes s'' vn = Some w" using rm(2) w(1) by (simp add: name_removed_def)
  obtain n' np' where "ramnodes s'' node = Some n'" "linkcount n' = 0" "ramnodes s'' p = Some np'" "linkcount np' = linkcount np"
    using rm(2) w unfolding name_removed_def by fastforce
  moreover have "dir_names s'' = dir_names s" using rm(3) nm by auto
  ultimately show ?thesis unfolding ramfs_mkdir_def using r rm(1) inv vv w(2) by blast
qed

theorem ramfs_mkdir_rmdir_witness:
  "\<exists>s' s'' vn. ramfs_mkdir 1 (cstr (bytes ''a'')) (length (bytes ''a'')) root_fs = Inr (0, Some vn, s') \<and>
     ramfs_rmdir 1 vn (cstr (bytes ''a'')) (length (bytes ''a'')) s' = Inr (0, s'') \<and> dir_names s'' = dir_names root_fs"
proof -
  have n: "ramnodes root_fs 2 = Some (the (ramnodes root_fs 2))" by (simp add: root_fs_def)
  show ?thesis using ramfs_mkdir_rmdir [OF root_fs_wf(5,4) n bytes_a(1,2,4), of "[]"] by (auto simp: cstr_def)
qed

text \<open>
  C8 (nodes are destroyed exactly when nothing links to them).  When the last reference to a vnode goes, \<open>ramfs_inactive\<close>
  returns, detaches the vnode from its node and keeps the file system well-formed and every directory as it was.  It frees
  the node if and only if the node's link count is 0, and then no entry of any directory points to the node and the
  node has no entries of its own.
\<close>
theorem ramfs_inactive_frees_unlinked:
  assumes "ramfs_inv s" and "vn \<noteq> 0" "vnodes s vn = Some w" "ramnodes s (v_data w) = Some n" "v_vfs w \<noteq> 0" "mounts s (v_vfs w) \<noteq> None"
    and "v_data w \<notin> freed s"
  shows "\<exists>s'. ramfs_inactive vn s = Inr s' \<and> ramfs_inv s' \<and> dir_names s' = dir_names s \<and>
    (v_data w \<in> freed s' \<longleftrightarrow> linkcount n = 0) \<and>
    (v_data w \<in> freed s' \<longrightarrow> dir_names s (v_data w) = [] \<and> (\<forall>p. v_data w \<notin> snd ` set (dir_names s p)))"
proof -
  obtain E dots where wf: "ramfs_wf s E dots" "unlocked s" "kalloc_ok s" and nm: "\<And>p. dir_names s p = listing s E p"
    using ramfs_invE [OF assms(1)] by metis
  obtain s' where s': "ramfs_inactive vn s = Inr s'" "ramfs_wf s' E dots" "node_inactive s E (v_data w) s'"
    "freed s' = (if linkcount n = 0 then insert (v_data w) (freed s) else freed s)"
    using ramfs_inactive_spec [OF wf(1,2) assms(2,3) refl assms(4-6)] by blast
  have "ramfs_inv s'" using s'(2,3) wf(3) by (auto simp: ramfs_inv_def node_inactive_def)
  moreover have "dir_names s' = dir_names s" using s'(3) nm dir_names_listing [OF s'(2)] by (auto simp: node_inactive_def fun_eq_iff)
  moreover have "dir_names s (v_data w) = [] \<and> (\<forall>p. v_data w \<notin> snd ` set (dir_names s p))" if "linkcount n = 0"
    using links_zero [OF wf(1) assms(4) that] by (auto simp: nm listing_def pointing_def)
  ultimately show ?thesis using s'(1,4) assms(7) by auto
qed

theorem ramfs_inactive_frees_unlinked_witness: "\<exists>s'. ramfs_inactive 1 root_fs = Inr s' \<and> 2 \<notin> freed s'"
proof -
  obtain w n where w: "vnodes root_fs 1 = Some w" "v_data w = 2" "v_vfs w = 3" "ramnodes root_fs (v_data w) = Some n"
    "linkcount n = 2" "mounts root_fs (v_vfs w) \<noteq> None" "v_data w \<notin> freed root_fs" by (simp add: root_fs_def)
  with ramfs_inactive_frees_unlinked [OF root_fs_wf(5) _ w(1,4)] show ?thesis by auto
qed

text \<open>
  C19 (lookup compares prefixes).  On a well-formed file system \<open>ramfs_lookup\<close> of the component \<open>t\<close> returns \<open>-ENOENT\<close>, with a null
  vnode and the state unchanged, if and only if no name in the directory starts with \<open>t\<close>; otherwise it returns the vnode of the
  first entry whose name starts with \<open>t\<close>.  So \<open>main.c\<close> finds \<open>main.ccc\<close>, as the comment at the loop says.
\<close>
theorem ramfs_lookup_by_prefix:
  assumes "ramfs_inv s" and "dir_vnode s vd p"
    and "u \<noteq> []" "0 \<notin> set u" "u \<noteq> bytes ''.''" "u \<noteq> bytes ''..''" "u = t @ r"
  shows "case find (\<lambda>(k, n). take (length t) k = t) (dir_names s p) of
      None \<Rightarrow> ramfs_lookup vd (u @ 0 # q) (length t) s = Inr (- ENOENT, Some 0, s)
    | Some (k, node) \<Rightarrow> (\<exists>n. ramnodes s node = Some n \<and> (node \<noteq> p \<longrightarrow> vnode_free s n \<longrightarrow>
        (\<exists>vn v s'. ramfs_lookup vd (u @ 0 # q) (length t) s = Inr (0, Some vn, s') \<and> vnodes s' vn = Some v \<and>
           v_data v = node \<and> v_type v = n_type n \<and> ramfs_inv s' \<and> dir_names s' = dir_names s)))"
proof -
  obtain E dots where wf: "ramfs_wf s E dots" "unlocked s" "kalloc_ok s" and nm: "\<And>p. dir_names s p = listing s E p"
    using ramfs_invE [OF assms(1)] by metis
  obtain v where v: "vnodes s vd = Some v" using assms(2) by (auto simp: dir_vnode_def)
  have z: "zeroed s" using wf(3) by (simp add: kalloc_ok_def)
  note look = ramfs_lookup_spec [OF wf(1,2) z v assms(2-7), where q = q]
  have "find (\<lambda>(k, n). take (length t) k = t) (map (\<lambda>d. (ename s d, enode s d)) ds) =
      map_option (\<lambda>d. (ename s d, enode s d)) (find (\<lambda>d. take (length t) (ename s d) = t) ds)" for ds
    by (induction ds) auto
  then have m: "find (\<lambda>(k, n). take (length t) k = t) (dir_names s p) =
      map_option (\<lambda>d. (ename s d, enode s d)) (lookup_match s E p t)" by (simp add: nm listing_def lookup_match_def)
  show ?thesis
  proof (cases "lookup_match s E p t")
    case None
    then show ?thesis using m look(1) by simp
  next
    case (Some d)
    then have "d \<in> set (E p)" by (auto simp: lookup_match_def find_Some_iff)
    then obtain n where n: "ramnodes s (enode s d) = Some n" using entries_okD [OF ramfs_wfD(2) [OF wf(1)]] by (metis not_Some_eq)
    let ?g = "got_vnode (v_vfs v) (enode s d) n s"
    have wf': "ramfs_wf (snd ?g) E dots" "unlocked (snd ?g)" "kalloc_ok (snd ?g)"
      using got_vnode_wf [OF wf(1) n] unlocked_got_vnode [OF wf(2) n] wf(3) by (simp_all add: kalloc_ok_def)
    have "ramnodes (snd ?g) (enode s d) = Some (n\<lparr>n_vnode := fst ?g\<rparr>)" using got_vnode_nodes [OF n] by simp
    moreover have "fst ?g \<noteq> 0" using bounded_fresh(4) [OF ramfs_wfD(1) [OF wf(1)]] by (simp add: got_vnode_def)
    ultimately have "\<exists>w. vnodes (snd ?g) (fst ?g) = Some w \<and> v_data w = enode s d \<and> v_type w = n_type n"
      using ramfs_wfD(4) [OF wf'(1)] by (fastforce simp: node_ok_def)
    moreover have "dir_names (snd ?g) = dir_names s"
      using dir_names_listing [OF wf'(1)] nm by (auto simp: fun_eq_iff intro: listing_cong)
    moreover have "ramfs_inv (snd ?g)" using wf' by (auto simp: ramfs_inv_def)
    ultimately show ?thesis using m Some n look(2) [OF Some _ n] by (auto intro!: exI [of _ n])
  qed
qed

theorem ramfs_lookup_by_prefix_witness: "ramfs_lookup 1 (cstr (bytes ''a'')) (length (bytes ''a'')) root_fs = Inr (- ENOENT, Some 0, root_fs)"
  using ramfs_lookup_by_prefix [OF root_fs_wf(5,4) bytes_a append_Nil2 [symmetric], of "[]"] by (simp add: root_fs_wf(6) cstr_def)

text \<open>
  C20 (error returns of ramfs).  The error branches leave the state as it was, all locks released: removing a directory with
  \<open>ramfs_remove\<close> is \<open>-EISDIR\<close>, removing from a file \<open>-ENOTDIR\<close>; \<open>ramfs_rmdir\<close> of \<open>..\<close> or of a directory with entries is
  \<open>-ENOTEMPTY\<close>; creating or looking up in a file is \<open>-EINVAL\<close> or \<open>-ENOTDIR\<close>.
\<close>
theorem ramfs_error_returns:
  assumes inv: "ramfs_inv s" and d: "dir_vnode s vd p"
    and f: "fv \<noteq> 0" "vnodes s fv = Some w" "v_type w \<noteq> VDIR" "ramnodes s (v_data w) \<noteq> None" "v_vfs w \<noteq> 0" "mounts s (v_vfs w) \<noteq> None"
    and sub: "dv \<noteq> 0" "vnodes s dv = Some x" "v_type x = VDIR" "ramnodes s (v_data x) = Some n" "n_type n = VDIR"
      "dir_parent (n_union n) = p" "dir_names s (v_data x) \<noteq> []"
    and t: "t \<noteq> []" "0 \<notin> set t" "t \<noteq> bytes ''..''"
  shows "ramfs_remove vd dv (t @ 0 # r) s = Inr (- EISDIR, s) \<and>
    ramfs_remove fv fv (t @ 0 # r) s = Inr (- ENOTDIR, s) \<and>
    ramfs_rmdir vd dv (t @ 0 # r) (length t) s = Inr (- ENOTEMPTY, s) \<and>
    ramfs_rmdir vd dv (bytes ''..'' @ 0 # r) 2 s = Inr (- ENOTEMPTY, s) \<and>
    ramfs_create fv (t @ 0 # r) (length t) type s = Inr (- EINVAL, None, s) \<and>
    ramfs_lookup fv (t @ 0 # r) (length t) s = Inr (- ENOTDIR, None, s)"
proof (intro conjI)
  obtain E dots where wf: "ramfs_wf s E dots" "unlocked s" "kalloc_ok s" and nm: "\<And>p. dir_names s p = listing s E p"
    using ramfs_invE [OF inv] by metis
  obtain v where v: "vd \<noteq> 0" "vnodes s vd = Some v" "v_data v = p" using d by (auto simp: dir_vnode_def)
  obtain m where m: "ramnodes s (v_data w) = Some m" "ramlock m = 0" "v_data w \<noteq> 0"
    using f(4) wf(2) bounded_nonzero(1) [OF ramfs_wfD(1) [OF wf(1)]] by (fastforce simp: unlocked_def)
  show "ramfs_remove vd dv (t @ 0 # r) s = Inr (- EISDIR, s)" using v sub by (simp add: ramfs_remove_def)
  show "ramfs_remove fv fv (t @ 0 # r) s = Inr (- ENOTDIR, s)" using f by (simp add: ramfs_remove_def)
  show "ramfs_rmdir vd dv (t @ 0 # r) (length t) s = Inr (- ENOTEMPTY, s)" by (rule rmdir_nonempty) (use wf v sub t nm in auto)
  show "ramfs_rmdir vd dv (bytes ''..'' @ 0 # r) 2 s = Inr (- ENOTEMPTY, s)" using v sub by (simp add: ramfs_rmdir_def bytes_def)
  have "strldup (junk_bytes s) (t @ 0 # r) (length t) = Inr (t @ [0])"
    using strldup_spec [of "length t" "t @ 0 # r" "junk_bytes s"] wf(3) by (simp add: kalloc_ok_def)
  then show "ramfs_create fv (t @ 0 # r) (length t) type s = Inr (- EINVAL, None, s)"
    using f by (auto simp: ramfs_create_def ramfs_alloc_file_def)
  show "ramfs_lookup fv (t @ 0 # r) (length t) s = Inr (- ENOTDIR, None, s)"
    using f m by (simp add: ramfs_lookup_def fs_eval fun_upd_idem Let_def)
qed

text \<open>A file system with a directory \<open>/d\<close> (vnode 7, node 6) that holds a file \<open>/d/f\<close> (vnode 9, node 8).\<close>

definition tree_fs :: fs where
  "tree_fs = root_fs\<lparr>
     vnodes := (vnodes root_fs)(
       7 := Some \<lparr>v_vfs = 3, v_mountedhere = 0, v_type = VDIR, v_refcount = 1, v_flags = 0, v_lock = 0, v_data = 6\<rparr>,
       9 := Some \<lparr>v_vfs = 3, v_mountedhere = 0, v_type = VREG, v_refcount = 1, v_flags = 0, v_lock = 0, v_data = 8\<rparr>),
     dentries := [10 \<mapsto> \<lparr>d_next = 0, d_node = 6, d_seq = 3, d_name = cstr (bytes ''d'')\<rparr>,
       11 \<mapsto> \<lparr>d_next = 0, d_node = 8, d_seq = 3, d_name = cstr (bytes ''f'')\<rparr>],
     ramnodes := [2 \<mapsto> \<lparr>n_prev = 6, n_next = 0, n_vnode = 1, n_type = VDIR, ramlock = 0, linkcount = 3, n_union = Dir 10 2 4\<rparr>,
       6 \<mapsto> \<lparr>n_prev = 8, n_next = 2, n_vnode = 7, n_type = VDIR, ramlock = 0, linkcount = 3, n_union = Dir 11 2 4\<rparr>,
       8 \<mapsto> \<lparr>n_prev = 0, n_next = 6, n_vnode = 9, n_type = VREG, ramlock = 0, linkcount = 1, n_union = Reg None 0\<rparr>],
     next_ptr := 12\<rparr>"

definition tree_E :: "ptr \<Rightarrow> ptr list" where
  "tree_E = (\<lambda>_. [])(2 := [10], 6 := [11])"

lemma tree_fs_enode: "enode tree_fs 10 = 6" "enode tree_fs 11 = 8" "ename tree_fs 10 = bytes ''d''" "ename tree_fs 11 = bytes ''f''"
  by (simp_all add: enode_def ename_def tree_fs_def)

lemma tree_E_mem: "d \<in> set (tree_E q) \<longleftrightarrow> q = 2 \<and> d = 10 \<or> q = 6 \<and> d = 11"
  by (auto simp: tree_E_def)

lemma tree_fs_nodes:
  "ramnodes tree_fs p \<noteq> None \<longleftrightarrow> p = 2 \<or> p = 6 \<or> p = 8" "dentries tree_fs p \<noteq> None \<longleftrightarrow> p = 10 \<or> p = 11"
  "vnodes tree_fs p \<noteq> None \<longleftrightarrow> p = 1 \<or> p = 7 \<or> p = 9"
  by (simp_all add: tree_fs_def root_fs_def)

lemma tree_fs_pointing: "pointing tree_fs tree_E p = (if p = 6 then {10} else if p = 8 then {11} else {})"
proof -
  have m: "(\<exists>q. d \<in> set (tree_E q) \<and> enode tree_fs d = p) \<longleftrightarrow>
      d = 10 \<and> enode tree_fs 10 = p \<or> d = 11 \<and> enode tree_fs 11 = p" for d
    unfolding tree_E_mem by auto
  have "pointing tree_fs tree_E p = {d. d = 10 \<and> 6 = p \<or> d = 11 \<and> 8 = p}"
    unfolding pointing_def m tree_fs_enode ..
  then show ?thesis by auto
qed

lemma tree_fs_wf:
  "ramfs_wf tree_fs tree_E ((\<lambda>_. 0)(2 := 2, 6 := 1))" "unlocked tree_fs" "kalloc_ok tree_fs" "dir_vnode tree_fs 1 2" "ramfs_inv tree_fs"
  "dir_names tree_fs 6 = [(bytes ''f'', 8)]"
proof -
  have b: "bounded tree_fs" by (auto simp: bounded_def tree_fs_def root_fs_def)
  have "node_ok tree_fs tree_E 2 (the (ramnodes tree_fs 2))" "node_ok tree_fs tree_E 6 (the (ramnodes tree_fs 6))"
    "node_ok tree_fs tree_E 8 (the (ramnodes tree_fs 8))"
    by (simp_all add: tree_fs_def root_fs_def node_ok_def ptr_ok_def tree_E_def)
  then have n: "node_ok tree_fs tree_E p n" if "ramnodes tree_fs p = Some n" for p n
    using that tree_fs_nodes(1) [of p] by (metis option.distinct(1) option.sel)
  have ge: "\<exists>x. dentries tree_fs d = Some x \<and> good_name (d_name x) \<and> ramnodes tree_fs (d_node x) \<noteq> None" if "d = 10 \<or> d = 11" for d
    using that by (auto simp: tree_fs_def bytes_def)
  have e: "entries_ok tree_fs tree_E" unfolding entries_ok_def
  proof (intro conjI allI impI ballI)
    show "tree_E p = []" if "ramnodes tree_fs p = None" for p using that tree_fs_nodes(1) [of p] by (auto simp: tree_E_def)
    show "set (tree_E p) \<inter> set (tree_E q) = {}" if "p \<noteq> q" for p q using that by (auto simp: tree_E_mem)
    show "\<exists>x. dentries tree_fs d = Some x \<and> good_name (d_name x) \<and> ramnodes tree_fs (d_node x) \<noteq> None" if "d \<in> set (tree_E p)" for p d
      by (rule ge) (use that in \<open>auto simp: tree_E_mem\<close>)
  qed
  have l: "links_ok tree_fs tree_E ((\<lambda>_. 0)(2 := 2, 6 := 1))"
    unfolding links_ok_def tree_fs_pointing by (auto simp: tree_E_def tree_fs_def split: if_splits)
  show wf: "ramfs_wf tree_fs tree_E ((\<lambda>_. 0)(2 := 2, 6 := 1))" using b n e l by (simp add: ramfs_wf_def)
  show u: "unlocked tree_fs" "kalloc_ok tree_fs"
    by (auto simp: unlocked_def kalloc_ok_def zeroed_def tree_fs_def root_fs_def split: if_splits)
  show "dir_vnode tree_fs 1 2" by (simp add: dir_vnode_def mount_ok_def ptr_ok_def tree_fs_def root_fs_def)
  show "ramfs_inv tree_fs" using wf u by (auto simp: ramfs_inv_def)
  show "dir_names tree_fs 6 = [(bytes ''f'', 8)]" using dir_names_listing [OF wf] by (simp add: listing_def tree_E_def tree_fs_enode)
qed

theorem ramfs_error_returns_witness:
  "ramfs_remove 1 7 (bytes ''d'' @ [0]) tree_fs = Inr (- EISDIR, tree_fs) \<and>
   ramfs_rmdir 1 7 (bytes ''d'' @ [0]) (length (bytes ''d'')) tree_fs = Inr (- ENOTEMPTY, tree_fs) \<and>
   ramfs_lookup 9 (bytes ''d'' @ [0]) (length (bytes ''d'')) tree_fs = Inr (- ENOTDIR, None, tree_fs)"
proof -
  obtain w where w: "vnodes tree_fs 9 = Some w" "v_type w \<noteq> VDIR" "ramnodes tree_fs (v_data w) \<noteq> None" "v_vfs w \<noteq> 0"
    "mounts tree_fs (v_vfs w) \<noteq> None" by (simp add: tree_fs_def root_fs_def)
  obtain x n where x: "vnodes tree_fs 7 = Some x" "v_type x = VDIR" "ramnodes tree_fs (v_data x) = Some n" "n_type n = VDIR"
    "dir_parent (n_union n) = 2" "v_data x = 6" by (simp add: tree_fs_def)
  have t: "bytes ''d'' \<noteq> []" "0 \<notin> set (bytes ''d'')" "bytes ''d'' \<noteq> bytes ''..''" by (simp_all add: bytes_def)
  show ?thesis using ramfs_error_returns [OF tree_fs_wf(5,4) _ w _ x(1-5) _ t, of "[]" VREG] x(6) tree_fs_wf(6) by simp
qed

end
