(* ===== verification/Vfs.thy ===== *)
theory Vfs
  imports Ramfs
begin

section \<open>The virtual file system (fs/vfs.c)\<close>

text \<open>
  The operations of \<^verbatim>\<open>vfs.c\<close> on the object store of \<^verbatim>\<open>Fs_State\<close>.  A path is the list of bytes from a \<open>char*\<close> to the end
  of its buffer, so advancing the pointer is taking a suffix.  An output argument that may stay unwritten is an
  \<open>option\<close>.  A \<open>struct nameidata\<close> on the stack starts with whatever the stack holds, here \<open>junk_ptr\<close> and \<open>junk_flags\<close>.
\<close>

subsection \<open>Path bytes\<close>

text \<open>\<open>while (*name == '/') name++\<close>\<close>

fun skip_slashes :: "u8 list \<Rightarrow> u8 list result" where
  "skip_slashes [] = Inl BadAccess"
| "skip_slashes (c # cs) = (if c = 47 then skip_slashes cs else Inr (c # cs))"

text \<open>\<open>for (cp = name; *cp && *cp != '/'; cp++)\<close>: the length of the component and the rest from \<open>cp\<close> on.\<close>

fun scan_component :: "u8 list \<Rightarrow> (nat \<times> u8 list) result" where
  "scan_component [] = Inl BadAccess"
| "scan_component (c # cs) =
     (if c \<noteq> 0 \<and> c \<noteq> 47 then ebind (scan_component cs) (\<lambda>(n, r). Inr (Suc n, r)) else Inr (0, c # cs))"

definition first_byte :: "u8 list \<Rightarrow> u8 result" where
  "first_byte s = rd s 0"

subsection \<open>References\<close>

text \<open>
  \<open>vfs_close\<close> takes the lock unless it is held already (by the caller, as the comment asks, or by anybody).  When the
  last reference goes the vnode is freed with its lock still taken.
\<close>

definition vfs_close :: "ptr \<Rightarrow> fs \<Rightarrow> (int \<times> fs) result" where
  "vfs_close vn s =
     ebind (deref (vnodes s) vn) (\<lambda>v.
     ebind (if trylock (v_lock v) = 0 then acquire_vnode vn s else Inr s) (\<lambda>s.
     ebind (ramfs_close vn s) (\<lambda>s.
     ebind (mod_vnode vn (\<lambda>v. v\<lparr>v_refcount := v_refcount v - 1\<rparr>) s) (\<lambda>s.
     ebind (deref (vnodes s) vn) (\<lambda>v.
     ebind (if v_refcount v = 0
            then ebind (ramfs_inactive vn s) (\<lambda>s.
                 ebind (mod_vnode vn (\<lambda>v. v\<lparr>v_data := 0\<rparr>) s) (\<lambda>s. Inr (kfree_obj vn s)))
            else release_vnode vn s) (\<lambda>s. Inr (0, s)))))))"

definition vput :: "ptr \<Rightarrow> fs \<Rightarrow> fs result" where
  "vput vn s = ebind (vfs_close vn s) (\<lambda>(_, s). Inr s)"

definition vrele :: "ptr \<Rightarrow> fs \<Rightarrow> fs result" where
  "vrele vn s = vput vn s"

text \<open>\<open>if (vn) vput(vn)\<close>\<close>

definition vput_opt :: "ptr \<Rightarrow> fs \<Rightarrow> fs result" where
  "vput_opt vn s = (if vn \<noteq> 0 then vput vn s else Inr s)"

subsection \<open>Path resolution\<close>

record nameidata =
  nd_vdir :: ptr
  nd_vn :: ptr
  nd_root :: ptr
  nd_next :: "u8 list"
  nd_flags :: u32
  nd_name :: "u8 list"
  nd_len :: nat

definition ISSYMLINK :: u32 where "ISSYMLINK = 1"
definition FOLLOW :: u32 where "FOLLOW = 2"
definition MNT_ROOTFS :: u32 where "MNT_ROOTFS = 1"
definition O_CREATE :: u32 where "O_CREATE = 0x200"

definition stack_nd :: "fs \<Rightarrow> nameidata" where
  "stack_nd s = \<lparr>nd_vdir = junk_ptr s, nd_vn = junk_ptr s, nd_root = junk_ptr s, nd_next = [], nd_flags = ucast (junk_flags s), nd_name = [], nd_len = junk_ptr s\<rparr>"

text \<open>
  The loop for \<open>..\<close>: up through the mount points while the directory is the root of a mounted file system.  The first
  result tells whether it ended at the root of everything.
\<close>

fun climb :: "nat \<Rightarrow> ptr \<Rightarrow> fs \<Rightarrow> (bool \<times> ptr \<times> fs) result" where
  "climb 0 vdir s = Inl NoFuel"
| "climb (Suc k) vdir s =
     (if vdir = rootvn s then ebind (vref vdir s) (\<lambda>s. Inr (True, vdir, s))
      else ebind (acquire_vnode vdir s) (\<lambda>s.
           ebind (deref (vnodes s) vdir) (\<lambda>v.
           if v_flags v AND VROOT = 0 then ebind (release_vnode vdir s) (\<lambda>s. Inr (False, vdir, s))
           else ebind (deref (mounts s) (v_vfs v)) (\<lambda>m.
                ebind (vrele vdir s) (\<lambda>s.
                ebind (vref (mountpoint m) s) (\<lambda>s. climb k (mountpoint m) s))))))"

text \<open>
  \<open>while (vdir->type == VDIR && (vfs = vdir->mountedhere))\<close>: down to the root of what is mounted here.  The result is the
  error of \<open>root\<close>, the directory reached and \<open>ndp->vn\<close>.
\<close>

fun cross_mounts :: "nat \<Rightarrow> ptr \<Rightarrow> ptr \<Rightarrow> fs \<Rightarrow> (int \<times> ptr \<times> ptr \<times> fs) result" where
  "cross_mounts 0 vdir vn s = Inl NoFuel"
| "cross_mounts (Suc k) vdir vn s =
     ebind (deref (vnodes s) vdir) (\<lambda>v.
     if v_type v = VDIR \<and> v_mountedhere v \<noteq> 0
     then ebind (vrele vdir s) (\<lambda>s.
          ebind (ramfs_root (v_mountedhere v) s) (\<lambda>(error, vdir, s).
          if error \<noteq> 0 then Inr (error, vdir, vn, s)
          else ebind (acquire_vnode vdir s) (\<lambda>s. cross_mounts k vdir vdir s)))
     else Inr (0, vdir, vn, s))"

text \<open>
  One component of the path, from the test for \<open>..\<close> to the label \<open>nextname\<close>.  The result is \<open>error\<close>, whether \<open>lookup\<close>
  returns here, and the changed variables.
\<close>

definition lookup_component :: "nameidata \<Rightarrow> ptr \<Rightarrow> fs \<Rightarrow> (int \<times> bool \<times> nameidata \<times> ptr \<times> fs) result" where
  "lookup_component nd vdir s =
     ebind (strncmp (nd_name nd) (cstr (bytes ''..'')) 2) (\<lambda>dd.
     ebind (if dd = 0 then climb (fs_fuel s) vdir s else Inr (False, vdir, s)) (\<lambda>(at_root, vdir, s).
     if at_root then Inr (0, False, nd\<lparr>nd_vdir := rootvn s, nd_vn := rootvn s\<rparr>, vdir, s)
     else let nd = nd\<lparr>nd_vdir := vdir\<rparr> in
       ebind (acquire_vnode vdir s) (\<lambda>s.
       ebind (ramfs_lookup vdir (nd_name nd) (nd_len nd) s) (\<lambda>(error, vpp, s).
       let nd = (case vpp of None \<Rightarrow> nd | Some vn \<Rightarrow> nd\<lparr>nd_vn := vn\<rparr>) in
       ebind (release_vnode vdir s) (\<lambda>s.
       if error \<noteq> 0 then Inr (error, True, nd, vdir, s)
       else let vdir = nd_vn nd in
         ebind (acquire_vnode vdir s) (\<lambda>s.
         ebind (cross_mounts (fs_fuel s) vdir (nd_vn nd) s) (\<lambda>(error, vdir, vn, s).
         let nd = nd\<lparr>nd_vn := vn\<rparr> in
         if error \<noteq> 0 then Inr (error, True, nd, vdir, s)
         else ebind (deref (vnodes s) vdir) (\<lambda>v.
              ebind (first_byte (nd_next nd)) (\<lambda>c.
              if v_type v = VLNK \<and> (nd_flags nd AND FOLLOW \<noteq> 0 \<or> c = 47)
              then Inr (0, True, nd\<lparr>nd_flags := nd_flags nd OR ISSYMLINK\<rparr>, vdir, s)
              else Inr (0, False, nd, vdir, s))))))))))"

text \<open>The body of \<open>lookup\<close>: each round consumes one component of the path.\<close>

fun lookup_loop :: "nat \<Rightarrow> nameidata \<Rightarrow> ptr \<Rightarrow> fs \<Rightarrow> (int \<times> nameidata \<times> fs) result" where
  "lookup_loop 0 nd vdir s = Inl NoFuel"
| "lookup_loop (Suc k) nd vdir s =
     ebind (scan_component (nd_name nd)) (\<lambda>(len, nxt).
     let nd = nd\<lparr>nd_len := len, nd_next := nxt\<rparr> in
     ebind (first_byte (nd_name nd)) (\<lambda>c.
     if c = 0
     then (let nd = nd\<lparr>nd_vn := nd_vdir nd\<rparr> in ebind (vref (nd_vn nd) s) (\<lambda>s. Inr (0, nd, s)))
     else
       ebind (lookup_component nd vdir s) (\<lambda>(error, done, nd, vdir, s).
       if done then Inr (error, nd, s)
       else
         ebind (first_byte (nd_next nd)) (\<lambda>c.
         if c = 0 then ebind (release_vnode vdir s) (\<lambda>s. Inr (0, nd, s))
         else ebind (skip_slashes (nd_next nd)) (\<lambda>name.
              ebind (vput (nd_vdir nd) s) (\<lambda>s.
              ebind (release_vnode vdir s) (\<lambda>s.
              lookup_loop k (nd\<lparr>nd_name := name\<rparr>) vdir s)))))))"

definition lookup :: "nameidata \<Rightarrow> fs \<Rightarrow> (int \<times> nameidata \<times> fs) result" where
  "lookup nd s = (let nd = nd\<lparr>nd_flags := nd_flags nd AND NOT ISSYMLINK\<rparr> in
     lookup_loop (Suc (length (nd_name nd))) nd (nd_vdir nd) s)"

text \<open>
  The loop of \<open>namei\<close>: one round per symbolic link.  The source has no bound on their number; the model gives up, as
  \<open>NoFuel\<close>, after \<open>NAMEI_FUEL\<close> of them.
\<close>

definition NAMEI_FUEL :: nat where "NAMEI_FUEL = 64"

fun namei_loop :: "nat \<Rightarrow> nat \<Rightarrow> ptr \<Rightarrow> nameidata \<Rightarrow> fs \<Rightarrow> (int \<times> nameidata \<times> fs) result" where
  "namei_loop 0 x vn nd s = Inl NoFuel"
| "namei_loop (Suc k) x vn nd s =
     ebind (first_byte (nd_name nd)) (\<lambda>c.
     ebind (if c = 47
            then ebind (if x \<noteq> 0 then vput vn s else Inr s) (\<lambda>s.
                 ebind (ramfs_root (rootfs s) s) (\<lambda>(_, vn, s).
                 ebind (skip_slashes (nd_name nd)) (\<lambda>name. Inr (x + 1, vn, nd\<lparr>nd_name := name\<rparr>, s))))
            else Inr (x, vn, nd, s)) (\<lambda>(x, vn, nd, s).
     ebind (lookup (nd\<lparr>nd_vdir := vn\<rparr>) s) (\<lambda>(error, nd, s).
     if error \<noteq> 0 then Inr (error, nd, s)
     else if nd_flags nd AND ISSYMLINK = 0 then Inr (error, nd, s)
     else
       let vn = nd_vn nd in
       ebind (ramfs_readlink vn (junk_bytes s 512) s) (\<lambda>(_, buf, slen, s).
       ebind (strcpy (drop slen buf) (drop (nd_len nd) (nd_name nd))) (\<lambda>rest.
       ebind (vput vn s) (\<lambda>s.
       namei_loop k x (nd_vdir nd) (nd\<lparr>nd_name := take slen buf @ rest\<rparr>) s))))))"

definition namei :: "u8 list \<Rightarrow> nameidata \<Rightarrow> fs \<Rightarrow> (int \<times> nameidata \<times> fs) result" where
  "namei name nd s =
     ebind (strdup (junk_bytes s) name) (\<lambda>nm.
     ebind (strlen name) (\<lambda>len.
     namei_loop NAMEI_FUEL 0 (junk_ptr s) (nd\<lparr>nd_name := nm, nd_len := len, nd_vn := 0\<rparr>) s))"

subsection \<open>Start-up\<close>

definition init_rootfs :: "fs \<Rightarrow> fs" where
  "init_rootfs s = s\<lparr>vfs_types := [cstr (bytes ''ramfs'')], vfslist_lock := init_lock (vfslist_lock s)\<rparr>"

definition init_rootvn :: "fs \<Rightarrow> fs result" where
  "init_rootvn s =
     (if rootfs s \<noteq> 0 then ebind (ramfs_root (rootfs s) s) (\<lambda>(_, vn, s). Inr (s\<lparr>rootvn := vn\<rparr>)) else Inr s)"

subsection \<open>Directories and links\<close>

text \<open>\<open>vfs_readdir\<close> returns \<open>size_t n\<close> as \<open>ssize_t\<close>; the records and the new offset come back through the arguments.\<close>

definition vfs_readdir :: "ptr \<Rightarrow> u64 \<Rightarrow> u64 \<Rightarrow> fs \<Rightarrow> (int \<times> dirent list \<times> u64 \<times> fs) result" where
  "vfs_readdir vdir nbytes offset s =
     ebind (acquire_vnode vdir s) (\<lambda>s.
     ebind (deref (vnodes s) vdir) (\<lambda>v.
     ebind (if v_type v \<noteq> VDIR then Inr (of_int (- EINVAL), [], offset, s)
            else ebind (ramfs_readdir vdir nbytes offset s) (\<lambda>(_, buf, n, offset, s). Inr (n, buf, offset, s))) (\<lambda>(n, buf, offset, s).
     ebind (release_vnode vdir s) (\<lambda>s. Inr (sint n, buf, offset, s)))))"

definition vfs_link :: "u8 list \<Rightarrow> u8 list \<Rightarrow> fs \<Rightarrow> (int \<times> fs) result" where
  "vfs_link name target s =
     ebind (namei target (stack_nd s) s) (\<lambda>(error, nd, s).
     if error \<noteq> 0 then Inr (error, s)
     else
       let vn = nd_vn nd in
       ebind (acquire_vnode vn s) (\<lambda>s.
       ebind (deref (vnodes s) vn) (\<lambda>v.
       if v_type v = VDIR
       then ebind (vput_opt (nd_vdir nd) s) (\<lambda>s. ebind (vrele vn s) (\<lambda>s. Inr (- EISDIR, s)))
       else
         ebind (vput (nd_vdir nd) s) (\<lambda>s.
         ebind (namei name nd s) (\<lambda>(error, nd, s).
         if error \<noteq> - ENOENT then Inr (error, s)
         else
           let vdir = nd_vdir nd in
           ebind (acquire_vnode vdir s) (\<lambda>s.
           ebind (ramfs_link vdir vn (nd_name nd) (nd_len nd) s) (\<lambda>(error, s).
           ebind (release_vnode vdir s) (\<lambda>s.
           ebind (vput_opt (nd_vdir nd) s) (\<lambda>s.
           ebind (vrele vn s) (\<lambda>s. Inr (error, s)))))))))))"

text \<open>
  Both readers of links pass the \<open>char*\<close> buffer where \<open>ramfs_readlink\<close> expects a \<open>struct componentnam*\<close>: the bytes of
  the buffer are taken for a pointer, which is then written through.
\<close>

definition vfs_readlink_locked :: "ptr \<Rightarrow> u8 list \<Rightarrow> fs \<Rightarrow> (int \<times> u8 list \<times> fs) result" where
  "vfs_readlink_locked vn linkbuf s =
     ebind (deref (vnodes s) vn) (\<lambda>v. if v_type v \<noteq> VLNK then Inr (- EINVAL, linkbuf, s) else Inl BadAccess)"

definition vfs_readlink :: "ptr \<Rightarrow> u8 list \<Rightarrow> fs \<Rightarrow> (int \<times> u8 list \<times> fs) result" where
  "vfs_readlink vn linkbuf s =
     ebind (acquire_vnode vn s) (\<lambda>s.
     ebind (deref (vnodes s) vn) (\<lambda>v.
     ebind (if v_type v \<noteq> VLNK then Inr (- EINVAL) else Inl BadAccess) (\<lambda>error.
     ebind (release_vnode vn s) (\<lambda>s. Inr (error, linkbuf, s)))))"

definition vfs_symlink :: "u8 list \<Rightarrow> u8 list \<Rightarrow> fs \<Rightarrow> (int \<times> fs) result" where
  "vfs_symlink name target s =
     ebind (namei name (stack_nd s) s) (\<lambda>(error, nd, s).
     if error \<noteq> - ENOENT
     then ebind (vput_opt (nd_vdir nd) s) (\<lambda>s. ebind (vput_opt (nd_vn nd) s) (\<lambda>s. Inr (error, s)))
     else
       let vdir = nd_vdir nd in
       ebind (acquire_vnode vdir s) (\<lambda>s.
       ebind (ramfs_symlink vdir target (nd_name nd) (nd_len nd) s) (\<lambda>(_, s).
       ebind (vrele vdir s) (\<lambda>s. Inr (error, s)))))"

subsection \<open>Mounting\<close>

definition vfs_root :: "ptr \<Rightarrow> fs \<Rightarrow> (int \<times> ptr \<times> fs) result" where
  "vfs_root vfs s =
     ebind (ramfs_root vfs s) (\<lambda>(error, root, s). ebind (acquire_vnode root s) (\<lambda>s. Inr (error, root, s)))"

fun find_vfsops :: "u8 list list \<Rightarrow> u8 list \<Rightarrow> bool result" where
  "find_vfsops [] fstype = Inr False"
| "find_vfsops (n # ns) fstype = ebind (strcmp n fstype) (\<lambda>c. if c = 0 then Inr True else find_vfsops ns fstype)"

text \<open>The label \<open>fail2\<close> of \<open>vfs_mount\<close>.\<close>

definition mount_fail2 :: "int \<Rightarrow> nameidata \<Rightarrow> fs \<Rightarrow> (int \<times> fs) result" where
  "mount_fail2 error n s =
     ebind (vput_opt (nd_vn n) s) (\<lambda>s. ebind (vput_opt (nd_vdir n) s) (\<lambda>s. Inr (error, release_vfslist s)))"

definition vfs_mount :: "u8 list option \<Rightarrow> u8 list \<Rightarrow> fs \<Rightarrow> (int \<times> fs) result" where
  "vfs_mount mntpoint fstype s =
     ebind (acquire_vfslist s) (\<lambda>s.
     ebind (find_vfsops (vfs_types s) fstype) (\<lambda>found.
     if \<not> found then Inr (- ENOENT, release_vfslist s)
     else
       let (vfs, s) = kalloc_obj s;
           s = put_mount vfs \<lparr>m_next = junk_ptr s, mountpoint = junk_ptr s, m_flags = ucast (junk_flags s), m_data = junk_ptr s\<rparr> s;
           finish = (\<lambda>s.
             ebind (mod_mount vfs (\<lambda>m. m\<lparr>m_next := mountedlist s\<rparr>) s) (\<lambda>s.
             ebind (ramfs_mount vfs (s\<lparr>mountedlist := vfs\<rparr>)) (\<lambda>(error, s). Inr (error, release_vfslist s)))) in
       (case mntpoint of
          None \<Rightarrow>
            ebind (mod_mount vfs (\<lambda>m. m\<lparr>m_flags := m_flags m OR MNT_ROOTFS\<rparr>) s) (\<lambda>s.
            ebind (mod_mount vfs (\<lambda>m. m\<lparr>m_next := 0\<rparr>) (s\<lparr>rootfs := vfs\<rparr>)) finish)
        | Some path \<Rightarrow>
            ebind (namei path (stack_nd s) s) (\<lambda>(error, n, s).
            if error \<noteq> 0 then mount_fail2 error n s
            else
              let mntvnode = nd_vn n in
              ebind (acquire_vnode mntvnode s) (\<lambda>s.
              ebind (deref (vnodes s) mntvnode) (\<lambda>v.
              if v_type v \<noteq> VDIR then mount_fail2 (- ENOTDIR) n s
              else if v_mountedhere v \<noteq> 0 then mount_fail2 (- EBUSY) n s
              else
                ebind (mod_mount vfs (\<lambda>m. m\<lparr>mountpoint := mntvnode\<rparr>) s) (\<lambda>s.
                ebind (mod_vnode mntvnode (\<lambda>v. v\<lparr>v_mountedhere := vfs\<rparr>) s) (\<lambda>s.
                ebind (vrele mntvnode s) (\<lambda>s.
                ebind (vput (nd_vdir n) s) finish)))))))))"

definition vfs_unmount :: "u8 list \<Rightarrow> fs \<Rightarrow> (int \<times> fs) result" where
  "vfs_unmount name s =
     ebind (namei name (stack_nd s) s) (\<lambda>(error, n, s).
     if error \<noteq> 0
     then ebind (vput_opt (nd_vn n) s) (\<lambda>s. ebind (vput_opt (nd_vdir n) s) (\<lambda>s. Inr (error, s)))
     else
       let vn = nd_vn n in
       ebind (deref (vnodes s) vn) (\<lambda>v.
       let vfs = v_vfs v in
       ebind (acquire_vnode vn s) (\<lambda>s.
       if v_flags v AND VROOT = 0 then ebind (vrele vn s) (\<lambda>s. Inr (- EINVAL, s))
       else
         ebind (deref (mounts s) vfs) (\<lambda>m.
         if m_flags m AND MNT_ROOTFS \<noteq> 0 then ebind (vrele vn s) (\<lambda>s. Inr (- EINVAL, s))
         else
           ebind (vrele vn s) (\<lambda>s.
           ebind (ramfs_unmount vfs s) (\<lambda>(error, s).
           if error \<noteq> 0 then Inr (error, s)
           else
             ebind (deref (mounts s) vfs) (\<lambda>m.
             ebind (acquire_vnode (mountpoint m) s) (\<lambda>s.
             ebind (mod_vnode (mountpoint m) (\<lambda>v. v\<lparr>v_mountedhere := 0\<rparr>) s) (\<lambda>s.
             ebind (release_vnode (mountpoint m) s) (\<lambda>s.
             ebind (vput (nd_vdir n) s) (\<lambda>s. Inr (0, s))))))))))))"

subsection \<open>Files\<close>

definition vfs_unlink :: "u8 list \<Rightarrow> fs \<Rightarrow> (int \<times> fs) result" where
  "vfs_unlink name s =
     ebind (namei name (stack_nd s) s) (\<lambda>(error, nd, s).
     if error \<noteq> 0
     then ebind (vput_opt (nd_vn nd) s) (\<lambda>s. ebind (vput_opt (nd_vdir nd) s) (\<lambda>s. Inr (error, s)))
     else
       let vn = nd_vn nd; vdir = nd_vdir nd in
       ebind (acquire_vnode vn s) (\<lambda>s.
       ebind (if vdir \<noteq> vn then acquire_vnode vdir s else Inr s) (\<lambda>s.
       ebind (deref (vnodes s) vn) (\<lambda>v.
       ebind (if v_flags v AND VROOT \<noteq> 0 then Inr (- EBUSY, s) else ramfs_remove vdir vn (nd_name nd) s) (\<lambda>(error, s).
       ebind (if vdir \<noteq> vn then vrele vdir s else vput vdir s) (\<lambda>s.
       ebind (vrele vn s) (\<lambda>s. Inr (error, s))))))))"

definition vfs_read :: "ptr \<Rightarrow> u8 list \<Rightarrow> u64 \<Rightarrow> u64 \<Rightarrow> fs \<Rightarrow> (int \<times> u8 list \<times> fs) result" where
  "vfs_read vn buf offset count s =
     ebind (acquire_vnode vn s) (\<lambda>s.
     ebind (deref (vnodes s) vn) (\<lambda>v.
     ebind (if v_type v = VDIR then Inr (- EISDIR, buf, s) else ramfs_read vn buf offset count s) (\<lambda>(error, buf, s).
     ebind (release_vnode vn s) (\<lambda>s. Inr (error, buf, s)))))"

definition vfs_write :: "ptr \<Rightarrow> u8 list \<Rightarrow> u64 \<Rightarrow> u64 \<Rightarrow> fs \<Rightarrow> (int \<times> fs) result" where
  "vfs_write vn buf offset count s =
     ebind (acquire_vnode vn s) (\<lambda>s.
     ebind (deref (vnodes s) vn) (\<lambda>v.
     ebind (if v_type v = VDIR then Inr (- EISDIR, s) else ramfs_write vn buf offset count s) (\<lambda>(error, s).
     ebind (release_vnode vn s) (\<lambda>s. Inr (error, s)))))"

text \<open>The second result of the next three is what was stored in \<open>*vpp\<close>.\<close>

definition vfs_open :: "u8 list \<Rightarrow> vtype \<Rightarrow> u32 \<Rightarrow> fs \<Rightarrow> (int \<times> ptr option \<times> fs) result" where
  "vfs_open name type flags s =
     (if flags AND O_CREATE \<noteq> 0
      then ebind (namei name (stack_nd s) s) (\<lambda>(error, nd, s).
           if error \<noteq> - ENOENT
           then ebind (vput_opt (nd_vdir nd) s) (\<lambda>s. ebind (vput_opt (nd_vn nd) s) (\<lambda>s. Inr (error, None, s)))
           else
             let vdir = nd_vdir nd in
             ebind (acquire_vnode vdir s) (\<lambda>s.
             ebind (ramfs_create vdir (nd_name nd) (nd_len nd) type s) (\<lambda>(error, vpp, s).
             ebind (vrele vdir s) (\<lambda>s.
             if error \<noteq> 0 then Inr (error, None, s) else Inr (error, vpp, s)))))
      else ebind (namei name (stack_nd s) s) (\<lambda>(error, nd, s).
           ebind (vput_opt (nd_vdir nd) s) (\<lambda>s.
           Inr (error, if error = 0 then Some (nd_vn nd) else None, s))))"

definition vfs_create :: "u8 list \<Rightarrow> vtype \<Rightarrow> fs \<Rightarrow> (int \<times> ptr option \<times> fs) result" where
  "vfs_create name type s = vfs_open name type O_CREATE s"

definition vfs_mkdir :: "u8 list \<Rightarrow> fs \<Rightarrow> (int \<times> ptr option \<times> fs) result" where
  "vfs_mkdir name s =
     ebind (first_byte name) (\<lambda>c.
     if c = 0 then Inr (- EINVAL, None, s)
     else
       ebind (namei name (stack_nd s) s) (\<lambda>(error, n, s).
       if error \<noteq> - ENOENT
       then ebind (vput_opt (nd_vdir n) s) (\<lambda>s. ebind (vput_opt (nd_vn n) s) (\<lambda>s.
            Inr (if error \<noteq> 0 then error else - EEXIST, None, s)))
       else
         let vdir = nd_vdir n in
         ebind (acquire_vnode vdir s) (\<lambda>s.
         ebind (deref (vnodes s) vdir) (\<lambda>v.
         ebind (if v_type v \<noteq> VDIR then Inr (- ENOTDIR, None, s)
                else ramfs_mkdir vdir (nd_name n) (nd_len n) s) (\<lambda>(error, vpp, s).
         ebind (vrele vdir s) (\<lambda>s. Inr (error, vpp, s)))))))"

definition vfs_rmdir :: "u8 list \<Rightarrow> fs \<Rightarrow> (int \<times> fs) result" where
  "vfs_rmdir name s =
     ebind (namei name (stack_nd s) s) (\<lambda>(error, nd, s).
     if error \<noteq> 0
     then ebind (vput_opt (nd_vn nd) s) (\<lambda>s. ebind (vput_opt (nd_vdir nd) s) (\<lambda>s. Inr (error, s)))
     else
       let vdir = nd_vn nd; parent = nd_vdir nd in
       ebind (acquire_vnode vdir s) (\<lambda>s.
       ebind (if parent = vdir then Inr (- EINVAL, s)
              else
                ebind (acquire_vnode parent s) (\<lambda>s.
                ebind (deref (vnodes s) vdir) (\<lambda>v.
                if v_type v \<noteq> VDIR then Inr (- ENOTDIR, s)
                else if v_flags v AND VROOT \<noteq> 0 then Inr (- EBUSY, s)
                else ramfs_rmdir parent vdir (nd_name nd) (nd_len nd) s))) (\<lambda>(error, s).
       ebind (if parent \<noteq> vdir then vrele parent s else vput parent s) (\<lambda>s.
       ebind (vrele vdir s) (\<lambda>s. Inr (error, s))))))"

end
