(* ===== verification/Vfs_Ops.thy ===== *)
theory Vfs_Ops
  imports Vfs Ramfs_File Ramfs_Ops
begin

section \<open>What the virtual file system promises\<close>

text \<open>
  The path scanner, the bound on the rounds of \<open>lookup\<close>, the reference counts that \<open>vfs_close\<close> keeps, and the
  operations on names in the root directory, composed from \<open>namei\<close> and the specifications of the ramfs operations.
\<close>

subsection \<open>Path bytes\<close>

lemma scan_component_spec:
  "0 \<notin> set t \<Longrightarrow> 47 \<notin> set t \<Longrightarrow> c = 0 \<or> c = 47 \<Longrightarrow> scan_component (t @ c # r) = Inr (length t, c # r)"
  by (induction t) auto

lemma skip_slashes_spec: "c \<noteq> 47 \<Longrightarrow> skip_slashes (replicate k 47 @ c # r) = Inr (c # r)"
  by (induction k) auto

lemma scan_component_inv:
  "scan_component name = Inr (n, nxt) \<Longrightarrow> nxt \<noteq> [] \<and> (hd nxt = 0 \<or> hd nxt = 47) \<and> length name = n + length nxt \<and>
     (n = 0 \<longrightarrow> nxt = name)"
  by (induction name arbitrary: n) (auto split: if_splits simp: ebind_eq_Inr)

lemma skip_slashes_length: "skip_slashes name = Inr r \<Longrightarrow> length r \<le> length name"
  by (induction name) (auto split: if_splits)

lemma first_byte_Cons [simp]: "first_byte (c # r) = Inr c"
  by (simp add: first_byte_def rd_def)

text \<open>What follows a component is shorter than the path: the measure of the loop in \<open>lookup\<close>.\<close>

lemma next_component_shorter:
  assumes sc: "scan_component name = Inr (n, nxt)" and fb: "first_byte nxt = Inr c" "c \<noteq> 0" and sk: "skip_slashes nxt = Inr r"
  shows "length r < length name"
proof -
  obtain cs where "nxt = 47 # cs" using scan_component_inv [OF sc] fb by (cases nxt) auto
  then show ?thesis using scan_component_inv [OF sc] skip_slashes_length [of cs r] sk by auto
qed

lemma lookup_component_next:
  assumes "lookup_component nd vdir s = Inr (e, fin, nd', vdir', s')"
  shows "nd_next nd' = nd_next nd"
proof -
  have "ensures (\<lambda>(_, _, nd', _). nd_next nd' = nd_next nd) (lookup_component nd vdir s)"
    unfolding lookup_component_def Let_def by (intro ensures_intros) (simp_all split: option.splits)
  then show ?thesis using assms by (simp add: ensures_def)
qed

lemma lookup_loop_fuel:
  "length (nd_name nd) < k \<Longrightarrow> lookup_loop (Suc k) nd vdir s = lookup_loop k nd vdir s"
proof (induction k arbitrary: nd vdir s)
  case (Suc k)
  show ?case
    unfolding lookup_loop.simps(2) [of "Suc k"] lookup_loop.simps(2) [of k] Let_def
  proof (intro ebind_cong refl prod.case_cong if_cong, goal_cases)
    case prems: (1 x1 len nxt c x2 error x3 fin x4 nd' x5 vdir' s1 c' name s2 s3)
    have "nd_next nd' = nxt" 
      using lookup_component_next [of "nd\<lparr>nd_len := len, nd_next := nxt\<rparr>" vdir s error fin nd' vdir' s1] prems by simp
    then have "length name < length (nd_name nd)"
      using next_component_shorter [of "nd_name nd" len nxt c' name] prems by auto
    then have "lookup_loop (Suc k) (nd'\<lparr>nd_name := name\<rparr>) vdir' s3 = lookup_loop k (nd'\<lparr>nd_name := name\<rparr>) vdir' s3"
      using Suc.prems by (intro Suc.IH) simp
    then show ?case unfolding lookup_loop.simps(2) [of k] Let_def .
  qed
qed simp

text \<open>Releasing locks and dropping references is straight-line code: it cannot run out of fuel.\<close>

lemma deref_fuel_ok: "fuel_ok (deref m p)"
  by (simp add: fuel_ok_def deref_def split: option.splits)

lemma acquire_fuel_ok: "fuel_ok (acquire l)"
  by (simp add: fuel_ok_def acquire_def atomic_exchange_def)

lemma vput_fuel_ok: "fuel_ok (vput vn s)"
  unfolding vput_def vfs_close_def ramfs_close_def ramfs_inactive_def ramfs_free_node_def acquire_vnode_def release_vnode_def
    acquire_node_def release_node_def mod_vnode_def mod_node_def
  by (intro fuel_ok_intros deref_fuel_ok acquire_fuel_ok)

lemma vref_fuel_ok: "fuel_ok (vref vn s)" "fuel_ok (release_vnode vn s)"
  unfolding vref_def acquire_vnode_def release_vnode_def mod_vnode_def
  by (intro fuel_ok_intros deref_fuel_ok acquire_fuel_ok)+

lemma path_fuel_ok: "fuel_ok (scan_component name)" "fuel_ok (skip_slashes name)" "fuel_ok (first_byte name)"
  by (induction name) (auto simp: fuel_ok_def ebind_eq_Inl first_byte_def rd_def split: prod.splits)

lemma lookup_loop_fuel_ok:
  assumes "\<And>nd vdir s. fuel_ok (lookup_component nd vdir s)"
  shows "length (nd_name nd) < k \<Longrightarrow> fuel_ok (lookup_loop k nd vdir s)"
proof (induction k arbitrary: nd vdir s)
  case (Suc k)
  show ?case
    unfolding lookup_loop.simps Let_def
  proof (intro fuel_ok_intros assms vput_fuel_ok vref_fuel_ok path_fuel_ok, goal_cases)
    case prems: (1 x1 len nxt c x2 error x3 fin x4 nd' x5 vdir' s1 c' name s2 s3)
    have "nd_next nd' = nxt"
      using lookup_component_next [of "nd\<lparr>nd_len := len, nd_next := nxt\<rparr>" vdir s error fin nd' vdir' s1] prems by simp
    then have "length name < length (nd_name nd)"
      using next_component_shorter [of "nd_name nd" len nxt c' name] prems by auto
    then show ?case using Suc.prems by (intro Suc.IH) simp
  qed
qed simp



subsection \<open>References\<close>

lemma vnode_upd_wf:
  assumes wf: "ramfs_wf s E dots" and v: "vnodes s vn = Some v"
    and "\<And>p n. ramnodes s p = Some n \<Longrightarrow> n_vnode n = vn \<Longrightarrow> v_data v' = v_data v \<and> v_type v' = v_type v"
  shows "ramfs_wf (put_vnode vn v' s) E dots"
proof -
  note D = ramfs_wfD [OF wf]
  let ?s = "put_vnode vn v' s"
  have "node_ok ?s E p n" if "ramnodes s p = Some n" for p n
    by (rule node_ok_transfer [OF D(4) [OF that]]) (use node_okD [OF D(4) [OF that]] v assms(3) [OF that] in \<open>auto simp: put_vnode_def\<close>)
  moreover have "entries_ok ?s E" by (rule entries_ok_transfer [OF D(2)]) (simp_all add: put_vnode_def)
  moreover have "pointing ?s E p = pointing s E p" for p by (rule pointing_cong) (simp add: put_vnode_def)
  moreover have "bounded ?s" using D(1) v by (auto simp: bounded_def put_vnode_def)
  ultimately show ?thesis using D(3) by (simp add: ramfs_wf_def links_ok_def put_vnode_def)
qed

lemma ramfs_invI: "ramfs_wf s E dots \<Longrightarrow> unlocked s \<Longrightarrow> kalloc_ok s \<Longrightarrow> ramfs_inv s"
  by (auto simp: ramfs_inv_def)

lemma dir_names_cong:
  assumes "dentries s' = dentries s" "ramnodes s' = ramnodes s" "next_ptr s' = next_ptr s"
  shows "dir_names s' = dir_names s"
proof -
  have "dents k d s' = dents k d s" for k d
    by (induction k arbitrary: d) (simp_all add: assms split: option.splits)
  moreover have "ename s' = ename s" "enode s' = enode s" by (simp_all add: fun_eq_iff ename_def enode_def assms)
  ultimately show ?thesis by (simp add: fun_eq_iff dir_names_def fs_fuel_def assms split: option.split)
qed

lemma put_vnode_inv:
  assumes inv: "ramfs_inv s" and v: "vnodes s vn = Some v" "v_data v' = v_data v" "v_type v' = v_type v"
  shows "ramfs_inv (put_vnode vn v' s)" "dir_names (put_vnode vn v' s) = dir_names s"
proof -
  obtain E dots where wf: "ramfs_wf s E dots" "unlocked s" "kalloc_ok s" using ramfs_invE [OF inv] by metis
  moreover have "ramfs_wf (put_vnode vn v' s) E dots" by (rule vnode_upd_wf [OF wf(1) v(1)]) (simp add: v)
  ultimately show "ramfs_inv (put_vnode vn v' s)"
    by (intro ramfs_invI) (auto simp: unlocked_def kalloc_ok_def zeroed_def put_vnode_def)
  show "dir_names (put_vnode vn v' s) = dir_names s" by (rule dir_names_cong) (simp_all add: put_vnode_def)
qed

lemma put_vnode_sel [simp]:
  "vnodes (put_vnode vn v s) = (vnodes s)(vn := Some v)" "ramnodes (put_vnode vn v s) = ramnodes s"
  "dentries (put_vnode vn v s) = dentries s" "mounts (put_vnode vn v s) = mounts s" "ramvfss (put_vnode vn v s) = ramvfss s"
  "freed (put_vnode vn v s) = freed s" "rootfs (put_vnode vn v s) = rootfs s" "rootvn (put_vnode vn v s) = rootvn s"
  "next_ptr (put_vnode vn v s) = next_ptr s" "junk_ptr (put_vnode vn v s) = junk_ptr s"
  "junk_flags (put_vnode vn v s) = junk_flags s" "junk_bytes (put_vnode vn v s) = junk_bytes s"
  "put_vnode vn w (put_vnode vn v s) = put_vnode vn w s"
  by (simp_all add: put_vnode_def)

lemma put_vnode_id: "vnodes s vn = Some v \<Longrightarrow> put_vnode vn v s = s"
  by (simp add: put_vnode_def fun_upd_idem)

lemma vnode_ref_id [simp]: "v_refcount w = k \<Longrightarrow> w\<lparr>v_refcount := k\<rparr> = w"
  by auto

lemma acquire_vnode_eq:
  "vn \<noteq> 0 \<Longrightarrow> vnodes s vn = Some v \<Longrightarrow> v_lock v = 0 \<Longrightarrow> acquire_vnode vn s = Inr (put_vnode vn (v\<lparr>v_lock := 1\<rparr>) s)"
  by (simp add: acquire_vnode_def acquire_def atomic_exchange_def)

lemma release_vnode_eq:
  "vn \<noteq> 0 \<Longrightarrow> vnodes s vn = Some v \<Longrightarrow> release_vnode vn s = Inr (put_vnode vn (v\<lparr>v_lock := 0\<rparr>) s)"
  by (simp add: release_vnode_def mod_vnode_def release_def)

lemma vref_eq:
  "vn \<noteq> 0 \<Longrightarrow> vnodes s vn = Some v \<Longrightarrow> v_lock v = 0 \<Longrightarrow>
     vref vn s = Inr (put_vnode vn (v\<lparr>v_refcount := v_refcount v + 1\<rparr>) s)"
  by (simp add: vref_def acquire_vnode_eq release_vnode_eq mod_vnode_def)

text \<open>A close that is not the last one, with the lock held or free.\<close>

lemma vfs_close_shared:
  assumes "vn \<noteq> 0" "vnodes s vn = Some v" "v_refcount v \<noteq> 1"
  shows "vfs_close vn s = Inr (0, put_vnode vn (v\<lparr>v_refcount := v_refcount v - 1, v_lock := 0\<rparr>) s)"
  using assms
  by (cases "v_lock v = 0")
    (simp_all add: vfs_close_def trylock_def acquire_vnode_eq release_vnode_eq mod_vnode_def ramfs_close_def)

lemma vput_shared:
  assumes "vn \<noteq> 0" "vnodes s vn = Some v" "v_refcount v \<noteq> 1"
  shows "vput vn s = Inr (put_vnode vn (v\<lparr>v_refcount := v_refcount v - 1, v_lock := 0\<rparr>) s)"
    "vrele vn s = Inr (put_vnode vn (v\<lparr>v_refcount := v_refcount v - 1, v_lock := 0\<rparr>) s)"
  using vfs_close_shared [OF assms] by (simp_all add: vput_def vrele_def)

text \<open>The last close: the node forgets the vnode and is freed with it when no name is left.\<close>

lemma vfs_close_last:
  assumes inv: "ramfs_inv s" and v: "vn \<noteq> 0" "vnodes s vn = Some v" "v_refcount v = 1"
    and n: "ramnodes s (v_data v) = Some n" and m: "v_vfs v \<noteq> 0" "mounts s (v_vfs v) \<noteq> None"
  shows "\<exists>s'. vfs_close vn s = Inr (0, s') \<and> ramfs_inv s' \<and> dir_names s' = dir_names s \<and>
    freed s' = freed s \<union> {vn} \<union> (if linkcount n = 0 then {v_data v} else {}) \<and>
    (\<exists>n'. ramnodes s' (v_data v) = Some n' \<and> n_vnode n' = 0) \<and>
    (\<exists>w. vnodes s' = (vnodes s)(vn := Some w)) \<and> mounts s' = mounts s \<and> ramvfss s' = ramvfss s \<and> kept (forget_vnode (v_data v) s) s'"
proof -
  let ?v = "v\<lparr>v_lock := if v_lock v = 0 then 1 else v_lock v, v_refcount := 0\<rparr>"
  let ?s1 = "put_vnode vn ?v s"
  have inv1: "ramfs_inv ?s1" "dir_names ?s1 = dir_names s" by (rule put_vnode_inv [OF inv v(2)]; simp)+
  obtain E dots where wf: "ramfs_wf ?s1 E dots" "unlocked ?s1" "kalloc_ok ?s1" and nm: "\<And>p. dir_names ?s1 p = listing ?s1 E p"
    using ramfs_invE [OF inv1(1)] by metis
  obtain s2 where s2: "ramfs_inactive vn ?s1 = Inr s2" "ramfs_wf s2 E dots" "node_inactive ?s1 E (v_data v) s2"
    "freed s2 = (if linkcount n = 0 then insert (v_data v) (freed s) else freed s)"
    using ramfs_inactive_spec [OF wf(1,2) v(1), of ?v "v_data v" n] n m by auto
  let ?s3 = "put_vnode vn (?v\<lparr>v_data := 0\<rparr>) s2"
  have s2v: "vnodes s2 vn = Some ?v" using s2(3) by (simp add: node_inactive_def)
  have run: "vfs_close vn s = Inr (0, kfree_obj vn ?s3)"
    using v s2(1) s2v
    by (cases "v_lock v = 0") (simp_all add: vfs_close_def trylock_def acquire_vnode_eq mod_vnode_def ramfs_close_def)
  have "n_vnode m \<noteq> vn" if "ramnodes s2 p = Some m" for p m
    using ramfs_wfD(4) [OF s2(2) that] s2(3) s2v that v(1) by (auto simp: node_ok_def node_inactive_def)
  then have wf3: "ramfs_wf ?s3 E dots" using vnode_upd_wf [OF s2(2) s2v] by blast
  have st: "unlocked s2" "kalloc_ok s2" and nv: "\<exists>n'. ramnodes s2 (v_data v) = Some n' \<and> n_vnode n' = 0"
    using s2(3) wf(3) by (auto simp: node_inactive_def)
  have "ramfs_inv (kfree_obj vn ?s3)"
    using wf3 st v(1) by (intro ramfs_invI [of _ E dots]) (simp_all add: kfree_obj_def ramfs_wf_freed unlocked_def kalloc_ok_def zeroed_def)
  moreover have "dir_names (kfree_obj vn ?s3) = dir_names s2" by (rule dir_names_cong) (simp_all add: kfree_obj_def)
  moreover have "dir_names s2 = dir_names s"
    using s2(3) nm inv1(2) dir_names_listing [OF s2(2)] by (auto simp: node_inactive_def fun_eq_iff)
  moreover have "kept (forget_vnode (v_data v) s) (kfree_obj vn ?s3)"
    using s2(3) by (auto simp: node_inactive_def kept_def forget_vnode_def kfree_obj_def)
  moreover have "vnodes s2 = (vnodes s)(vn := Some ?v)" "mounts s2 = mounts s" "ramvfss s2 = ramvfss s" using s2(3) by (simp_all add: node_inactive_def)
  ultimately show ?thesis using run s2(4) nv v(1) by (auto simp: kfree_obj_def)
qed

text \<open>
  Reference counts: \<open>vfs_close\<close>, whether the lock of the vnode is held or free, drops one reference and leaves the lock
  free as long as others remain.  The last close makes the node forget the vnode and frees the vnode; the node is freed with
  it exactly if no name is left, and the directories do not change.
\<close>

lemma vfs_close_counts:
  assumes "ramfs_inv s" and "vn \<noteq> 0" "vnodes s vn = Some v" and "ramnodes s (v_data v) = Some n" "v_data v \<notin> freed s" "v_data v \<noteq> vn"
    and "v_vfs v \<noteq> 0" "mounts s (v_vfs v) \<noteq> None"
  shows "(v_refcount v \<noteq> 1 \<longrightarrow>
      vfs_close vn s = Inr (0, put_vnode vn (v\<lparr>v_refcount := v_refcount v - 1, v_lock := 0\<rparr>) s)) \<and>
    (v_refcount v = 1 \<longrightarrow> (\<exists>s'. vfs_close vn s = Inr (0, s') \<and> ramfs_inv s' \<and> dir_names s' = dir_names s \<and>
      vn \<in> freed s' \<and> (v_data v \<in> freed s' \<longleftrightarrow> linkcount n = 0) \<and>
      (\<exists>n'. ramnodes s' (v_data v) = Some n' \<and> n_vnode n' = 0)))"
proof (cases "v_refcount v = 1")
  case True
  with vfs_close_last [OF assms(1-3) True assms(4,7,8)] assms(5,6) show ?thesis by (auto split: if_splits)
qed (simp add: vfs_close_shared assms)

subsection \<open>Reading and writing\<close>

lemma file_at_put_vnode:
  "vnodes s vn = Some v \<Longrightarrow> v_data v' = v_data v \<Longrightarrow> file_at (put_vnode vn v' s) vn n dt sz = file_at s vn n dt sz"
  by (auto simp: file_at_def)

lemma vfs_write_run:
  assumes vn: "vn \<noteq> 0" "vnodes s vn = Some v" "v_lock v = 0" "v_type v \<noteq> VDIR" and f: "file_at s vn n dt sz"
    and junk: "\<And>k. length (junk_bytes s k) = k" and rng: "unat offset + unat count < 2 ^ 63" "unat count \<le> length buf"
  shows "\<exists>b sz' s'. vfs_write vn buf offset count s = Inr (0, s') \<and>
    s' = s\<lparr>ramnodes := (ramnodes s)(v_data v := Some (n\<lparr>n_union := Reg (Some b) sz'\<rparr>))\<rparr> \<and>
    write_post s vn n dt sz (unat offset) (take (unat count) buf) b sz' s'"
proof -
  let ?v = "v\<lparr>v_lock := 1\<rparr>" and ?new = "take (unat count) buf"
  let ?s = "put_vnode vn ?v s"
  have f1: "file_at ?s vn n dt sz" using f vn by (simp add: file_at_put_vnode)
  obtain b sz' s1 where w: "ramfs_write vn buf offset count ?s = Inr (0, s1)" "write_post ?s vn n dt sz (unat offset) ?new b sz' s1"
    using ramfs_write_spec [OF f1 _ rng] junk by auto
  let ?s' = "put_vnode vn v s1"
  have s1: "s1 = ?s\<lparr>ramnodes := (ramnodes s)(v_data v := Some (n\<lparr>n_union := Reg (Some b) sz'\<rparr>))\<rparr>"
    using w(2) by (simp add: write_post_def)
  then have s': "?s' = s\<lparr>ramnodes := (ramnodes s)(v_data v := Some (n\<lparr>n_union := Reg (Some b) sz'\<rparr>))\<rparr>"
    using vn(2) by (simp add: put_vnode_def fun_upd_idem)
  have v1: "vnodes s1 vn = Some ?v" using s1 by simp
  have "vfs_write vn buf offset count s = Inr (0, ?s')"
    using vn w(1) v1 by (simp add: vfs_write_def acquire_vnode_eq release_vnode_eq)
  moreover have "write_post s vn n dt sz (unat offset) ?new b sz' ?s'"
    unfolding write_post_def
  proof (intro conjI allI impI)
    have "file_at s1 vn (n\<lparr>n_union := Reg (Some b) sz'\<rparr>) (Some b) sz'" using w(2) unfolding write_post_def by blast
    then show "file_at ?s' vn (n\<lparr>n_union := Reg (Some b) sz'\<rparr>) (Some b) sz'" using file_at_put_vnode [OF v1, of v] by simp
  qed (use w(2) s' vn(2) in \<open>auto simp: write_post_def\<close>)
  ultimately show ?thesis using s' by blast
qed

lemma vfs_read_run:
  assumes vn: "vn \<noteq> 0" "vnodes s vn = Some v" "v_lock v = 0" "v_type v \<noteq> VDIR" and f: "file_at s vn n (Some b) sz"
    and rng: "unat offset + unat count \<le> unat sz" "unat count < 2 ^ 31" "unat count \<le> length buf"
  shows "vfs_read vn buf offset count s = Inr (int (unat count), take (unat count) (drop (unat offset) b) @ drop (unat count) buf, s)"
proof -
  have "file_at (put_vnode vn (v\<lparr>v_lock := 1\<rparr>) s) vn n (Some b) sz" using f vn by (simp add: file_at_put_vnode)
  from ramfs_read_spec [OF this rng(1,3)] show ?thesis
    using vn rng(2) by (simp add: vfs_read_def acquire_vnode_eq release_vnode_eq put_vnode_id sint_ucast_small)
qed

text \<open>A file that can be read: every range inside it comes back as it is, and the file system does not change.\<close>

definition reads_as :: "fs \<Rightarrow> ptr \<Rightarrow> u8 list \<Rightarrow> bool" where
  "reads_as s vn d \<longleftrightarrow> (\<forall>off n buf. unat off + unat n \<le> length d \<longrightarrow> unat n \<le> length buf \<longrightarrow>
     vfs_read vn buf off n s = Inr (int (unat n), take (unat n) (drop (unat off) d) @ drop (unat n) buf, s))"

lemma reads_asD:
  "reads_as s vn d \<Longrightarrow> unat off + unat n \<le> length d \<Longrightarrow> unat n \<le> length buf \<Longrightarrow>
     vfs_read vn buf off n s = Inr (int (unat n), take (unat n) (drop (unat off) d) @ drop (unat n) buf, s)"
  unfolding reads_as_def by blast

lemma reads_asI:
  assumes vn: "vn \<noteq> 0" "vnodes s vn = Some v" "v_lock v = 0" "v_type v \<noteq> VDIR" and f: "file_at s vn n (Some b) sz"
    and d: "take (length d) b = d" "length d < 2 ^ 31"
  shows "reads_as s vn d"
  unfolding reads_as_def
proof (intro allI impI)
  fix off k :: u64 and buf :: "u8 list" assume r: "unat off + unat k \<le> length d" "unat k \<le> length buf"
  have "length d \<le> length b" using d(1) by (metis length_take min.cobounded1 min_def nle_le)
  moreover have "length b = unat sz" using f by (auto simp: file_at_def reg_ok_def)
  moreover have "take (unat k) (drop (unat off) b) = take (unat k) (drop (unat off) d)"
  proof -
    have "take (unat k) (drop (unat off) (take (length d) b)) = take (unat k) (drop (unat off) b)" using r(1) by (simp add: drop_take min_def)
    then show ?thesis by (simp add: d(1))
  qed
  ultimately show "vfs_read vn buf off k s = Inr (int (unat k), take (unat k) (drop (unat off) d) @ drop (unat k) buf, s)"
    using vfs_read_run [OF vn f, of off k buf] r d(2) by simp
qed



subsection \<open>Names in the root directory\<close>

text \<open>
  \<open>root_ready s p v\<close>: the root file system is mounted, its root node is \<open>p\<close> and \<open>rootvn\<close>, at present \<open>v\<close>, is its vnode, unlocked
  and in use.  \<open>plain t\<close>: \<open>t\<close> is one component, no NUL, no slash, not \<open>.\<close> and not starting with \<open>..\<close>.
\<close>

definition root_ready :: "fs \<Rightarrow> ptr \<Rightarrow> vnode \<Rightarrow> bool" where
  "root_ready s p v \<longleftrightarrow> (\<exists>m rv n. rootfs s \<noteq> 0 \<and> mounts s (rootfs s) = Some m \<and> m_data m \<noteq> 0 \<and> ramvfss s (m_data m) = Some rv \<and>
     rv_root rv = p \<and> ramnodes s p = Some n \<and> n_vnode n = rootvn s \<and> v_vfs v = rootfs s) \<and>
     rootvn s \<noteq> 0 \<and> vnodes s (rootvn s) = Some v \<and> v_lock v = 0 \<and> 0 < v_refcount v \<and> dir_vnode s (rootvn s) p"

definition plain :: "u8 list \<Rightarrow> bool" where
  "plain t \<longleftrightarrow> t \<noteq> [] \<and> 0 \<notin> set t \<and> 47 \<notin> set t \<and> t \<noteq> bytes ''.'' \<and> take 2 t \<noteq> bytes ''..''"

lemma plainD:
  assumes "plain t"
  shows "t \<noteq> []" "0 \<notin> set t" "47 \<notin> set t" "t \<noteq> bytes ''.''" "t \<noteq> bytes ''..''"
  using assms by (auto simp: plain_def bytes_def)

text \<open>The root directory with \<open>k\<close> more references.\<close>

definition root_refs :: "int \<Rightarrow> vnode \<Rightarrow> fs \<Rightarrow> fs" where
  "root_refs k v s = put_vnode (rootvn s) (v\<lparr>v_refcount := v_refcount v + k\<rparr>) s"

lemma dir_vnode_put_vnode:
  assumes "dir_vnode s vd p" "vnodes s vn = Some v" "v_type v' = v_type v" "v_data v' = v_data v" "v_vfs v' = v_vfs v"
  shows "dir_vnode (put_vnode vn v' s) vd p"
  using assms by (auto simp: dir_vnode_def mount_ok_def ptr_ok_def)

lemma ramfs_root_ready:
  assumes inv: "ramfs_inv s" and r: "root_ready s p v"
  shows "ramfs_root (rootfs s) s = Inr (0, rootvn s, root_refs 1 v s)"
proof -
  obtain m rv n where m: "rootfs s \<noteq> 0" "mounts s (rootfs s) = Some m" "m_data m \<noteq> 0" "ramvfss s (m_data m) = Some rv"
    "rv_root rv = p" "ramnodes s p = Some n" "n_vnode n = rootvn s" and v: "rootvn s \<noteq> 0" "vnodes s (rootvn s) = Some v" "v_lock v = 0"
    and d: "n_type n = VDIR" using r by (auto simp: root_ready_def dir_vnode_def)
  obtain E dots where wf: "ramfs_wf s E dots" "unlocked s" "kalloc_ok s" using ramfs_invE [OF inv] by metis
  obtain de par sq where u: "n_union n = Dir de par sq" by (rule dir_nodeE [OF wf(1) m(6) d])
  have "ramfs_vget (rootfs s) p s = Inr (0, got_vnode (rootfs s) p n s)"
    by (rule ramfs_vget_eq [OF ramfs_wfD(1) [OF wf(1)] _ m(6) _ u])
      (use wf m v in \<open>auto simp: kalloc_ok_def unlocked_def\<close>)
  then show ?thesis using m v by (simp add: ramfs_root_def got_vnode_def root_refs_def put_vnode_def)
qed

lemma root_refs_ready:
  assumes inv: "ramfs_inv s" and r: "root_ready s p v"
  shows "ramfs_inv (root_refs k v s)" "dir_names (root_refs k v s) = dir_names s" "dir_vnode (root_refs k v s) (rootvn s) p"
    "vnodes (root_refs k v s) (rootvn s) = Some (v\<lparr>v_refcount := v_refcount v + k\<rparr>)" "rootvn s \<noteq> 0" "v_lock v = 0"
    "v_type v = VDIR" "v_data v = p" "ramnodes s p \<noteq> None"
  using r put_vnode_inv [OF inv, of "rootvn s" v] dir_vnode_put_vnode [of s "rootvn s" p "rootvn s" v]
  by (auto simp: root_ready_def root_refs_def dir_vnode_def)

text \<open>The entry a lookup of \<open>t\<close> finds: the first whose name starts with \<open>t\<close>.\<close>

definition first_match :: "fs \<Rightarrow> ptr \<Rightarrow> u8 list \<Rightarrow> ptr option" where
  "first_match s p t = map_option snd (find (\<lambda>(u, _). take (length t) u = t) (dir_names s p))"

lemma first_match_lookup: "ramfs_wf s E dots \<Longrightarrow> first_match s p t = map_option (enode s) (lookup_match s E p t)"
  by (simp add: first_match_def dir_names_listing listing_def find_map lookup_match_def option.map_comp comp_def)

lemma strncmp_dotdot:
  assumes "plain t"
  shows "strncmp (t @ 0 # r) (cstr (bytes ''..'')) 2 = Inr (- 1)"
proof -
  have "take 2 (cstr (bytes ''..'')) = bytes ''..''" "0 \<notin> set (bytes ''..'')" by (simp_all add: cstr_def bytes_def)
  then show ?thesis using strncmp_spec [of 2 "cstr (bytes ''..'')" t r] assms by (simp add: plain_def cstr_def bytes_def)
qed

lemma cross_mounts_none:
  "vd \<noteq> 0 \<Longrightarrow> vnodes s vd = Some v \<Longrightarrow> v_type v = VDIR \<longrightarrow> v_mountedhere v = 0 \<Longrightarrow>
     cross_mounts (fs_fuel s) vd vn s = Inr (0, vd, vn, s)"
  by (auto simp: fs_fuel_def)

lemma lookup_component_plain:
  assumes nd: "plain t" "nd_name nd = t @ [0]" "nd_len nd = length t" "nd_next nd = [0]" "nd_flags nd AND FOLLOW = 0"
    and vd: "vd \<noteq> 0" "vnodes s vd = Some v" "v_lock v = 0"
    and run: "ramfs_lookup vd (t @ [0]) (length t) (put_vnode vd (v\<lparr>v_lock := 1\<rparr>) s) = Inr (e, Some vn, s')"
      "vnodes s' vd = Some (v\<lparr>v_lock := 1\<rparr>)"
  shows "e \<noteq> 0 \<Longrightarrow> lookup_component nd vd s = Inr (e, True, nd\<lparr>nd_vdir := vd, nd_vn := vn\<rparr>, vd, put_vnode vd v s')"
    and "e = 0 \<Longrightarrow> vn \<noteq> 0 \<Longrightarrow> vn \<noteq> vd \<Longrightarrow> vnodes s' vn = Some w \<Longrightarrow> v_lock w = 0 \<Longrightarrow> v_type w = VDIR \<longrightarrow> v_mountedhere w = 0 \<Longrightarrow>
      lookup_component nd vd s =
        Inr (0, False, nd\<lparr>nd_vdir := vd, nd_vn := vn\<rparr>, vn, put_vnode vn (w\<lparr>v_lock := 1\<rparr>) (put_vnode vd v s'))"
  using nd vd run strncmp_dotdot [OF nd(1), of "[]"]
  by (simp_all add: lookup_component_def Let_def acquire_vnode_eq release_vnode_eq cross_mounts_none del: cross_mounts.simps)

lemma namei_plain:
  assumes inv: "ramfs_inv s" and r: "root_ready s p v" and t: "plain t"
    and lc: "lookup_component \<lparr>nd_vdir = rootvn s, nd_vn = 0, nd_root = 0, nd_next = [0], nd_flags = 0, nd_name = t @ [0], nd_len = length t\<rparr>
      (rootvn s) (root_refs 1 v s) = Inr (e, fin, nd, vn, s')"
    and fin: "if fin then e \<noteq> 0 else e = 0 \<and> nd_next nd = [0] \<and> nd_flags nd = 0"
  shows "namei (cstr (47 # t)) (stack_nd s) s =
    (if fin then Inr (e, nd, s') else ebind (release_vnode vn s') (\<lambda>s'. Inr (0, nd, s')))"
proof -
  have z: "junk_ptr s = 0" "junk_flags s = 0" "\<And>k. length (junk_bytes s k) = k"
    using inv by (auto simp: ramfs_inv_def kalloc_ok_def zeroed_def)
  note tD = plainD [OF t]
  have dup: "strdup (junk_bytes s) (cstr (47 # t)) = Inr (47 # t @ [0])" "strlen (cstr (47 # t)) = Inr (Suc (length t))"
    using strdup_cstr [of "47 # t" "junk_bytes s"] strlen_spec [of "47 # t" "[]"] tD z by (simp_all add: cstr_def)
  obtain c r where c: "t = c # r" "c \<noteq> 0" "c \<noteq> 47" using tD by (cases t) auto
  have sl: "skip_slashes (47 # t @ [0]) = Inr (t @ [0])" using c by simp
  have scan: "scan_component (t @ [0]) = Inr (length t, [0])" using scan_component_spec [of t 0 "[]"] tD by simp
  let ?nd = "\<lparr>nd_vdir = rootvn s, nd_vn = 0, nd_root = 0, nd_next = [], nd_flags = 0, nd_name = t @ [0], nd_len = Suc (length t)\<rparr>"
  have lk: "lookup ?nd (root_refs 1 v s) = (if fin then Inr (e, nd, s') else ebind (release_vnode vn s') (\<lambda>s'. Inr (0, nd, s')))"
    using scan lc fin c by (simp add: lookup_def Let_def)
  have "namei (cstr (47 # t)) (stack_nd s) s =
      namei_loop (Suc 63) 0 0 \<lparr>nd_vdir = 0, nd_vn = 0, nd_root = 0, nd_next = [], nd_flags = 0, nd_name = 47 # t @ [0], nd_len = Suc (length t)\<rparr> s"
    using dup z by (simp add: namei_def NAMEI_FUEL_def stack_nd_def)
  then show ?thesis unfolding namei_loop.simps using ramfs_root_ready [OF inv r] sl lk fin
    by (auto simp: release_vnode_def mod_vnode_def ebind_assoc simp del: skip_slashes.simps)
qed

text \<open>What a caller of \<open>namei\<close> finds in its \<open>struct nameidata\<close> for \<open>/t\<close>.\<close>

definition nd_at :: "ptr \<Rightarrow> ptr \<Rightarrow> u8 list \<Rightarrow> nameidata" where
  "nd_at vd vn t = \<lparr>nd_vdir = vd, nd_vn = vn, nd_root = 0, nd_next = [0], nd_flags = 0, nd_name = t @ [0], nd_len = length t\<rparr>"

lemma root_locked:
  assumes inv: "ramfs_inv s" and r: "root_ready s p v"
  obtains E dots where "ramfs_wf (put_vnode (rootvn s) (v\<lparr>v_refcount := k, v_lock := l\<rparr>) s) E dots"
    "unlocked (put_vnode (rootvn s) (v\<lparr>v_refcount := k, v_lock := l\<rparr>) s)" "kalloc_ok (put_vnode (rootvn s) (v\<lparr>v_refcount := k, v_lock := l\<rparr>) s)"
    "dir_vnode (put_vnode (rootvn s) (v\<lparr>v_refcount := k, v_lock := l\<rparr>) s) (rootvn s) p"
    "dir_names (put_vnode (rootvn s) (v\<lparr>v_refcount := k, v_lock := l\<rparr>) s) = dir_names s"
proof -
  have v: "vnodes s (rootvn s) = Some v" "dir_vnode s (rootvn s) p" using r by (simp_all add: root_ready_def)
  note i = put_vnode_inv [OF inv v(1), of "v\<lparr>v_refcount := k, v_lock := l\<rparr>", simplified]
  show thesis
    by (rule ramfs_invE [OF i(1)]) (use that i(2) dir_vnode_put_vnode [OF v(2,1), of "v\<lparr>v_refcount := k, v_lock := l\<rparr>"] in simp)
qed

lemma namei_absent:
  assumes inv: "ramfs_inv s" and r: "root_ready s p v" and t: "plain t" "first_match s p t = None"
  shows "namei (cstr (47 # t)) (stack_nd s) s = Inr (- ENOENT, nd_at (rootvn s) 0 t, root_refs 1 v s)"
proof -
  let ?v = "v\<lparr>v_refcount := v_refcount v + 1, v_lock := 1\<rparr>"
  let ?s = "put_vnode (rootvn s) ?v s"
  have v: "rootvn s \<noteq> 0" "vnodes s (rootvn s) = Some v" "v_lock v = 0" using r by (auto simp: root_ready_def)
  obtain E dots where wf: "ramfs_wf ?s E dots" "unlocked ?s" "kalloc_ok ?s" "dir_vnode ?s (rootvn s) p" "dir_names ?s = dir_names s"
    by (rule root_locked [OF inv r])
  have "lookup_match ?s E p t = None" using first_match_lookup [OF wf(1), of p t] t(2) wf(5) by (simp add: first_match_def)
  then have "ramfs_lookup (rootvn s) (t @ [0]) (length t) ?s = Inr (- ENOENT, Some 0, ?s)"
    using ramfs_lookup_spec(1) [OF wf(1,2) _ _ wf(4), of ?v t t "[]" "[]"] wf(3) plainD [OF t(1)] by (simp add: kalloc_ok_def)
  then have "lookup_component (nd_at (rootvn s) 0 t) (rootvn s) (root_refs 1 v s) =
      Inr (- ENOENT, True, nd_at (rootvn s) 0 t, rootvn s, root_refs 1 v s)"
    using lookup_component_plain(1) [of t "nd_at (rootvn s) 0 t" "rootvn s" "root_refs 1 v s" "v\<lparr>v_refcount := v_refcount v + 1\<rparr>" "- ENOENT" 0 ?s]
      t(1) v by (simp add: nd_at_def root_refs_def ENOENT_def)
  then show ?thesis using namei_plain [OF inv r t(1), of "- ENOENT" True] by (simp add: nd_at_def ENOENT_def)
qed

lemma namei_present:
  assumes inv: "ramfs_inv s" and r: "root_ready s p v" and t: "plain t" "first_match s p t = Some node" "node \<noteq> p"
    and n: "ramnodes s node = Some n" "n_vnode n = vn" "vn \<noteq> 0" "vnodes s vn = Some w" "v_lock w = 0" "v_type w = VDIR \<longrightarrow> v_mountedhere w = 0"
  shows "namei (cstr (47 # t)) (stack_nd s) s =
      Inr (0, nd_at (rootvn s) vn t, put_vnode vn (w\<lparr>v_refcount := v_refcount w + 1\<rparr>) (root_refs 1 v s))" "vn \<noteq> rootvn s"
proof -
  let ?v = "v\<lparr>v_refcount := v_refcount v + 1, v_lock := 1\<rparr>" and ?w = "w\<lparr>v_refcount := v_refcount w + 1\<rparr>"
  let ?s = "put_vnode (rootvn s) ?v s"
  have v: "rootvn s \<noteq> 0" "vnodes s (rootvn s) = Some v" "v_lock v = 0" "v_data v = p" using r by (auto simp: root_ready_def dir_vnode_def)
  obtain E dots where wf: "ramfs_wf ?s E dots" "unlocked ?s" "kalloc_ok ?s" "dir_vnode ?s (rootvn s) p" "dir_names ?s = dir_names s"
    by (rule root_locked [OF inv r])
  have "v_data v = node" if "vn = rootvn s"
    using ramfs_wfD(4) [OF wf(1), of node n] that n v by (auto simp: node_ok_def)
  then show vn: "vn \<noteq> rootvn s" using v(4) t(3) by auto
  obtain d where d: "lookup_match ?s E p t = Some d" "enode ?s d = node"
    using first_match_lookup [OF wf(1), of p t] t(2) wf(5) by (auto simp: first_match_def)
  have "vnode_free ?s n" using n vn by (simp add: vnode_free_def)
  then have lk: "ramfs_lookup (rootvn s) (t @ [0]) (length t) ?s = Inr (0, Some vn, put_vnode vn ?w ?s)"
    using ramfs_lookup_spec(2) [OF wf(1,2) _ _ wf(4), of ?v t t "[]" d n "[]"] wf(3) plainD [OF t(1)] d t(3) n vn
    by (simp add: kalloc_ok_def got_vnode_def put_vnode_def)
  have "lookup_component (nd_at (rootvn s) 0 t) (rootvn s) (root_refs 1 v s) =
      Inr (0, False, nd_at (rootvn s) vn t, vn, put_vnode vn (?w\<lparr>v_lock := 1\<rparr>) (root_refs 1 v s))"
    using lookup_component_plain(2) [of t "nd_at (rootvn s) 0 t" "rootvn s" "root_refs 1 v s" "v\<lparr>v_refcount := v_refcount v + 1\<rparr>" 0 vn "put_vnode vn ?w ?s" ?w]
      t(1) v n vn lk by (simp add: nd_at_def root_refs_def put_vnode_def fun_upd_twist)
  then show "namei (cstr (47 # t)) (stack_nd s) s = Inr (0, nd_at (rootvn s) vn t, put_vnode vn ?w (root_refs 1 v s))"
    using namei_plain [OF inv r t(1), of 0 False] n by (simp add: nd_at_def release_vnode_eq)
qed

text \<open>A new name in the root directory: its node and vnode, everything else as before.\<close>

definition root_created :: "fs \<Rightarrow> ptr \<Rightarrow> vnode \<Rightarrow> u8 list \<Rightarrow> vtype \<Rightarrow> fs \<Rightarrow> ptr \<Rightarrow> ptr \<Rightarrow> bool" where
  "root_created s p v t type s' node vn \<longleftrightarrow>
     ramfs_inv s' \<and> root_ready s' p v \<and> rootvn s' = rootvn s \<and>
     dir_names s' p = (t, node) # dir_names s p \<and> (\<forall>q. q \<noteq> p \<longrightarrow> dir_names s' q = dir_names s q) \<and> node \<noteq> p \<and> vn \<noteq> 0 \<and>
     vnodes s vn = None \<and> vnodes s' = (vnodes s)(vn := Some \<lparr>v_vfs = rootfs s, v_mountedhere = 0, v_type = type, v_refcount = 1,
       v_flags = 0, v_lock = 0, v_data = node\<rparr>) \<and>
     (\<exists>n. ramnodes s' node = Some n \<and> n_type n = type \<and> n_vnode n = vn \<and> linkcount n = (if type = VDIR then 2 else 1) \<and>
        (type = VREG \<longrightarrow> n_union n = Reg None 0)) \<and>
     ramnodes s node = None \<and> mounts s' = mounts s \<and> kept s s'"

lemma root_readyI:
  assumes r: "root_ready s p v" and k: "kept s s'" and s': "mounts s' = mounts s" "vnodes s' (rootvn s) = Some v" "dir_vnode s' (rootvn s) p"
  shows "root_ready s' p v"
proof -
  obtain m rv n where m: "rootfs s \<noteq> 0" "mounts s (rootfs s) = Some m" "m_data m \<noteq> 0" "ramvfss s (m_data m) = Some rv"
    "rv_root rv = p" "ramnodes s p = Some n" "n_vnode n = rootvn s" "v_vfs v = rootfs s" using r by (auto simp: root_ready_def)
  have g: "rootfs s' = rootfs s" "rootvn s' = rootvn s" using k by (simp_all add: kept_def)
  have "map_option rv_root (ramvfss s' (m_data m)) = Some p" using k m(4,5) by (simp add: kept_def)
  moreover obtain n' where "ramnodes s' p = Some n'" "n_vnode n' = rootvn s" using k m(6,7) unfolding kept_def by metis
  ultimately show ?thesis using r m s' by (auto simp: root_ready_def g)
qed

lemma create_at_root:
  assumes inv: "ramfs_inv s" and r: "root_ready s p v" and t: "plain t" "link_arg_ok type target" "target \<noteq> None \<longrightarrow> type = VLNK"
  shows "\<exists>s1 node vn. ramfs_alloc_file (rootvn s) (t @ [0]) (length t) type target
      (put_vnode (rootvn s) (v\<lparr>v_refcount := v_refcount v + 1, v_lock := 1\<rparr>) s) = Inr (0, Some vn, s1) \<and>
    vrele (rootvn s) s1 = Inr (put_vnode (rootvn s) v s1) \<and> root_created s p v t type (put_vnode (rootvn s) v s1) node vn"
proof -
  let ?v = "v\<lparr>v_refcount := v_refcount v + 1, v_lock := 1\<rparr>"
  let ?s = "put_vnode (rootvn s) ?v s"
  have v: "rootvn s \<noteq> 0" "vnodes s (rootvn s) = Some v" "v_lock v = 0" "v_vfs v = rootfs s" "0 < v_refcount v" "dir_vnode s (rootvn s) p"
    using r by (auto simp: root_ready_def)
  obtain E dots where wf: "ramfs_wf ?s E dots" "unlocked ?s" "kalloc_ok ?s" "dir_vnode ?s (rootvn s) p" "dir_names ?s = dir_names s"
    by (rule root_locked [OF inv r])
  note tD = plainD [OF t(1)]
  obtain s1 E' dots' node vn where run: "ramfs_alloc_file (rootvn s) (t @ [0]) (length t) type target ?s = Inr (0, Some vn, s1)"
    and f: "file_created ?s E dots p t type (rootfs s) s1 E' dots' node vn"
    using ramfs_alloc_file_spec [OF wf(1-3) _ wf(4), of ?v "t @ [0]" t "[0]" type target] tD(1,2) t(2,3) v(4) by auto
  have p: "ramnodes ?s p \<noteq> None" using wf(4) by (auto simp: dir_vnode_def)
  obtain d ds n where d: "node \<noteq> p" "vn \<noteq> 0" "dir_names s1 p = (t, node) # listing ?s E p"
    "\<And>q. q \<noteq> p \<Longrightarrow> dir_names s1 q = listing ?s E q" using file_createdE [OF f p] by metis
  have f': "vnodes s1 vn = Some \<lparr>v_vfs = rootfs s, v_mountedhere = 0, v_type = type, v_refcount = 1, v_flags = 0, v_lock = 0, v_data = node\<rparr>"
    "\<And>w. w \<noteq> vn \<Longrightarrow> vnodes s1 w = vnodes ?s w" "vnodes ?s vn = None" "mounts s1 = mounts s" "kept ?s s1"
    "\<exists>n. ramnodes s1 node = Some n \<and> n_type n = type \<and> n_vnode n = vn \<and> linkcount n = (if type = VDIR then 2 else 1) \<and>
       (type = VREG \<longrightarrow> n_union n = Reg None 0)" "ramnodes s node = None"
    using f by (auto simp: file_created_def)
  have vr: "vn \<noteq> rootvn s" using f'(3) by auto
  have r1: "vnodes s1 (rootvn s) = Some ?v" using f'(2) vr by auto
  let ?s' = "put_vnode (rootvn s) v s1"
  have rel: "vrele (rootvn s) s1 = Inr ?s'" using vput_shared [OF v(1) r1] v(3,5) by simp
  have "ramfs_inv s1" using file_createdD(1-3) [OF f] by (intro ramfs_invI)
  from put_vnode_inv [OF this r1, of v] have i: "ramfs_inv ?s'" "dir_names ?s' = dir_names s1" by simp_all
  have dv: "dir_vnode ?s' (rootvn s) p"
    by (rule dir_vnode_put_vnode [OF dir_vnode_created(1) [OF f wf(4)] r1]) simp_all
  have vs: "vnodes ?s' = (vnodes s)(vn := Some \<lparr>v_vfs = rootfs s, v_mountedhere = 0, v_type = type, v_refcount = 1,
       v_flags = 0, v_lock = 0, v_data = node\<rparr>)" using f'(1,2) vr v(2) by (auto simp: fun_eq_iff)
  have k: "kept s ?s'" using f'(5) by (simp add: kept_def)
  have "root_ready ?s' p v" by (rule root_readyI [OF r k]) (use f'(4) dv in simp_all)
  moreover have "dir_names s q = listing ?s E q" for q using dir_names_listing [OF wf(1)] wf(5) by simp
  ultimately have "root_created s p v t type ?s' node vn"
    unfolding root_created_def using i d vs f'(3,4,6,7) vr k by (simp add: kept_def)
  with run rel show ?thesis by blast
qed

lemma root_created_match:
  assumes "root_created s p v t type s' node vn"
  shows "first_match s' p t = Some node"
  using assms by (simp add: root_created_def first_match_def)

text \<open>The two calls that create, on a name that is not there, and \<open>namei\<close> on a name that was just created.\<close>

lemma vfs_create_run:
  assumes inv: "ramfs_inv s" and r: "root_ready s p v" and t: "plain t" "first_match s p t = None" "type \<noteq> VLNK"
  shows "\<exists>s' node vn. vfs_create (cstr (47 # t)) type s = Inr (0, Some vn, s') \<and> root_created s p v t type s' node vn"
proof -
  obtain s1 node vn where c: "ramfs_alloc_file (rootvn s) (t @ [0]) (length t) type None
      (put_vnode (rootvn s) (v\<lparr>v_refcount := v_refcount v + 1, v_lock := 1\<rparr>) s) = Inr (0, Some vn, s1)"
    "vrele (rootvn s) s1 = Inr (put_vnode (rootvn s) v s1)" "root_created s p v t type (put_vnode (rootvn s) v s1) node vn"
    using create_at_root [OF inv r t(1), of type None] t(3) by (auto simp: link_arg_ok_def)
  have v: "rootvn s \<noteq> 0" "vnodes s (rootvn s) = Some v" "v_lock v = 0" using r by (auto simp: root_ready_def)
  have "vfs_create (cstr (47 # t)) type s = Inr (0, Some vn, put_vnode (rootvn s) v s1)"
    using namei_absent [OF inv r t(1,2)] c(1,2) v
    by (simp add: vfs_create_def vfs_open_def O_CREATE_def nd_at_def root_refs_def acquire_vnode_eq ramfs_create_def)
  with c(3) show ?thesis by blast
qed

lemma vfs_mkdir_run:
  assumes inv: "ramfs_inv s" and r: "root_ready s p v" and t: "plain t" "first_match s p t = None"
  shows "\<exists>s' node vn. vfs_mkdir (cstr (47 # t)) s = Inr (0, Some vn, s') \<and> root_created s p v t VDIR s' node vn"
proof -
  obtain s1 node vn where c: "ramfs_alloc_file (rootvn s) (t @ [0]) (length t) VDIR None
      (put_vnode (rootvn s) (v\<lparr>v_refcount := v_refcount v + 1, v_lock := 1\<rparr>) s) = Inr (0, Some vn, s1)"
    "vrele (rootvn s) s1 = Inr (put_vnode (rootvn s) v s1)" "root_created s p v t VDIR (put_vnode (rootvn s) v s1) node vn"
    using create_at_root [OF inv r t(1), of VDIR None] by (auto simp: link_arg_ok_def)
  have v: "rootvn s \<noteq> 0" "vnodes s (rootvn s) = Some v" "v_lock v = 0" "v_type v = VDIR" using r by (auto simp: root_ready_def dir_vnode_def)
  have "vfs_mkdir (cstr (47 # t)) s = Inr (0, Some vn, put_vnode (rootvn s) v s1)"
    using namei_absent [OF inv r t] c(1,2) v
    by (simp add: vfs_mkdir_def nd_at_def root_refs_def acquire_vnode_eq ramfs_mkdir_def cstr_def)
  with c(3) show ?thesis by blast
qed

lemma namei_created:
  assumes c: "root_created s p v t type s' node vn" and t: "plain t"
  obtains w where "vnodes s' vn = Some w" "v_lock w = 0" "v_refcount w = 1" "v_type w = type" "v_data w = node" "v_flags w = 0" "vn \<noteq> 0" "vn \<noteq> rootvn s'"
    "namei (cstr (47 # t)) (stack_nd s') s' =
      Inr (0, nd_at (rootvn s') vn t, put_vnode vn (w\<lparr>v_refcount := 2\<rparr>) (root_refs 1 v s'))"
proof -
  have s': "ramfs_inv s'" "root_ready s' p v" "node \<noteq> p" "vn \<noteq> 0" using c by (simp_all add: root_created_def)
  obtain w n where w: "vnodes s' vn = Some w" "v_lock w = 0" "v_refcount w = 1" "v_type w = type" "v_data w = node" "v_mountedhere w = 0" "v_flags w = 0"
    "ramnodes s' node = Some n" "n_vnode n = vn" using c by (auto simp: root_created_def)
  note np = namei_present [OF s'(1,2) t root_created_match [OF c] s'(3) w(8,9) s'(4) w(1,2)]
  show thesis by (rule that [OF w(1-5,7) s'(4)]) (use np w(3,6) in simp_all)
qed

text \<open>Dropping the two references that \<open>namei\<close> took gives the old state back.\<close>

lemma put_both:
  assumes r: "root_ready s p v" and w: "vnodes s vn = Some w" "v_lock w = 0" "v_refcount w = 1" "vn \<noteq> 0" "vn \<noteq> rootvn s"
  shows "ebind (vput (rootvn s) (put_vnode vn (w\<lparr>v_refcount := 2\<rparr>) (root_refs 1 v s))) (\<lambda>s'. ebind (vput vn s') f) = f s"
    and "vput (rootvn s) (put_vnode vn (w\<lparr>v_refcount := 2\<rparr>) (root_refs 1 v s)) = Inr (put_vnode vn (w\<lparr>v_refcount := 2\<rparr>) s)"
proof -
  let ?s = "put_vnode vn (w\<lparr>v_refcount := 2\<rparr>) (root_refs 1 v s)"
  have v: "rootvn s \<noteq> 0" "vnodes s (rootvn s) = Some v" "v_lock v = 0" "0 < v_refcount v" using r by (auto simp: root_ready_def)
  have "vnodes ?s (rootvn s) = Some (v\<lparr>v_refcount := v_refcount v + 1\<rparr>)" using w(5) by (simp add: root_refs_def)
  from vput_shared(1) [OF v(1) this] v
  show a: "vput (rootvn s) ?s = Inr (put_vnode vn (w\<lparr>v_refcount := 2\<rparr>) s)"
    using w(5) by (simp add: root_refs_def put_vnode_def fun_upd_twist [of _ "rootvn s"] fun_upd_idem)
  have "vput vn (put_vnode vn (w\<lparr>v_refcount := 2\<rparr>) s) = Inr s"
    using vput_shared(1) [OF w(4), of "put_vnode vn (w\<lparr>v_refcount := 2\<rparr>) s" "w\<lparr>v_refcount := 2\<rparr>"] w by (simp add: put_vnode_id)
  with a show "ebind (vput (rootvn s) ?s) (\<lambda>s'. ebind (vput vn s') f) = f s" by simp
qed

text \<open>Opening a file that nobody has open: it gets a new vnode, and the root directory keeps its references.\<close>

lemma namei_closed:
  assumes inv: "ramfs_inv s" and r: "root_ready s p v" and t: "plain t" "first_match s p t = Some node" "node \<noteq> p"
    and n: "ramnodes s node = Some n" "n_vnode n = 0"
  shows "namei (cstr (47 # t)) (stack_nd s) s =
      Inr (0, nd_at (rootvn s) (next_ptr s) t, snd (got_vnode (rootfs s) node n (root_refs 1 v s)))" "next_ptr s \<noteq> rootvn s" "next_ptr s \<noteq> 0"
proof -
  let ?v = "v\<lparr>v_refcount := v_refcount v + 1, v_lock := 1\<rparr>" and ?w = "fresh_vnode (rootfs s) node n" and ?vn = "next_ptr s"
  let ?s = "put_vnode (rootvn s) ?v s"
  let ?g = "snd (got_vnode (rootfs s) node n ?s)"
  have v: "rootvn s \<noteq> 0" "vnodes s (rootvn s) = Some v" "v_lock v = 0" "v_data v = p" "v_vfs v = rootfs s" using r by (auto simp: root_ready_def dir_vnode_def)
  obtain E dots where wf: "ramfs_wf ?s E dots" "unlocked ?s" "kalloc_ok ?s" "dir_vnode ?s (rootvn s) p" "dir_names ?s = dir_names s"
    by (rule root_locked [OF inv r])
  obtain E0 dots0 where "ramfs_wf s E0 dots0" using inv by (auto simp: ramfs_inv_def)
  then have b: "bounded s" by (rule ramfs_wfD(1))
  show vn: "?vn \<noteq> rootvn s" "?vn \<noteq> 0" using bounded_fresh(3) [OF b] v(2) bounded_nonzero(1) [OF b n(1)] by auto
  obtain d where d: "lookup_match ?s E p t = Some d" "enode ?s d = node"
    using first_match_lookup [OF wf(1), of p t] t(2) wf(5) by (auto simp: first_match_def)
  have "vnode_free ?s n" using n by (simp add: vnode_free_def)
  then have lk: "ramfs_lookup (rootvn s) (t @ [0]) (length t) ?s = Inr (0, Some ?vn, ?g)"
    using ramfs_lookup_spec(2) [OF wf(1,2) _ _ wf(4), of ?v t t "[]" d n "[]"] wf(3) plainD [OF t(1)] d t(3) n v(5)
    by (simp add: kalloc_ok_def got_vnode_def)
  have g: "vnodes ?g (rootvn s) = Some ?v" "vnodes ?g ?vn = Some ?w" using n(2) vn by (simp_all add: got_vnode_def)
  have w: "v_lock ?w = 0" "v_mountedhere ?w = 0" by (simp_all add: fresh_vnode_def)
  let ?s' = "put_vnode (rootvn s) (v\<lparr>v_refcount := v_refcount v + 1\<rparr>) ?g"
  have "lookup_component (nd_at (rootvn s) 0 t) (rootvn s) (root_refs 1 v s) =
      Inr (0, False, nd_at (rootvn s) ?vn t, ?vn, put_vnode ?vn (?w\<lparr>v_lock := 1\<rparr>) ?s')"
    using lookup_component_plain(2) [of t "nd_at (rootvn s) 0 t" "rootvn s" "root_refs 1 v s" "v\<lparr>v_refcount := v_refcount v + 1\<rparr>" 0 ?vn ?g ?w]
      t(1) v vn lk g w by (simp add: nd_at_def root_refs_def)
  moreover have "put_vnode ?vn ?w ?s' = snd (got_vnode (rootfs s) node n (root_refs 1 v s))"
    using n(2) vn by (simp add: got_vnode_def root_refs_def put_vnode_def fun_upd_twist fun_upd_idem)
  ultimately show "namei (cstr (47 # t)) (stack_nd s) s =
      Inr (0, nd_at (rootvn s) ?vn t, snd (got_vnode (rootfs s) node n (root_refs 1 v s)))"
    using namei_plain [OF inv r t(1), of 0 False] vn w(1) by (simp add: nd_at_def release_vnode_eq)
qed

lemma vfs_open_closed:
  assumes inv: "ramfs_inv s" and r: "root_ready s p v" and t: "plain t" "first_match s p t = Some node" "node \<noteq> p"
    and n: "ramnodes s node = Some n" "n_vnode n = 0" and fl: "flags AND O_CREATE = 0"
  shows "vfs_open (cstr (47 # t)) ty flags s = Inr (0, Some (next_ptr s), snd (got_vnode (rootfs s) node n s))"
proof -
  note nm = namei_closed [OF inv r t n]
  let ?g = "snd (got_vnode (rootfs s) node n (root_refs 1 v s))"
  have v: "rootvn s \<noteq> 0" "vnodes s (rootvn s) = Some v" "v_lock v = 0" "0 < v_refcount v" using r by (auto simp: root_ready_def)
  have "vnodes ?g (rootvn s) = Some (v\<lparr>v_refcount := v_refcount v + 1\<rparr>)" using n(2) nm(2) by (simp add: got_vnode_def root_refs_def)
  from vput_shared(1) [OF v(1) this] v have "vput (rootvn s) ?g = Inr (put_vnode (rootvn s) v ?g)" by simp
  moreover have "put_vnode (rootvn s) v ?g = snd (got_vnode (rootfs s) node n s)"
    using n(2) nm(2) v(2) by (simp add: got_vnode_def root_refs_def put_vnode_def fun_upd_twist fun_upd_idem)
  ultimately show ?thesis using nm v(1) fl by (simp add: vfs_open_def nd_at_def vput_opt_def)
qed

text \<open>
  C14 (mkdir).  On a well-formed file system \<open>vfs_mkdir\<close> of \<open>/t\<close>, where no name in the root directory starts with \<open>t\<close>, succeeds: the root directory
  has the new name at its head and is otherwise unchanged, no other vnode changes, the root directory's reference count and
  lock included.  Doing it again returns \<open>-EEXIST\<close> and leaves the state exactly as it was.
\<close>

theorem vfs_mkdir_twice:
  assumes "ramfs_inv s" and "root_ready s p v" and "plain t" "first_match s p t = None"
  shows "\<exists>s' node vn. vfs_mkdir (cstr (47 # t)) s = Inr (0, Some vn, s') \<and> root_created s p v t VDIR s' node vn \<and>
    vfs_mkdir (cstr (47 # t)) s' = Inr (- EEXIST, None, s')"
proof -
  obtain s' node vn where c: "vfs_mkdir (cstr (47 # t)) s = Inr (0, Some vn, s')" "root_created s p v t VDIR s' node vn"
    using vfs_mkdir_run [OF assms] by blast
  obtain w where w: "vnodes s' vn = Some w" "v_lock w = 0" "v_refcount w = 1" "vn \<noteq> 0" "vn \<noteq> rootvn s'"
    and n: "namei (cstr (47 # t)) (stack_nd s') s' = Inr (0, nd_at (rootvn s') vn t, put_vnode vn (w\<lparr>v_refcount := 2\<rparr>) (root_refs 1 v s'))"
    by (rule namei_created [OF c(2) assms(3)])
  have r: "root_ready s' p v" "rootvn s' \<noteq> 0" using c(2) by (auto simp: root_created_def root_ready_def)
  have "vfs_mkdir (cstr (47 # t)) s' = Inr (- EEXIST, None, s')"
    using n w(4) r(2) put_both(1) [OF r(1) w, of "\<lambda>s. Inr (- EEXIST, None, s)"]
    by (simp add: vfs_mkdir_def nd_at_def vput_opt_def cstr_def ENOENT_def)
  with c show ?thesis by blast
qed

lemma root_fs_ready:
  "root_ready root_fs 2 \<lparr>v_vfs = 3, v_mountedhere = 0, v_type = VDIR, v_refcount = 1, v_flags = VROOT, v_lock = 0, v_data = 2\<rparr>"
  "first_match root_fs 2 t = None" "plain (bytes ''a'')"
proof -
  show "root_ready root_fs 2 \<lparr>v_vfs = 3, v_mountedhere = 0, v_type = VDIR, v_refcount = 1, v_flags = VROOT, v_lock = 0, v_data = 2\<rparr>"
    using root_fs_wf(4) by (simp add: root_ready_def root_fs_def)
  show "first_match root_fs 2 t = None" by (simp add: first_match_def root_fs_wf)
qed (simp add: plain_def bytes_def)

theorem vfs_mkdir_twice_witness:
  "\<exists>s' node vn. vfs_mkdir (cstr (47 # bytes ''a'')) root_fs = Inr (0, Some vn, s') \<and> dir_names s' 2 = [(bytes ''a'', node)] \<and>
     vfs_mkdir (cstr (47 # bytes ''a'')) s' = Inr (- EEXIST, None, s')"
  using vfs_mkdir_twice [OF root_fs_wf(5) root_fs_ready(1,3,2)] unfolding root_created_def root_fs_wf(6) by blast



subsection \<open>Removing files\<close>

text \<open>\<open>ramfs_remove\<close> as \<open>vfs_unlink\<close> calls it, with both vnodes referenced and locked.\<close>

lemma remove_at_root:
  assumes c: "root_created s p v t type s' node vn" and t: "plain t" "type \<noteq> VDIR"
    and v': "v' = v\<lparr>v_refcount := v_refcount v + 1, v_lock := 1\<rparr>"
    and w: "vnodes s' vn = Some w" "v_type w = type" "v_data w = node" "vn \<noteq> rootvn s'" "w' = w\<lparr>v_refcount := 2, v_lock := 1\<rparr>"
  shows "\<exists>s3. ramfs_remove (rootvn s') vn (t @ [0]) (put_vnode (rootvn s') v' (put_vnode vn w' s')) = Inr (0, s3) \<and> ramfs_inv s3 \<and>
    dir_names s3 = dir_names s \<and> vnodes s3 = (vnodes s')(vn := Some w', rootvn s' := Some v') \<and> mounts s3 = mounts s' \<and>
    (\<exists>n. ramnodes s3 node = Some n \<and> linkcount n = 0)"
proof -
  have s': "ramfs_inv s'" "vnodes s' (rootvn s') = Some v" "dir_vnode s' (rootvn s') p" "vn \<noteq> 0"
    "dir_names s' p = (t, node) # dir_names s p" "\<And>q. q \<noteq> p \<Longrightarrow> dir_names s' q = dir_names s q"
    using c by (auto simp: root_created_def root_ready_def)
  obtain n where nn: "ramnodes s' node = Some n" "n_type n = type" "linkcount n = 1"
    using c t(2) by (auto simp: root_created_def)
  let ?s1 = "put_vnode vn w' s'" and ?s2 = "put_vnode (rootvn s') v' (put_vnode vn w' s')"
  have i1: "ramfs_inv ?s1" "dir_names ?s1 = dir_names s'" using put_vnode_inv [OF s'(1) w(1), of w'] w(5) by simp_all
  have i2: "ramfs_inv ?s2" "dir_names ?s2 = dir_names s'"
    using put_vnode_inv [OF i1(1), of "rootvn s'" v v'] i1(2) s'(2) w(4) v' by simp_all
  obtain E dots where wf: "ramfs_wf ?s2 E dots" "unlocked ?s2" "kalloc_ok ?s2" and "\<And>q. dir_names ?s2 q = listing ?s2 E q"
    using ramfs_invE [OF i2(1)] by metis
  then have ls: "listing ?s2 E q = dir_names s' q" for q using i2(2) by simp
  have dv: "dir_vnode ?s2 (rootvn s') p"
    by (rule dir_vnode_put_vnode [OF dir_vnode_put_vnode [OF s'(3) w(1)]]) (use s'(2) w v' in simp_all)
  have "map_of (listing ?s2 E p) t = Some node" using ls s'(5) by simp
  then obtain s3 E' where rm: "ramfs_remove (rootvn s') vn (t @ [0]) ?s2 = Inr (0, s3)" "name_removed ?s2 E p t node s3 E' dots"
    using ramfs_remove_spec [OF wf(1,2) dv s'(4), of w' node n t "[]"] w nn t plainD [OF t(1)] by auto
  have s3: "ramfs_inv s3" "vnodes s3 = vnodes ?s2" "mounts s3 = mounts s'" "\<exists>n. ramnodes s3 node = Some n \<and> linkcount n = 0"
    using rm(2) wf(3) nn t(2) by (auto simp: name_removed_def intro: ramfs_invI)
  have "ramfs_wf s3 E' dots" using rm(2) by (simp add: name_removed_def)
  from dir_names_listing [OF this] have "dir_names s3 q = dir_names s q" for q
    using rm(2) ls s'(5) s'(6) [of q] by (cases "q = p") (auto simp: name_removed_def)
  with rm(1) s3 show ?thesis by (auto simp: fun_eq_iff)
qed

lemma vfs_unlink_run:
  assumes c: "root_created s p v t type s' node vn" and t: "plain t" "type \<noteq> VDIR"
  shows "\<exists>s''. vfs_unlink (cstr (47 # t)) s' = Inr (0, s'') \<and> ramfs_inv s'' \<and> dir_names s'' = dir_names s \<and> vnodes s'' = vnodes s' \<and>
    mounts s'' = mounts s' \<and> (\<exists>n. ramnodes s'' node = Some n \<and> linkcount n = 0)"
proof -
  obtain w where w: "vnodes s' vn = Some w" "v_lock w = 0" "v_refcount w = 1" "v_type w = type" "v_data w = node" "v_flags w = 0" "vn \<noteq> 0" "vn \<noteq> rootvn s'"
    and n: "namei (cstr (47 # t)) (stack_nd s') s' = Inr (0, nd_at (rootvn s') vn t, put_vnode vn (w\<lparr>v_refcount := 2\<rparr>) (root_refs 1 v s'))"
    by (rule namei_created [OF c t(1)])
  have s': "rootvn s' \<noteq> 0" "vnodes s' (rootvn s') = Some v" "v_lock v = 0" "0 < v_refcount v"
    using c by (auto simp: root_created_def root_ready_def)
  let ?v = "v\<lparr>v_refcount := v_refcount v + 1, v_lock := 1\<rparr>" and ?w = "w\<lparr>v_refcount := 2, v_lock := 1\<rparr>"
  obtain s3 where rm: "ramfs_remove (rootvn s') vn (t @ [0]) (put_vnode (rootvn s') ?v (put_vnode vn ?w s')) = Inr (0, s3)"
    and s3: "ramfs_inv s3" "dir_names s3 = dir_names s" "vnodes s3 = (vnodes s')(vn := Some ?w, rootvn s' := Some ?v)" "mounts s3 = mounts s'"
      "\<exists>n. ramnodes s3 node = Some n \<and> linkcount n = 0"
    using remove_at_root [OF c t refl w(1,4,5,8) refl] by blast
  let ?s4 = "put_vnode (rootvn s') v s3" and ?s5 = "put_vnode vn w (put_vnode (rootvn s') v s3)"
  have i4: "ramfs_inv ?s4" "dir_names ?s4 = dir_names s3" using put_vnode_inv [OF s3(1), of "rootvn s'" ?v v] s3(3) by simp_all
  have i5: "ramfs_inv ?s5" "dir_names ?s5 = dir_names s3"
    using put_vnode_inv [OF i4(1), of vn ?w w] i4(2) s3(3) w(8) by simp_all
  have vr: "vrele (rootvn s') s3 = Inr ?s4" "vrele vn ?s4 = Inr ?s5"
    using vput_shared(2) [OF s'(1), of s3 ?v] vput_shared(2) [OF w(7), of ?s4 ?w] s3(3) s'(3,4) w by simp_all
  have comm: "put_vnode (rootvn s') ?v (put_vnode vn ?w (root_refs 1 v s')) = put_vnode (rootvn s') ?v (put_vnode vn ?w s')"
    using w(8) by (simp add: root_refs_def put_vnode_def fun_upd_twist [of vn])
  have run: "vfs_unlink (cstr (47 # t)) s' = Inr (0, ?s5)"
    using n w s'(1-3) rm vr comm by (simp add: vfs_unlink_def nd_at_def acquire_vnode_eq root_refs_def)
  have "vnodes ?s5 = vnodes s'" using s3(3) w(1,8) s'(2) by (auto simp: fun_eq_iff)
  with run i5 s3(2,4,5) show ?thesis by auto
qed



subsection \<open>Error returns\<close>

lemma namei_root:
  assumes inv: "ramfs_inv s" and r: "root_ready s p v"
  obtains nd where "nd_vn nd = rootvn s" "nd_vdir nd = rootvn s" "namei (cstr [47]) (stack_nd s) s = Inr (0, nd, root_refs 2 v s)"
proof -
  have z: "junk_ptr s = 0" "junk_flags s = 0" "\<And>k. length (junk_bytes s k) = k"
    using inv by (auto simp: ramfs_inv_def kalloc_ok_def zeroed_def)
  have v: "rootvn s \<noteq> 0" "vnodes s (rootvn s) = Some v" "v_lock v = 0" using r by (auto simp: root_ready_def)
  have dup: "strdup (junk_bytes s) (cstr [47]) = Inr [47, 0]" "strlen (cstr [47]) = Inr 1"
    using strdup_cstr [of "[47]" "junk_bytes s"] strlen_spec [of "[47]" "[]"] z by (simp_all add: cstr_def)
  let ?nd = "\<lparr>nd_vdir = rootvn s, nd_vn = rootvn s, nd_root = 0, nd_next = [0], nd_flags = 0, nd_name = [0], nd_len = 0\<rparr>"
  have "namei (cstr [47]) (stack_nd s) s = namei_loop (Suc 63) 0 0
      \<lparr>nd_vdir = 0, nd_vn = 0, nd_root = 0, nd_next = [], nd_flags = 0, nd_name = [47, 0], nd_len = 1\<rparr> s"
    using dup z by (simp add: namei_def NAMEI_FUEL_def stack_nd_def)
  also have "\<dots> = Inr (0, ?nd, root_refs 2 v s)"
    unfolding namei_loop.simps using ramfs_root_ready [OF inv r] v
    by (simp add: lookup_def root_refs_def vref_eq add.commute [of 2 "v_refcount v"])
  finally show thesis by (intro that [of ?nd]) simp_all
qed

text \<open>
  C33 (unmount refuses the root).  \<open>vfs_unmount\<close> of \<open>/\<close> returns \<open>-EINVAL\<close> and keeps every mount, but only one of the two references
  that \<open>namei\<close> took is dropped: each refused call leaves the root directory with one more reference.
\<close>

theorem vfs_unmount_root:
  assumes "ramfs_inv s" and "root_ready s p v" and "mounts s (rootfs s) = Some m" "m_flags m AND MNT_ROOTFS \<noteq> 0"
  shows "vfs_unmount (cstr [47]) s = Inr (- EINVAL, root_refs 1 v s)"
proof -
  obtain nd where nd: "nd_vn nd = rootvn s" "nd_vdir nd = rootvn s" "namei (cstr [47]) (stack_nd s) s = Inr (0, nd, root_refs 2 v s)"
    by (rule namei_root [OF assms(1,2)])
  have v: "rootvn s \<noteq> 0" "vnodes s (rootvn s) = Some v" "v_lock v = 0" "v_vfs v = rootfs s" "rootfs s \<noteq> 0" "0 < v_refcount v"
    using assms(2) by (auto simp: root_ready_def)
  let ?s = "put_vnode (rootvn s) (v\<lparr>v_refcount := v_refcount v + 2, v_lock := 1\<rparr>) s"
  have "vrele (rootvn s) ?s = Inr (root_refs 1 v s)"
    using vput_shared(2) [OF v(1), of ?s "v\<lparr>v_refcount := v_refcount v + 2, v_lock := 1\<rparr>"] v(3,6)
    by (simp add: root_refs_def add.commute)
  then show ?thesis using nd v assms(3,4) by (simp add: vfs_unmount_def root_refs_def acquire_vnode_eq Let_def)
qed

theorem vfs_unmount_root_witness: "\<exists>s' v. vfs_unmount (cstr [47]) root_fs = Inr (- EINVAL, s') \<and> vnodes s' 1 = Some v \<and> v_refcount v = 2"
proof -
  have m: "mounts root_fs (rootfs root_fs) = Some \<lparr>m_next = 0, mountpoint = 0, m_flags = 1, m_data = 4\<rparr>" by (simp add: root_fs_def)
  moreover have "rootvn root_fs = 1" by (simp add: root_fs_def)
  ultimately show ?thesis
    using vfs_unmount_root [OF root_fs_wf(5) root_fs_ready(1) m] by (simp add: MNT_ROOTFS_def root_refs_def)
qed

text \<open>
  Symlink reports an error: \<open>vfs_symlink\<close> of a name that is not there creates the link, with the target as its contents,
  and still returns \<open>-ENOENT\<close>, the code its path resolution had to return.
\<close>

lemma vfs_symlink_returns_enoent:
  assumes "ramfs_inv s" and "root_ready s p v" and "plain t" "first_match s p t = None" and "target = cstr u" "u \<noteq> []" "0 \<notin> set u"
  shows "\<exists>s' node vn. vfs_symlink (cstr (47 # t)) target s = Inr (- ENOENT, s') \<and> root_created s p v t VLNK s' node vn"
proof -
  obtain s1 node vn where c: "ramfs_alloc_file (rootvn s) (t @ [0]) (length t) VLNK (Some target)
      (put_vnode (rootvn s) (v\<lparr>v_refcount := v_refcount v + 1, v_lock := 1\<rparr>) s) = Inr (0, Some vn, s1)"
    "vrele (rootvn s) s1 = Inr (put_vnode (rootvn s) v s1)" "root_created s p v t VLNK (put_vnode (rootvn s) v s1) node vn"
    using create_at_root [OF assms(1-3), of VLNK "Some target"] assms(5-7) by (auto simp: link_arg_ok_def)
  have v: "rootvn s \<noteq> 0" "vnodes s (rootvn s) = Some v" "v_lock v = 0" using assms(2) by (auto simp: root_ready_def)
  have "vfs_symlink (cstr (47 # t)) target s = Inr (- ENOENT, put_vnode (rootvn s) v s1)"
    using namei_absent [OF assms(1-4)] c(1,2) v
    by (simp add: vfs_symlink_def nd_at_def root_refs_def acquire_vnode_eq ramfs_symlink_def)
  with c(3) show ?thesis by blast
qed

subsection \<open>Start-up\<close>

text \<open>The store after the root file system has been mounted and its root vnode fetched, the first object being \<open>k\<close>.\<close>

definition boot_fs :: "fs \<Rightarrow> fs" where
  "boot_fs s = (let k = next_ptr s in s\<lparr>
     mounts := [k \<mapsto> \<lparr>m_next = mountedlist s, mountpoint = 0, m_flags = MNT_ROOTFS, m_data = Suc k\<rparr>],
     ramvfss := [Suc k \<mapsto> \<lparr>rv_root = Suc (Suc k), rv_nodes = Suc (Suc k)\<rparr>],
     ramnodes := [Suc (Suc k) \<mapsto> \<lparr>n_prev = 0, n_next = 0, n_vnode = Suc (Suc (Suc k)), n_type = VDIR, ramlock = 0, linkcount = 2,
       n_union = Dir 0 (Suc (Suc k)) SEQ_START\<rparr>],
     vnodes := [Suc (Suc (Suc k)) \<mapsto> \<lparr>v_vfs = k, v_mountedhere = 0, v_type = VDIR, v_refcount = 1, v_flags = VROOT, v_lock = 0,
       v_data = Suc (Suc k)\<rparr>],
     dentries := Map.empty, next_ptr := Suc (Suc (Suc (Suc k))), rootfs := k, rootvn := Suc (Suc (Suc k)), mountedlist := k,
     vfs_types := [cstr (bytes ''ramfs'')], vfslist_lock := 0\<rparr>)"

definition empty_store :: "fs \<Rightarrow> bool" where
  "empty_store s \<longleftrightarrow> vnodes s = Map.empty \<and> mounts s = Map.empty \<and> ramvfss s = Map.empty \<and> dentries s = Map.empty \<and> ramnodes s = Map.empty \<and>
     next_ptr s \<noteq> 0"

lemma boot_run:
  assumes e: "empty_store s" and k: "kalloc_ok s"
  shows "ebind (vfs_mount None (cstr (bytes ''ramfs'')) (init_rootfs s)) (\<lambda>(e, s). ebind (init_rootvn s) (\<lambda>s. Inr (e, s))) = Inr (0, boot_fs s)"
proof -
  have z: "junk_ptr s = 0" "junk_flags s = 0" using k by (auto simp: kalloc_ok_def zeroed_def)
  have c: "strcmp (cstr (bytes ''ramfs'')) (cstr (bytes ''ramfs'')) = Inr 0"
    by (subst strcmp_cstr) (simp_all add: bytes_def)
  show ?thesis using e z c
    by (simp add: vfs_mount_def init_rootfs_def init_rootvn_def empty_store_def fs_eval Let_def ramfs_mount_def ramfs_alloc_node_def
      ramfs_root_def ramfs_vget_def as_dir_def boot_fs_def init_lock_def release_def acquire_def atomic_exchange_def cong: ebind_arg_cong)
qed

lemma boot_fs_wf:
  assumes e: "empty_store s" and k: "kalloc_ok s"
  shows "ramfs_inv (boot_fs s)" "dir_names (boot_fs s) q = []"
    "root_ready (boot_fs s) (Suc (Suc (next_ptr s))) (the (vnodes (boot_fs s) (rootvn (boot_fs s))))"
proof -
  let ?s = "boot_fs s" and ?dots = "(\<lambda>_. 0 :: nat)(Suc (Suc (next_ptr s)) := 2)"
  have wf: "ramfs_wf ?s (\<lambda>_. []) ?dots"
    using e by (auto simp: ramfs_wf_def bounded_def node_ok_def entries_ok_def links_ok_def pointing_def ptr_ok_def boot_fs_def Let_def
      empty_store_def split: if_splits)
  have "unlocked ?s" "kalloc_ok ?s" using k by (auto simp: unlocked_def kalloc_ok_def zeroed_def boot_fs_def Let_def)
  then show "ramfs_inv ?s" using wf by (intro ramfs_invI)
  show "dir_names ?s q = []" using dir_names_listing [OF wf, of q] by (simp add: listing_def)
  show "root_ready ?s (Suc (Suc (next_ptr s))) (the (vnodes ?s (rootvn ?s)))"
    using e by (simp add: root_ready_def dir_vnode_def mount_ok_def ptr_ok_def boot_fs_def Let_def empty_store_def)
qed

text \<open>
  Start-up: From an empty store, \<open>init_rootfs\<close>, \<open>vfs_mount(NULL, "ramfs")\<close> and \<open>init_rootvn\<close> run to the end and leave a
  well-formed file system: the root directory is empty, its vnode is marked \<open>VROOT\<close>, has one reference and is unlocked, the mount is
  marked \<open>MNT_ROOTFS\<close> and the lock of the list of file systems is free.
\<close>

lemma vfs_boot:
  assumes "empty_store s" and "kalloc_ok s"
  shows "\<exists>s1 s2 p v m. vfs_mount None (cstr (bytes ''ramfs'')) (init_rootfs s) = Inr (0, s1) \<and> init_rootvn s1 = Inr s2 \<and>
    ramfs_inv s2 \<and> root_ready s2 p v \<and> dir_names s2 = (\<lambda>_. []) \<and> v_refcount v = 1 \<and> v_flags v = VROOT \<and>
    mounts s2 (rootfs s2) = Some m \<and> m_flags m AND MNT_ROOTFS \<noteq> 0 \<and> vfslist_lock s2 = 0"
proof -
  obtain s1 where r: "vfs_mount None (cstr (bytes ''ramfs'')) (init_rootfs s) = Inr (0, s1)" "init_rootvn s1 = Inr (boot_fs s)"
    using boot_run [OF assms] by (auto simp: ebind_eq_Inr)
  note wf = boot_fs_wf [OF assms]
  have "v_refcount (the (vnodes (boot_fs s) (rootvn (boot_fs s)))) = 1" "v_flags (the (vnodes (boot_fs s) (rootvn (boot_fs s)))) = VROOT"
    "vfslist_lock (boot_fs s) = 0" by (simp_all add: boot_fs_def Let_def)
  moreover obtain m where "mounts (boot_fs s) (rootfs (boot_fs s)) = Some m" "m_flags m AND MNT_ROOTFS \<noteq> 0"
    by (simp add: boot_fs_def Let_def MNT_ROOTFS_def)
  moreover have "dir_names (boot_fs s) = (\<lambda>_. [])" using wf(2) by (simp add: fun_eq_iff)
  ultimately show ?thesis using r wf(1,3) by blast
qed

end
