(* ===== verification/Initramfs.thy ===== *)
theory Initramfs
  imports Vfs_Ops
begin

section \<open>The initial ramdisk (fs/ramfs/initramfs.c)\<close>

text \<open>
  The boot loader hands over a tar image; \<open>initramfs\<close> walks over it and copies every regular file into the root directory.  The
  image is the list of its bytes, a \<open>struct tar*\<close> the offset from its start (64 bits, as pointer arithmetic wraps), and reading
  outside the image is \<open>BadAccess\<close>.
\<close>

subsection \<open>The walk\<close>

definition TAR_HEADER_SIZE :: u64 where "TAR_HEADER_SIZE = 512"
definition TAR_FILETYPE_REG :: u8 where "TAR_FILETYPE_REG = 48"

text \<open>Offsets of the members of \<open>struct tar\<close> that are read.\<close>

definition tar_size :: nat where "tar_size = 124"
definition tar_type :: nat where "tar_type = 156"
definition tar_magic :: nat where "tar_magic = 257"

text \<open>\<open>while (*oct && len--)\<close>: the byte is looked at before the length; \<open>char\<close> is signed.\<close>

fun oct_loop :: "u8 list \<Rightarrow> nat \<Rightarrow> u64 \<Rightarrow> u64 result" where
  "oct_loop [] len val = Inl BadAccess"
| "oct_loop (c # oct) len val =
     (if c = 0 \<or> len = 0 then Inr val else oct_loop oct (len - 1) (val * 8 + (scast c - 48)))"

definition oct2int :: "u8 list \<Rightarrow> nat \<Rightarrow> u64 result" where
  "oct2int oct len = oct_loop oct len 0"

text \<open>
  One round of the loop.  \<open>vn\<close> is an uninitialised local variable that keeps its value from round to round (\<open>None\<close> before it is
  first written, then reading it is an error); \<open>vfs_create\<close> writes it only when it succeeds.
\<close>

definition tar_round :: "u8 list \<Rightarrow> u64 \<Rightarrow> u8 list \<Rightarrow> ptr option \<Rightarrow> fs \<Rightarrow> (u64 \<times> u8 list \<times> ptr option \<times> fs) result" where
  "tar_round img file name vn s =
     (let at = drop (unat file) img in
      ebind (wr name 0 47) (\<lambda>name.
      ebind (strcpy (drop 1 name) at) (\<lambda>rest.
      let name = take 1 name @ rest in
      ebind (oct2int (drop tar_size at) 12) (\<lambda>size.
      ebind (rd at tar_type) (\<lambda>type.
      ebind (if type = TAR_FILETYPE_REG
             then ebind (vfs_create name VREG s) (\<lambda>(_, vpp, s).
                  let vn = (case vpp of None \<Rightarrow> vn | Some v \<Rightarrow> Some v) in
                  case vn of None \<Rightarrow> Inl BadAccess
                  | Some v \<Rightarrow>
                      if v = 0 then Inl (Panic ''initramfs: file create'')
                      else ebind (vfs_write v (drop (unat TAR_HEADER_SIZE) at) 0 size s) (\<lambda>(_, s). Inr (vn, s)))
             else Inr (vn, s)) (\<lambda>(vn, s).
      case vn of None \<Rightarrow> Inl BadAccess
      | Some v \<Rightarrow> ebind (vfs_close v s) (\<lambda>(_, s).
          Inr (file + TAR_HEADER_SIZE + ALIGN_UP size TAR_HEADER_SIZE, name, vn, s))))))))"

text \<open>The fuel counts the rounds: an image may send the pointer back to where it was.\<close>

fun tar_loop :: "nat \<Rightarrow> u8 list \<Rightarrow> u64 \<Rightarrow> u8 list \<Rightarrow> ptr option \<Rightarrow> fs \<Rightarrow> fs result" where
  "tar_loop 0 img file name vn s = Inl NoFuel"
| "tar_loop (Suc k) img file name vn s =
     ebind (strncmp (drop (unat file + tar_magic) img) (cstr (bytes ''ustar'')) 5) (\<lambda>c.
     if c = 0 then ebind (tar_round img file name vn s) (\<lambda>(file, name, vn, s). tar_loop k img file name vn s) else Inr s)"

text \<open>\<open>modules\<close> is the boot loader's answer: none, or the images of the modules.\<close>

definition initramfs :: "nat \<Rightarrow> u8 list list option \<Rightarrow> fs \<Rightarrow> fs result" where
  "initramfs fuel modules s = (case modules of
       Some (img # _) \<Rightarrow> tar_loop fuel img 0 (junk_bytes s 100) None s
     | _ \<Rightarrow> Inl (Panic ''initramfs: module''))"

subsection \<open>The archive format\<close>

text \<open>
  What a well-formed archive of regular files is: for each a header with the name, the size as eleven octal digits and the type and
  magic bytes, then the contents, padded to a multiple of 512 bytes; at the end something that is not a header.
\<close>

fun octal :: "nat \<Rightarrow> nat \<Rightarrow> u8 list" where
  "octal 0 n = []"
| "octal (Suc k) n = octal k (n div 8) @ [48 + of_nat (n mod 8)]"

definition padded :: "nat \<Rightarrow> nat" where
  "padded n = (n + 511) div 512 * 512"

definition tar_entry :: "u8 list \<Rightarrow> u8 list \<Rightarrow> u8 list \<Rightarrow> bool" where
  "tar_entry img t d \<longleftrightarrow>
     512 + padded (length d) \<le> length img \<and> length t \<le> 98 \<and> length d < 2 ^ 31 \<and>
     take (Suc (length t)) img = t @ [0] \<and> take 12 (drop tar_size img) = octal 11 (length d) @ [0] \<and>
     img ! tar_type = 48 \<and> take 5 (drop tar_magic img) = bytes ''ustar'' \<and> take (length d) (drop 512 img) = d"

fun archive :: "u8 list \<Rightarrow> (u8 list \<times> u8 list) list \<Rightarrow> bool" where
  "archive img [] \<longleftrightarrow> 262 \<le> length img \<and> take 5 (drop tar_magic img) \<noteq> bytes ''ustar''"
| "archive img ((t, d) # es) \<longleftrightarrow> tar_entry img t d \<and> archive (drop (512 + padded (length d)) img) es"

lemma archive_small: "archive img es \<Longrightarrow> (t, d) \<in> set es \<Longrightarrow> length d < 2 ^ 31"
  by (induction img es rule: archive.induct) (auto simp: tar_entry_def)

text \<open>Such an archive exists for every list of files: \<open>tar_of\<close> writes one.\<close>

definition tar_header :: "u8 list \<Rightarrow> u8 list \<Rightarrow> u8 list" where
  "tar_header t d = t @ replicate (124 - length t) 0 @ octal 11 (length d) @ replicate 21 0 @ 48 # replicate 100 0 @ bytes ''ustar'' @ replicate 250 0"

fun tar_of :: "(u8 list \<times> u8 list) list \<Rightarrow> u8 list" where
  "tar_of [] = replicate 1024 0"
| "tar_of ((t, d) # es) = tar_header t d @ d @ replicate (padded (length d) - length d) 0 @ tar_of es"

lemma scast_digit: "r < 8 \<Longrightarrow> (scast (48 + of_nat r :: u8) :: u64) - 48 = of_nat r"
proof -
  assume "r < 8"
  then have "r \<in> {0, 1, 2, 3, 4, 5, 6, 7}" by auto
  then show ?thesis by auto
qed

lemma digit_nonzero: "r < 8 \<Longrightarrow> (48 + of_nat r :: u8) \<noteq> 0"
proof -
  assume "r < 8"
  then have "r \<in> {0, 1, 2, 3, 4, 5, 6, 7}" by auto
  then show ?thesis by auto
qed

lemma length_octal [simp]: "length (octal k n) = k"
  by (induction k arbitrary: n) simp_all

lemma tar_entry_header:
  assumes "length t \<le> 98" "length d < 2 ^ 31"
  shows "tar_entry (tar_header t d @ d @ replicate (padded (length d) - length d) 0 @ r) t d"
proof -
  have l: "length (tar_header t d) = 512" using assms(1) by (simp add: tar_header_def bytes_def)
  have "length d \<le> padded (length d)" unfolding padded_def by linarith
  moreover have "take (Suc (length t)) (tar_header t d) = t @ [0]" using assms(1) by (simp add: tar_header_def Suc_diff_le)
  moreover have "take 12 (drop tar_size (tar_header t d)) = octal 11 (length d) @ [0]" "tar_header t d ! tar_type = 48"
    "take 5 (drop tar_magic (tar_header t d)) = bytes ''ustar''"
    using assms(1) by (auto simp: tar_header_def tar_size_def tar_type_def tar_magic_def nth_append bytes_def)
  ultimately show ?thesis
    unfolding tar_entry_def using assms l by (simp add: nth_append tar_type_def tar_size_def tar_magic_def)
qed

lemma archive_tar_of:
  "\<forall>(t, d) \<in> set es. length t \<le> 98 \<and> length d < 2 ^ 31 \<Longrightarrow> archive (tar_of es) es"
proof (induction es)
  case Nil
  have "117 \<in> set (bytes ''ustar'')" "117 \<notin> set (replicate 5 (0 :: u8))" by (simp_all add: bytes_def)
  then have "replicate 5 0 \<noteq> bytes ''ustar''" by metis
  then show ?case by (simp add: tar_magic_def)
next
  case (Cons e es)
  obtain t d where e: "e = (t, d)" by (cases e)
  let ?a = "tar_header t d @ d @ replicate (padded (length d) - length d) 0"
  have "length d \<le> padded (length d)" unfolding padded_def by linarith
  then have "length ?a = 512 + padded (length d)" using Cons.prems by (simp add: tar_header_def bytes_def e)
  then have "drop (512 + padded (length d)) (?a @ tar_of es) = tar_of es" by simp
  then show ?case using Cons tar_entry_header [of t d "tar_of es"] by (simp add: e)
qed

lemma oct_loop_octal:
  "oct_loop (octal k n @ r) (k + m) v = oct_loop r m (v * 8 ^ k + of_nat (n mod 8 ^ k))"
proof (induction k arbitrary: n r m)
  case (Suc k)
  have "oct_loop (octal (Suc k) n @ r) (Suc k + m) v =
      oct_loop ((48 + of_nat (n mod 8)) # r) (Suc m) (v * 8 ^ k + of_nat (n div 8 mod 8 ^ k))"
    using Suc.IH [of "n div 8" "(48 + of_nat (n mod 8)) # r" "Suc m"] by simp
  also have "\<dots> = oct_loop r m ((v * 8 ^ k + of_nat (n div 8 mod 8 ^ k)) * 8 + of_nat (n mod 8))"
    using digit_nonzero [of "n mod 8"] scast_digit [of "n mod 8"] by simp
  also have "(v * 8 ^ k + of_nat (n div 8 mod 8 ^ k)) * 8 + of_nat (n mod 8) = v * 8 ^ Suc k + (of_nat (n mod 8 ^ Suc k) :: u64)"
    by (simp add: mod_mult2_eq algebra_simps)
  finally show ?case .
qed simp

lemma oct2int_octal:
  assumes "n < 8 ^ 11"
  shows "oct2int (octal 11 n @ 0 # r) 12 = Inr (of_nat n)"
  using oct_loop_octal [of 11 n "0 # r" 1 0] assms by (simp add: oct2int_def)

lemma ALIGN_UP_padded:
  assumes "n < 2 ^ 31"
  shows "ALIGN_UP (of_nat n) 512 = of_nat (padded n)"
proof -
  have u: "unat (of_nat n + 512 - 1 :: u64) = n + 511"
  proof -
    have "of_nat n + 512 - 1 = (of_nat (n + 511) :: u64)" by simp
    then show ?thesis using assms by (simp only: unat_of_nat) simp
  qed
  have "(of_nat n + 512 - 1 :: u64) div 512 = of_nat ((n + 511) div 512)"
    by (rule word_unat_eq_iff [THEN iffD2]) (use u assms in \<open>simp add: unat_div unat_of_nat\<close>)
  then show ?thesis by (simp add: ALIGN_UP_def DIV_ROUNDUP_def padded_def)
qed

lemma namei_buffer:
  assumes "0 \<notin> set t" and "\<And>k. length (junk_bytes s k) = k"
  shows "namei (47 # t @ 0 # r) nd s = namei (cstr (47 # t)) nd s"
  using strdup_spec [of "47 # t" "junk_bytes s"] strlen_spec [of "47 # t"] assms by (simp add: namei_def cstr_def)

lemma vfs_create_buffer:
  assumes "0 \<notin> set t" and "\<And>k. length (junk_bytes s k) = k"
  shows "vfs_create (47 # t @ 0 # r) type s = vfs_create (cstr (47 # t)) type s"
  using namei_buffer [OF assms] by (simp add: vfs_create_def vfs_open_def O_CREATE_def)

subsection \<open>Copying one file\<close>

text \<open>\<open>holds s node d\<close>: the node is a regular file that starts with \<open>d\<close>, and nobody has it open.\<close>

definition holds :: "fs \<Rightarrow> ptr \<Rightarrow> u8 list \<Rightarrow> bool" where
  "holds s node d \<longleftrightarrow> (\<exists>n b sz. ramnodes s node = Some n \<and> n_type n = VREG \<and> n_vnode n = 0 \<and> n_union n = Reg (Some b) sz \<and>
     reg_ok (Some b) sz \<and> length d \<le> length b \<and> take (length d) b = d)"

lemma holds_kept: "holds s node d \<Longrightarrow> kept s s' \<Longrightarrow> holds s' node d"
  unfolding holds_def kept_def by (metis vtype.distinct(13))

definition loaded :: "fs \<Rightarrow> ptr \<Rightarrow> vnode \<Rightarrow> u8 list \<Rightarrow> u8 list \<Rightarrow> fs \<Rightarrow> ptr \<Rightarrow> bool" where
  "loaded s p v t d s' node \<longleftrightarrow> ramfs_inv s' \<and> root_ready s' p v \<and> dir_names s' p = (t, node) # dir_names s p \<and>
     (\<forall>q. q \<noteq> p \<longrightarrow> dir_names s' q = dir_names s q) \<and> node \<noteq> p \<and> kept s s' \<and> holds s' node d"

lemma written_inv:
  assumes inv: "ramfs_inv s" and n: "ramnodes s node = Some n" "n_type n \<noteq> VDIR"
  shows "ramfs_inv (s\<lparr>ramnodes := (ramnodes s)(node := Some (n\<lparr>n_union := u\<rparr>))\<rparr>)"
    "dir_names (s\<lparr>ramnodes := (ramnodes s)(node := Some (n\<lparr>n_union := u\<rparr>))\<rparr>) = dir_names s"
proof -
  let ?s = "s\<lparr>ramnodes := (ramnodes s)(node := Some (n\<lparr>n_union := u\<rparr>))\<rparr>"
  obtain E dots where wf: "ramfs_wf s E dots" "unlocked s" "kalloc_ok s" "\<And>p. dir_names s p = listing s E p"
    using ramfs_invE [OF inv] by metis
  have w: "ramfs_wf ?s E dots" by (rule node_changed_wf [OF wf(1) n(1)]) (use n(2) in auto)
  moreover have "unlocked ?s" "kalloc_ok ?s" using wf(2,3) n(1) by (auto simp: unlocked_def kalloc_ok_def zeroed_def)
  ultimately show "ramfs_inv ?s" by (rule ramfs_invI)
  have "listing ?s E q = listing s E q" for q by (rule listing_cong) simp
  then show "dir_names ?s = dir_names s" using dir_names_listing [OF w] wf(4) by (simp add: fun_eq_iff)
qed

lemma load_file:
  assumes inv: "ramfs_inv s" and r: "root_ready s p v" and t: "plain t" "first_match s p t = None"
    and d: "length d \<le> length buf" "take (length d) buf = d" "length d < 2 ^ 31"
  shows "\<exists>vn s1 s2 s' node. vfs_create (cstr (47 # t)) VREG s = Inr (0, Some vn, s1) \<and> vn \<noteq> 0 \<and>
    vfs_write vn buf 0 (of_nat (length d)) s1 = Inr (0, s2) \<and> vfs_close vn s2 = Inr (0, s') \<and> loaded s p v t d s' node"
proof -
  obtain s1 node vn where c: "vfs_create (cstr (47 # t)) VREG s = Inr (0, Some vn, s1)" and rc: "root_created s p v t VREG s1 node vn"
    using vfs_create_run [OF inv r t, of VREG] by auto
  let ?w = "\<lparr>v_vfs = rootfs s, v_mountedhere = 0, v_type = VREG, v_refcount = 1, v_flags = 0, v_lock = 0, v_data = node\<rparr>"
  have s1: "ramfs_inv s1" "root_ready s1 p v" "rootvn s1 = rootvn s" "dir_names s1 p = (t, node) # dir_names s p"
    "\<And>q. q \<noteq> p \<Longrightarrow> dir_names s1 q = dir_names s q" "node \<noteq> p" "vn \<noteq> 0" "vnodes s vn = None"
    "vnodes s1 = (vnodes s)(vn := Some ?w)" "ramnodes s node = None" "mounts s1 = mounts s" "kept s s1"
    using rc by (simp_all add: root_created_def)
  obtain n where n: "ramnodes s1 node = Some n" "n_type n = VREG" "n_vnode n = vn" "linkcount n = 1" "n_union n = Reg None 0"
    using rc by (auto simp: root_created_def)
  obtain E dots where wf: "ramfs_wf s1 E dots" "unlocked s1" "kalloc_ok s1" using ramfs_invE [OF s1(1)] by metis
  have n0: "node \<noteq> 0" "ramlock n = 0" using bounded_nonzero(1) [OF ramfs_wfD(1) [OF wf(1)] n(1)] wf(2) n(1) by (auto simp: unlocked_def)
  have f: "file_at s1 vn n None 0" using n n0 s1(7,9) by (simp add: file_at_def reg_ok_def)
  have u: "unat (of_nat (length d) :: u64) = length d" using d(3) by (simp add: unat_of_nat)
  have "vnodes s1 vn = Some ?w" using s1(9) by simp
  then obtain b sz s2 where w: "vfs_write vn buf 0 (of_nat (length d)) s1 = Inr (0, s2)"
    and s2: "s2 = s1\<lparr>ramnodes := (ramnodes s1)(node := Some (n\<lparr>n_union := Reg (Some b) sz\<rparr>))\<rparr>"
    and wp: "write_post s1 vn n None 0 (unat (0 :: u64)) (take (length d) buf) b sz s2"
    using vfs_write_run [OF s1(7) _ _ _ f, of ?w 0 "of_nat (length d)" buf] wf(3) d(1,3) u by (auto simp: kalloc_ok_def)
  have b: "take (length d) b = d" "length d \<le> length b" "reg_ok (Some b) sz"
    using wp d(1,2) by (auto simp: write_post_def file_at_def min.absorb2)
  have i2: "ramfs_inv s2" "dir_names s2 = dir_names s1" using written_inv [OF s1(1) n(1)] n(2) unfolding s2 by simp_all
  have m: "rootfs s \<noteq> 0" "mounts s2 (rootfs s) \<noteq> None" using r s1(11) s2 by (auto simp: root_ready_def)
  obtain s' w' where cl: "vfs_close vn s2 = Inr (0, s')" "ramfs_inv s'" "dir_names s' = dir_names s2"
    "\<exists>n'. ramnodes s' node = Some n' \<and> n_vnode n' = 0" "vnodes s' = (vnodes s2)(vn := Some w')" "mounts s' = mounts s2"
    "ramvfss s' = ramvfss s2" "kept (forget_vnode node s2) s'"
    using vfs_close_last [OF i2(1) s1(7), of ?w "n\<lparr>n_union := Reg (Some b) sz\<rparr>"] m s1(9) s2 by auto
  have "holds (forget_vnode node s2) node d" using b n by (simp add: holds_def forget_vnode_def s2)
  then have h: "holds s' node d" by (rule holds_kept [OF _ cl(8)])
  have "kept s (forget_vnode node s2)"
    using s1(10,12) n by (auto simp: kept_def forget_vnode_def s2)
  then have k: "kept s s'" using cl(8) by (rule kept_trans)
  have vr: "vnodes s' (rootvn s) = Some v" using cl(5) s2 s1(8,9) r by (auto simp: root_ready_def)
  have dv1: "dir_vnode s1 (rootvn s) p" using s1(2,3) by (simp add: root_ready_def)
  have mo: "mount_ok s' (v_vfs v)"
  proof (rule mount_ok_mono [of s1])
    show "mount_ok s1 (v_vfs v)" using dv1 vr s1(9) cl(5) s2 s1(2,3) by (auto simp: dir_vnode_def root_ready_def)
    show "ramnodes s' q \<noteq> None" if "ramnodes s1 q \<noteq> None" for q
    proof -
      have "ramnodes (forget_vnode node s2) q \<noteq> None" using that by (auto simp: forget_vnode_def s2)
      then show ?thesis using cl(8) unfolding kept_def by fastforce
    qed
  qed (use cl(6,7) s2 in simp_all)
  have "dir_vnode s' (rootvn s) p"
    using r k vr mo unfolding dir_vnode_def root_ready_def kept_def by (metis option.inject)
  then have "root_ready s' p v" using root_readyI [OF r k _ vr] cl(6) s2 s1(11) by simp
  then have "loaded s p v t d s' node" unfolding loaded_def using cl(2,3) i2(2) s1(4-6) k h by simp
  with c s1(7) w cl(1) show ?thesis by blast
qed

subsection \<open>Walking the archive\<close>

lemma strncmp_ustar:
  assumes "5 \<le> length a"
  shows "strncmp a (cstr (bytes ''ustar'')) 5 = Inr (if take 5 a = bytes ''ustar'' then 0 else - 1)"
proof -
  have b: "take 5 (cstr (bytes ''ustar'')) = bytes ''ustar''" "5 \<le> length (cstr (bytes ''ustar''))" by (simp_all add: cstr_def bytes_def)
  have "(\<forall>j \<in> {0..<0 + 5}. a ! j = cstr (bytes ''ustar'') ! j) \<longleftrightarrow> take 5 a = take 5 (cstr (bytes ''ustar''))"
    using assms b(2) by (auto simp: list_eq_iff_nth_eq)
  then show ?thesis using cmp_loop_eq [of 0 5 a "cstr (bytes ''ustar'')"] assms b by (simp add: strncmp_def)
qed

lemma take_split: "take (length xs) ys = xs \<Longrightarrow> ys = xs @ drop (length xs) ys"
  by (metis append_take_drop_id)

lemma tar_round_file:
  assumes inv: "ramfs_inv s" and r: "root_ready s p v" and t: "plain t" "first_match s p t = None"
    and e: "tar_entry (drop (unat file) img) t d" and nm: "length name = 100"
  shows "\<exists>name' vn s' node. tar_round img file name vn0 s = Inr (file + 512 + of_nat (padded (length d)), name', Some vn, s') \<and>
    length name' = 100 \<and> loaded s p v t d s' node"
proof -
  define at where "at = drop (unat file) img"
  let ?at = at and ?n = "length d"
  note e = e [folded at_def]
  have at: "?at = t @ 0 # drop (Suc (length t)) ?at" using take_split [of "t @ [0]" ?at] e by (simp add: tar_entry_def)
  have sz: "drop tar_size ?at = octal 11 ?n @ 0 # drop 12 (drop tar_size ?at)"
    using take_split [of "octal 11 ?n @ [0]" "drop tar_size ?at"] e by (simp add: tar_entry_def)
  have len: "512 + padded ?n \<le> length ?at" "length t \<le> 98" "?n < 2 ^ 31" "?at ! tar_type = 48" "take ?n (drop 512 ?at) = d"
    using e by (auto simp: tar_entry_def)
  have "?n \<le> padded ?n" unfolding padded_def by linarith
  then have pd: "?n \<le> length (drop 512 ?at)" using len(1) by simp
  let ?rest = "t @ 0 # drop (Suc (length t)) (drop 1 name)"
  have "wr name 0 47 = Inr (name[0 := 47])" "drop 1 (name[0 := 47]) = drop 1 name" "take 1 (name[0 := 47]) = [47]"
    using nm by (auto simp: wr_def) (cases name; simp)+
  moreover have "strcpy (drop 1 name) ?at = Inr ?rest"
    by (subst at, rule strcpy_spec) (use plainD [OF t(1)] len(2) nm in auto)
  moreover have "oct2int (drop tar_size ?at) 12 = Inr (of_nat ?n)"
    by (subst sz, rule oct2int_octal) (use len(3) in simp)
  moreover have "rd ?at tar_type = Inr TAR_FILETYPE_REG"
    using len(1,4) by (simp add: rd_def tar_type_def TAR_FILETYPE_REG_def)
  moreover obtain vn s1 s2 s' node where f: "vfs_create (cstr (47 # t)) VREG s = Inr (0, Some vn, s1)" "vn \<noteq> 0"
    "vfs_write vn (drop 512 ?at) 0 (of_nat ?n) s1 = Inr (0, s2)" "vfs_close vn s2 = Inr (0, s')" "loaded s p v t d s' node"
    using load_file [OF inv r t pd len(5,3)] by blast
  moreover have "vfs_create ([47] @ ?rest) VREG s = vfs_create (cstr (47 # t)) VREG s"
    using vfs_create_buffer [of t s] plainD(2) [OF t(1)] inv by (auto simp: ramfs_inv_def kalloc_ok_def)
  moreover have "ALIGN_UP (of_nat ?n) 512 = of_nat (padded ?n)" by (rule ALIGN_UP_padded [OF len(3)])
  ultimately have "tar_round img file name vn0 s = Inr (file + 512 + of_nat (padded ?n), [47] @ ?rest, Some vn, s')"
    unfolding tar_round_def Let_def at_def [symmetric] by (simp add: TAR_HEADER_SIZE_def del: drop_drop One_nat_def)
  moreover have "length ([47] @ ?rest) = 100" using len(2) nm by simp
  ultimately show ?thesis using f(5) by blast
qed

text \<open>No name starts with another one; \<open>ramfs_lookup\<close> would confuse them.\<close>

definition apart :: "(u8 list \<times> u8 list) list \<Rightarrow> bool" where
  "apart es \<longleftrightarrow> sorted_wrt (\<lambda>(t, _) (t', _). take (length t') t \<noteq> t' \<and> take (length t) t' \<noteq> t) es"

lemma first_match_loaded:
  assumes "loaded s p v t d s' node"
  shows "first_match s' p t = Some node" "take (length t') t \<noteq> t' \<Longrightarrow> first_match s' p t' = first_match s p t'"
  using assms by (auto simp: loaded_def first_match_def)

lemma first_match_more:
  assumes "dir_names s' p = xs @ dir_names s p" and "\<forall>x \<in> fst ` set xs. take (length t) x \<noteq> t"
  shows "first_match s' p t = first_match s p t"
proof -
  have "find (\<lambda>(u, _). take (length t) u = t) xs = None" using assms(2) by (auto simp: find_None_iff)
  then show ?thesis using assms(1) by (simp add: first_match_def find_append)
qed

lemma tar_loop_loads:
  assumes "archive (drop (unat pos) img) es" and "length img < 2 ^ 63" "unat pos \<le> length img"
    and "ramfs_inv s" "root_ready s p v" and "\<forall>(t, d) \<in> set es. plain t \<and> first_match s p t = None" "apart es"
    and "length name = 100" "length es < k"
  shows "\<exists>s' nodes. tar_loop k img pos name vn s = Inr s' \<and> ramfs_inv s' \<and> root_ready s' p v \<and> kept s s' \<and>
    dir_names s' p = rev (zip (map fst es) nodes) @ dir_names s p \<and>
    list_all2 (\<lambda>(t, d) node. first_match s' p t = Some node \<and> node \<noteq> p \<and> holds s' node d) es nodes"
  using assms
proof (induction es arbitrary: pos s name vn k)
  case Nil
  obtain j where k: "k = Suc j" using Nil.prems(9) by (cases k) auto
  have "take 5 (drop (unat pos + tar_magic) img) \<noteq> bytes ''ustar''" "5 \<le> length (drop (unat pos + tar_magic) img)"
    using Nil.prems(1) by (auto simp: add.commute tar_magic_def)
  then have "tar_loop k img pos name vn s = Inr s" using strncmp_ustar [of "drop (unat pos + tar_magic) img"] k by simp
  then show ?case using Nil.prems(4,5) by (intro exI [of _ s] exI [of _ "[]"]) (simp add: kept_def)
next
  case (Cons e es)
  obtain t d where e: "e = (t, d)" by (cases e)
  let ?n = "512 + padded (length d)"
  obtain j where k: "k = Suc j" "length es < j" using Cons.prems(9) by (cases k) auto
  have te: "tar_entry (drop (unat pos) img) t d" and ar: "archive (drop (unat pos + ?n) img) es"
    using Cons.prems(1) by (simp_all add: e add.commute)
  have t: "plain t" "first_match s p t = None" using Cons.prems(6) by (auto simp: e)
  have "?n \<le> length (drop (unat pos) img)" using te by (auto simp: tar_entry_def)
  then have n: "unat pos + ?n \<le> length img" using Cons.prems(3) by simp
  obtain name1 vn1 s1 node where rd: "tar_round img pos name vn s = Inr (pos + 512 + of_nat (padded (length d)), name1, Some vn1, s1)"
    "length name1 = 100" "loaded s p v t d s1 node"
    using tar_round_file [OF Cons.prems(4,5) t te Cons.prems(8)] by blast
  let ?pos = "pos + 512 + of_nat (padded (length d)) :: u64"
  have "?pos = of_nat (unat pos + ?n)" by simp
  then have uf: "unat ?pos = unat pos + ?n" using n Cons.prems(2) by (simp only: unat_of_nat) simp
  have s1: "ramfs_inv s1" "root_ready s1 p v" "kept s s1" "dir_names s1 p = (t, node) # dir_names s p" "node \<noteq> p" "holds s1 node d"
    using rd(3) by (simp_all add: loaded_def)
  have ap: "apart es" "\<And>t' d'. (t', d') \<in> set es \<Longrightarrow> take (length t') t \<noteq> t' \<and> take (length t) t' \<noteq> t"
    using Cons.prems(7) by (auto simp: apart_def e)
  have fr: "\<forall>(t', d') \<in> set es. plain t' \<and> first_match s1 p t' = None"
    using Cons.prems(6) ap(2) first_match_loaded(2) [OF rd(3)] by auto
  obtain s' nodes where IH: "tar_loop j img ?pos name1 (Some vn1) s1 = Inr s'" "ramfs_inv s'" "root_ready s' p v" "kept s1 s'"
    "dir_names s' p = rev (zip (map fst es) nodes) @ dir_names s1 p"
    "list_all2 (\<lambda>(t, d) node. first_match s' p t = Some node \<and> node \<noteq> p \<and> holds s' node d) es nodes"
    using Cons.IH [of ?pos s1 name1 j "Some vn1"] uf ar n Cons.prems(2) s1(1,2) fr ap(1) rd(2) k(2) by auto
  have "\<forall>x \<in> fst ` set (rev (zip (map fst es) nodes)). take (length t) x \<noteq> t"
    using ap(2) by (force dest: set_zip_leftD)
  then have "first_match s' p t = Some node" using first_match_more [OF IH(5)] first_match_loaded(1) [OF rd(3)] by simp
  moreover have "take 5 (drop (unat pos + tar_magic) img) = bytes ''ustar''" "5 \<le> length (drop (unat pos + tar_magic) img)"
    using te n by (simp_all add: tar_entry_def add.commute tar_magic_def)
  then have "tar_loop k img pos name vn s = Inr s'"
    using strncmp_ustar [of "drop (unat pos + tar_magic) img"] k(1) rd(1) IH(1) by simp
  moreover have "kept s s'" using s1(3) IH(4) by (rule kept_trans)
  moreover have "holds s' node d" by (rule holds_kept [OF s1(6) IH(4)])
  ultimately show ?case using IH(2,3,5,6) s1(4,5) by (intro exI [of _ s'] exI [of _ "node # nodes"]) (simp add: e)
qed

lemma vfs_open_reads:
  assumes inv: "ramfs_inv s" and r: "root_ready s p v" and t: "plain t" "first_match s p t = Some node" "node \<noteq> p"
    and h: "holds s node d" and d: "length d < 2 ^ 31"
  shows "\<exists>vn s'. vfs_open (cstr (47 # t)) VNON 0 s = Inr (0, Some vn, s') \<and> reads_as s' vn d \<and> junk_bytes s' = junk_bytes s"
proof -
  obtain n b sz where n: "ramnodes s node = Some n" "n_type n = VREG" "n_vnode n = 0" "n_union n = Reg (Some b) sz" "reg_ok (Some b) sz"
    "length d \<le> length b" "take (length d) b = d" using h by (auto simp: holds_def)
  obtain E dots where wf: "ramfs_wf s E dots" "unlocked s" using ramfs_invE [OF inv] by metis
  have n0: "node \<noteq> 0" "ramlock n = 0" "next_ptr s \<noteq> 0"
    using bounded_nonzero(1) [OF ramfs_wfD(1) [OF wf(1)] n(1)] wf(2) n(1) by (auto simp: unlocked_def)
  let ?s = "snd (got_vnode (rootfs s) node n s)"
  have o: "vfs_open (cstr (47 # t)) VNON 0 s = Inr (0, Some (next_ptr s), ?s)"
    by (rule vfs_open_closed [OF inv r t n(1,3)]) simp
  have v: "vnodes ?s (next_ptr s) = Some (fresh_vnode (rootfs s) node n)" "ramnodes ?s node = Some (n\<lparr>n_vnode := next_ptr s\<rparr>)"
    "junk_bytes ?s = junk_bytes s"
    using n(3) by (simp_all add: got_vnode_def)
  have "file_at ?s (next_ptr s) (n\<lparr>n_vnode := next_ptr s\<rparr>) (Some b) sz"
    using v n n0 by (simp add: file_at_def fresh_vnode_def)
  then have "reads_as ?s (next_ptr s) d" by (intro reads_asI [OF n0(3) v(1)]) (use n d in \<open>auto simp: fresh_vnode_def\<close>)
  with o v(3) show ?thesis by blast
qed

lemma initramfs_run:
  assumes "ramfs_inv s" "root_ready s p v" and "archive img es" "length img < 2 ^ 63"
    and "\<forall>(t, d) \<in> set es. plain t \<and> first_match s p t = None" "apart es" and "length es < fuel"
  shows "\<exists>s'. initramfs fuel (Some (img # ms)) s = Inr s' \<and> ramfs_inv s' \<and> root_ready s' p v \<and>
    map fst (dir_names s' p) = rev (map fst es) @ map fst (dir_names s p) \<and>
    (\<forall>(t, d) \<in> set es. \<exists>vn s1. vfs_open (cstr (47 # t)) VNON 0 s' = Inr (0, Some vn, s1) \<and> reads_as s1 vn d \<and> junk_bytes s1 = junk_bytes s')"
proof -
  have "length (junk_bytes s 100) = 100" using assms(1) by (simp add: ramfs_inv_def kalloc_ok_def)
  from tar_loop_loads [of 0 img es s p v "junk_bytes s 100" fuel None] this assms
  obtain s' nodes where l: "tar_loop fuel img 0 (junk_bytes s 100) None s = Inr s'" "ramfs_inv s'" "root_ready s' p v"
    "dir_names s' p = rev (zip (map fst es) nodes) @ dir_names s p"
    "list_all2 (\<lambda>(t, d) node. first_match s' p t = Some node \<and> node \<noteq> p \<and> holds s' node d) es nodes" by auto
  have "map fst (dir_names s' p) = rev (map fst es) @ map fst (dir_names s p)"
    using l(4) list_all2_lengthD [OF l(5)] by (simp add: rev_map [symmetric])
  moreover have "\<exists>vn s1. vfs_open (cstr (47 # t)) VNON 0 s' = Inr (0, Some vn, s1) \<and> reads_as s1 vn d \<and> junk_bytes s1 = junk_bytes s'"
    if td: "(t, d) \<in> set es" for t d
  proof -
    obtain i where i: "i < length es" "es ! i = (t, d)" using td unfolding in_set_conv_nth by blast
    then have "first_match s' p t = Some (nodes ! i)" "nodes ! i \<noteq> p" "holds s' (nodes ! i) d"
      using list_all2_nthD [OF l(5), of i] by auto
    moreover have "length d < 2 ^ 31" using archive_small [OF assms(3) td] .
    ultimately show ?thesis using vfs_open_reads [OF l(2,3)] assms(5) td by blast
  qed
  ultimately show ?thesis using l(1-3) by (auto simp: initramfs_def)
qed

text \<open>
  C11 (the ramdisk is loaded).  On a well-formed file system, for an archive of files whose names are single components, none of
  them the beginning of another one or of a name in the root directory, \<open>initramfs\<close> ends within one round more than there are
  files and leaves a well-formed file system in which the root directory has the new names, the last one first, in front of the old
  ones; and opening any of the files by its path succeeds and every range of it reads as in the archive.
\<close>

theorem initramfs_loads:
  assumes "ramfs_inv s" "root_ready s p v" and "archive img es" "length img < 2 ^ 63"
    and "\<forall>(t, d) \<in> set es. plain t \<and> first_match s p t = None" "apart es" and "length es < fuel"
  shows "\<exists>s'. initramfs fuel (Some (img # ms)) s = Inr s' \<and> ramfs_inv s' \<and> root_ready s' p v \<and>
    map fst (dir_names s' p) = rev (map fst es) @ map fst (dir_names s p) \<and>
    (\<forall>(t, d) \<in> set es. \<exists>vn s1. vfs_open (cstr (47 # t)) VNON 0 s' = Inr (0, Some vn, s1) \<and> reads_as s1 vn d)"
proof -
  obtain s' where s': "initramfs fuel (Some (img # ms)) s = Inr s'" "ramfs_inv s'" "root_ready s' p v"
    "map fst (dir_names s' p) = rev (map fst es) @ map fst (dir_names s p)"
    "\<forall>(t, d) \<in> set es. \<exists>vn s1. vfs_open (cstr (47 # t)) VNON 0 s' = Inr (0, Some vn, s1) \<and> reads_as s1 vn d \<and> junk_bytes s1 = junk_bytes s'"
    using initramfs_run [OF assms] by blast
  then show ?thesis by (intro exI [of _ s']) auto
qed

theorem initramfs_loads_witness:
  "\<exists>s' vn s1. initramfs 3 (Some [tar_of [(bytes ''a'', bytes ''hi''), (bytes ''exe'', bytes ''xyz'')]]) root_fs = Inr s' \<and>
     map fst (dir_names s' 2) = [bytes ''exe'', bytes ''a''] \<and>
     vfs_open (cstr (47 # bytes ''exe'')) VNON 0 s' = Inr (0, Some vn, s1) \<and> vfs_read vn [9, 9, 9] 0 3 s1 = Inr (3, bytes ''xyz'', s1)"
proof -
  let ?es = "[(bytes ''a'', bytes ''hi''), (bytes ''exe'', bytes ''xyz'')]"
  have a: "archive (tar_of ?es) ?es" by (rule archive_tar_of) (simp add: bytes_def)
  have p: "\<forall>(t, d) \<in> set ?es. plain t \<and> first_match root_fs 2 t = None" "apart ?es"
    by (simp_all add: root_fs_ready(2) plain_def apart_def bytes_def)
  have l: "length (tar_of ?es) < 2 ^ 63" by (simp add: tar_header_def padded_def bytes_def)
  obtain s' where s': "initramfs 3 (Some [tar_of ?es]) root_fs = Inr s'" "map fst (dir_names s' 2) = rev (map fst ?es) @ map fst (dir_names root_fs 2)"
    "\<forall>(t, d) \<in> set ?es. \<exists>vn s1. vfs_open (cstr (47 # t)) VNON 0 s' = Inr (0, Some vn, s1) \<and> reads_as s1 vn d"
    using initramfs_loads [OF root_fs_wf(5) root_fs_ready(1) a l p, of 3 "[]"] by auto
  then obtain vn s1 where "vfs_open (cstr (47 # bytes ''exe'')) VNON 0 s' = Inr (0, Some vn, s1)" and rd: "reads_as s1 vn (bytes ''xyz'')" by auto
  moreover from reads_asD [OF rd, of 0 3 "[9, 9, 9]"] have "vfs_read vn [9, 9, 9] 0 3 s1 = Inr (3, bytes ''xyz'', s1)" by (simp add: bytes_def)
  ultimately show ?thesis using s'(1,2) root_fs_wf(6) by auto
qed

end
