(* ===== verification/Proc.thy ===== *)
theory Proc
  imports Vmm
begin

section \<open>Processes (kernel/proc.c, proc.h, switch.h, switch.asm, apic.c)\<close>

text \<open>
  The process table, the creation of processes, the switch between their kernel stacks and the scheduler, on one CPU.  The
  state extends that of virtual memory: kernel stacks live in \<open>mem\<close>, the registers the switch saves are those of \<open>cpu\<close>.  A
  \<open>struct proc*\<close> is the index of its slot.  \<open>MSR_GS\<close> holds the current process; before it is first written its contents are
  unknown (\<open>None\<close>) and must not be dereferenced.
\<close>

subsection \<open>Data\<close>

definition NPROC :: nat where "NPROC = 255"

datatype procstate = UNUSED | RUNNABLE | RUNNING

record proc =
  p_regs :: u64
  p_stack :: u64
  p_state :: procstate
  p_pid :: u32
  p_vmap :: u64

record cpu =
  c_rsp :: u64
  c_rbp :: u64
  c_rbx :: u64
  c_r12 :: u64
  c_r13 :: u64
  c_r14 :: u64
  c_r15 :: u64
  c_rip :: u64
  c_cs :: u64
  c_eflags :: u64

text \<open>Offsets of the members of \<open>struct regs\<close> and \<open>struct stack\<close>, and their sizes.\<close>

definition regs_rip :: u64 where "regs_rip = 88"
definition regs_cs :: u64 where "regs_cs = 96"
definition regs_eflags :: u64 where "regs_eflags = 104"
definition regs_rsp :: u64 where "regs_rsp = 112"
definition sizeof_regs :: u64 where "sizeof_regs = 128"
definition stack_rip :: u64 where "stack_rip = 48"
definition sizeof_stack :: u64 where "sizeof_stack = 56"

record kproc = vmm +
  ptable_lock :: u32
  ptable :: "nat \<Rightarrow> proc"
  msr_gs :: "nat option"
  nextpid :: u32
  sched_i :: u8
  cpu :: cpu

definition set_proc :: "nat \<Rightarrow> (proc \<Rightarrow> proc) \<Rightarrow> kproc \<Rightarrow> kproc" where
  "set_proc p f s = s\<lparr>ptable := (ptable s)(p := f (ptable s p))\<rparr>"

subsection \<open>The lock of the table, the current process\<close>

definition init_plock :: "kproc \<Rightarrow> kproc" where
  "init_plock s = s\<lparr>ptable_lock := 0\<rparr>"

definition acq :: "kproc \<Rightarrow> kproc result" where
  "acq s = ebind (acquire (ptable_lock s)) (\<lambda>l. Inr (s\<lparr>ptable_lock := l\<rparr>))"

definition r :: "kproc \<Rightarrow> kproc" where
  "r s = s\<lparr>ptable_lock := release (ptable_lock s)\<rparr>"

definition set_current_proc :: "nat \<Rightarrow> kproc \<Rightarrow> nat \<times> kproc" where
  "set_current_proc p s = (p, s\<lparr>msr_gs := Some p\<rparr>)"

definition get_current_proc :: "kproc \<Rightarrow> nat result" where
  "get_current_proc s = (case msr_gs s of None \<Rightarrow> Inl BadAccess | Some p \<Rightarrow> Inr p)"

subsection \<open>Switching stacks\<close>

definition push :: "u64 \<Rightarrow> kproc \<Rightarrow> kproc" where
  "push v s = (let sp = c_rsp (cpu s) - 8 in s\<lparr>mem := (mem s)(sp := v), cpu := (cpu s)\<lparr>c_rsp := sp\<rparr>\<rparr>)"

definition pop :: "kproc \<Rightarrow> u64 \<times> kproc" where
  "pop s = (mem s (c_rsp (cpu s)), s\<lparr>cpu := (cpu s)\<lparr>c_rsp := c_rsp (cpu s) + 8\<rparr>\<rparr>)"

definition push_callee_regs :: "kproc \<Rightarrow> kproc" where
  "push_callee_regs s =
     (let c = cpu s in
      push (c_rbp c) (push (c_rbx c) (push (c_r12 c) (push (c_r13 c) (push (c_r14 c) (push (c_r15 c) s))))))"

definition pop_callee_regs :: "kproc \<Rightarrow> kproc" where
  "pop_callee_regs s =
     (let (v, s) = pop s; s = s\<lparr>cpu := (cpu s)\<lparr>c_rbp := v\<rparr>\<rparr>;
          (v, s) = pop s; s = s\<lparr>cpu := (cpu s)\<lparr>c_rbx := v\<rparr>\<rparr>;
          (v, s) = pop s; s = s\<lparr>cpu := (cpu s)\<lparr>c_r12 := v\<rparr>\<rparr>;
          (v, s) = pop s; s = s\<lparr>cpu := (cpu s)\<lparr>c_r13 := v\<rparr>\<rparr>;
          (v, s) = pop s; s = s\<lparr>cpu := (cpu s)\<lparr>c_r14 := v\<rparr>\<rparr>;
          (v, s) = pop s in s\<lparr>cpu := (cpu s)\<lparr>c_r15 := v\<rparr>\<rparr>)"

text \<open>
  \<open>call switc\<close> pushes the return address, \<open>c_rip\<close>; \<open>switc\<close> pushes the callee-saved registers, stores the stack pointer through its
  first argument (here the first result), takes the new one, pops the registers and returns to the address it finds there.
\<close>

definition switc :: "u64 \<Rightarrow> kproc \<Rightarrow> u64 \<times> kproc" where
  "switc next s =
     (let s = push_callee_regs (push (c_rip (cpu s)) s);
          saved = c_rsp (cpu s);
          s = pop_callee_regs (s\<lparr>cpu := (cpu s)\<lparr>c_rsp := next\<rparr>\<rparr>);
          (v, s) = pop s in (saved, s\<lparr>cpu := (cpu s)\<lparr>c_rip := v\<rparr>\<rparr>))"

text \<open>
  The code at the label \<open>ret\<close> of \<^verbatim>\<open>isr.asm\<close>, which a new process returns to: ten registers are popped (of which only \<open>rbp\<close>, the
  last, is kept in \<open>cpu\<close>), the interrupt number is skipped, \<open>iretq\<close> loads \<open>rip\<close>, \<open>cs\<close>, \<open>eflags\<close> and \<open>rsp\<close>.
\<close>

definition ret_to_proc :: "kproc \<Rightarrow> kproc" where
  "ret_to_proc s =
     (let sp = c_rsp (cpu s); m = mem s in
      s\<lparr>cpu := (cpu s)\<lparr>c_rbp := m (sp + 72), c_rip := m (sp + 88), c_cs := m (sp + 96), c_eflags := m (sp + 104), c_rsp := m (sp + 112)\<rparr>\<rparr>)"

subsection \<open>Creating and starting processes\<close>

text \<open>\<open>while (*index < NPROC)\<close>: the slot found, if any, and the index where the search stopped.\<close>

function getproc :: "procstate \<Rightarrow> (nat \<Rightarrow> proc) \<Rightarrow> u8 \<Rightarrow> nat option \<times> u8" where
  "getproc state procs index =
     (if unat index < NPROC
      then if p_state (procs (unat index)) = state then (Some (unat index), index) else getproc state procs (index + 1)
      else (None, index))"
  by pat_completeness auto

lemma unat_Suc_index: "unat (i :: u8) < NPROC \<Longrightarrow> unat (i + 1) = Suc (unat i)"
  by (simp add: NPROC_def unat_word_ariths)

termination getproc
  by (relation "measure (\<lambda>(_, _, i). NPROC - unat i)") (auto simp: unat_Suc_index)

declare getproc.simps [simp del]

text \<open>The address of the label \<open>ret\<close> comes from the linker and is an argument.\<close>

definition allocproc :: "u64 \<Rightarrow> u64 \<Rightarrow> kproc \<Rightarrow> (nat option \<times> kproc) result" where
  "allocproc ret entry s =
     ebind (acq s) (\<lambda>s.
     let (q, index) = getproc UNUSED (ptable s) 0; s = r s in
     case q of None \<Rightarrow> Inr (None, s)
     | Some p \<Rightarrow>
         let pid = nextpid s + 1; s = set_proc p (\<lambda>x. x\<lparr>p_pid := pid\<rparr>) (s\<lparr>nextpid := pid\<rparr>) in
         ebind (palloc 1 s) (\<lambda>(frame, s).
         let stack = P2V frame + 4096 - sizeof_regs; regs = stack; s = set_proc p (\<lambda>x. x\<lparr>p_regs := regs\<rparr>) s in
         ebind (st regs regs_rip entry s) (\<lambda>s.
         ebind (st regs regs_cs 0x28 s) (\<lambda>s.
         ebind (st regs regs_eflags 0x202 s) (\<lambda>s.
         let stack = stack - sizeof_stack; s = set_proc p (\<lambda>x. x\<lparr>p_stack := stack\<rparr>) s in
         ebind (st regs regs_rsp (stack - 0x200) s) (\<lambda>s.
         ebind (st stack stack_rip ret s) (\<lambda>s. Inr (Some p, s))))))))"

text \<open>\<open>startproc\<close> does not return: the state is that in which the new process goes on, the lock still held.\<close>

definition startproc :: "nat \<Rightarrow> kproc \<Rightarrow> kproc result" where
  "startproc p s =
     ebind (acq s) (\<lambda>s.
     let (current, s) = set_current_proc p s;
         s = set_proc current (\<lambda>x. x\<lparr>p_state := RUNNING\<rparr>) s;
         (discard, s) = switc (p_stack (ptable s p)) s in Inr s)"

definition init_proc :: "nat \<Rightarrow> kproc \<Rightarrow> kproc result" where
  "init_proc i s = (let (_, s) = set_current_proc i s in startproc i s)"

subsection \<open>The scheduler\<close>

text \<open>
  The loop of \<open>scheduler\<close>: when the search ran to the end of the table it starts again at 0.  One such restart sees the
  whole table; the fuel is the number of searches.
\<close>

fun sched_loop :: "nat \<Rightarrow> (nat \<Rightarrow> proc) \<Rightarrow> u8 \<Rightarrow> (nat \<times> u8) result" where
  "sched_loop 0 procs i = Inl NoFuel"
| "sched_loop (Suc k) procs i =
     (case getproc RUNNABLE procs i of (Some p, i) \<Rightarrow> Inr (p, i) | (None, _) \<Rightarrow> sched_loop k procs 0)"

text \<open>The first result tells whether the stack was switched; if so the state is that in which the other process goes on.\<close>

definition scheduler :: "kproc \<Rightarrow> (bool \<times> kproc) result" where
  "scheduler s =
     ebind (sched_loop 2 (ptable s) (sched_i s)) (\<lambda>(p, i).
     let s = s\<lparr>sched_i := i\<rparr> in
     ebind (get_current_proc s) (\<lambda>prev.
     let (current, s) = set_current_proc p s; s = set_proc current (\<lambda>x. x\<lparr>p_state := RUNNING\<rparr>) s in
     if p_pid (ptable s prev) \<noteq> p_pid (ptable s current)
     then let (saved, s) = switc (p_stack (ptable s current)) s in Inr (True, set_proc prev (\<lambda>x. x\<lparr>p_stack := saved\<rparr>) s)
     else Inr (False, s)))"

text \<open>
  The timer interrupt.  After a switch \<open>r()\<close> is left to the process that goes on; the write to the end-of-interrupt register
  is not part of the state.
\<close>

definition apic_timer :: "kproc \<Rightarrow> (bool \<times> kproc) result" where
  "apic_timer s =
     ebind (acq s) (\<lambda>s.
     ebind (get_current_proc s) (\<lambda>current.
     let s = set_proc current (\<lambda>x. x\<lparr>p_state := RUNNABLE\<rparr>) s in
     ebind (scheduler s) (\<lambda>(switched, s). if switched then Inr (True, s) else Inr (False, r s))))"

subsection \<open>Searching the table\<close>

lemma getproc_find:
  "getproc state procs i = (case find (\<lambda>j. p_state (procs j) = state) [unat i..<NPROC] of
     None \<Rightarrow> (None, of_nat NPROC) | Some j \<Rightarrow> (Some j, of_nat j))"
proof (induction state procs i rule: getproc.induct)
  case (1 state procs i)
  show ?case
  proof (cases "unat i < NPROC")
    case True
    then have "[unat i..<NPROC] = unat i # [unat (i + 1)..<NPROC]" by (simp add: unat_Suc_index upt_conv_Cons)
    then show ?thesis using 1 True by (subst getproc.simps) auto
  next
    case False
    then have "unat i = 255" using unsigned_less [of i, where ?'a = nat] by (simp add: NPROC_def)
    then have "i = 255" by (simp add: word_unat_eq_iff)
    then show ?thesis by (subst getproc.simps) (simp add: NPROC_def)
  qed
qed

text \<open>The order in which the slots are looked at, from \<open>i\<close> on and then from the start.\<close>

definition next_runnable :: "(nat \<Rightarrow> proc) \<Rightarrow> nat \<Rightarrow> nat option" where
  "next_runnable procs i = find (\<lambda>j. p_state (procs j) = RUNNABLE) ([i..<NPROC] @ [0..<NPROC])"

lemma next_runnable_None: "next_runnable procs i = None \<longleftrightarrow> (\<forall>j < NPROC. p_state (procs j) \<noteq> RUNNABLE)"
  by (auto simp: next_runnable_def find_None_iff)

lemma find_upt:
  "find P [a..<b] = Some p \<longleftrightarrow> a \<le> p \<and> p < b \<and> P p \<and> (\<forall>j. a \<le> j \<and> j < p \<longrightarrow> \<not> P j)"
proof (induction "b - a" arbitrary: a)
  case (Suc n)
  then have ab: "[a..<b] = a # [Suc a..<b]" and n: "n = b - Suc a" "a < b" by (simp_all add: upt_conv_Cons)
  have "(\<forall>j. a \<le> j \<and> j < p \<longrightarrow> \<not> P j) \<longleftrightarrow> (a < p \<longrightarrow> \<not> P a) \<and> (\<forall>j. Suc a \<le> j \<and> j < p \<longrightarrow> \<not> P j)"
    by (metis Suc_leI Suc_le_lessD le_eq_less_or_eq le_refl)
  then show ?case using Suc(1) [OF n(1)] n(2) unfolding ab by (auto simp: le_Suc_eq Suc_le_eq nat_less_le)
qed auto

lemma next_runnable_Some:
  assumes "next_runnable procs i = Some p"
  shows "p < NPROC" "p_state (procs p) = RUNNABLE" "p < i \<longrightarrow> (\<forall>j. i \<le> j \<and> j < NPROC \<longrightarrow> p_state (procs j) \<noteq> RUNNABLE)"
    "\<forall>j. (if p < i then 0 else i) \<le> j \<and> j < p \<longrightarrow> p_state (procs j) \<noteq> RUNNABLE"
proof -
  let ?P = "\<lambda>j. p_state (procs j) = RUNNABLE"
  consider "find ?P [i..<NPROC] = Some p" | "find ?P [i..<NPROC] = None" "find ?P [0..<NPROC] = Some p"
    using assms by (auto simp: next_runnable_def find_append split: option.splits)
  then have "p < NPROC \<and> ?P p \<and> (p < i \<longrightarrow> (\<forall>j. i \<le> j \<and> j < NPROC \<longrightarrow> \<not> ?P j)) \<and>
      (\<forall>j. (if p < i then 0 else i) \<le> j \<and> j < p \<longrightarrow> \<not> ?P j)"
    by cases (auto simp: find_upt find_None_iff)
  then show "p < NPROC" "?P p" "p < i \<longrightarrow> (\<forall>j. i \<le> j \<and> j < NPROC \<longrightarrow> \<not> ?P j)"
    "\<forall>j. (if p < i then 0 else i) \<le> j \<and> j < p \<longrightarrow> \<not> ?P j" by blast+
qed

lemma sched_loop_next:
  "sched_loop 2 procs i = (case next_runnable procs (unat i) of None \<Rightarrow> Inl NoFuel | Some p \<Rightarrow> Inr (p, of_nat p))"
  unfolding numeral_2_eq_2 by (simp add: getproc_find next_runnable_def find_append split: option.splits)

lemma sched_loop_none: "next_runnable procs (unat i) = None \<Longrightarrow> sched_loop k procs i = Inl NoFuel"
  by (induction k arbitrary: i)
    (auto simp: getproc_find next_runnable_def find_append split: option.splits)

subsection \<open>The switch in closed form\<close>

definition frame_slots :: "u64 \<Rightarrow> u64 set" where
  "frame_slots sp = {sp, sp + 8, sp + 16, sp + 24, sp + 32, sp + 40, sp + 48}"

definition save_frame :: "cpu \<Rightarrow> (u64 \<Rightarrow> u64) \<Rightarrow> u64 \<Rightarrow> u64" where
  "save_frame c m = (let sp = c_rsp c - 56 in
     m(sp + 48 := c_rip c, sp + 40 := c_r15 c, sp + 32 := c_r14 c, sp + 24 := c_r13 c, sp + 16 := c_r12 c, sp + 8 := c_rbx c, sp := c_rbp c))"

definition load_frame :: "u64 \<Rightarrow> (u64 \<Rightarrow> u64) \<Rightarrow> cpu \<Rightarrow> cpu" where
  "load_frame sp m c = c\<lparr>c_rsp := sp + 56, c_rbp := m sp, c_rbx := m (sp + 8), c_r12 := m (sp + 16), c_r13 := m (sp + 24),
     c_r14 := m (sp + 32), c_r15 := m (sp + 40), c_rip := m (sp + 48)\<rparr>"

lemma push_cpu: "push v (s\<lparr>cpu := c, mem := m\<rparr>) = s\<lparr>cpu := c\<lparr>c_rsp := c_rsp c - 8\<rparr>, mem := m(c_rsp c - 8 := v)\<rparr>"
  by (simp add: push_def Let_def)

lemma push_frame:
  "push_callee_regs (push (c_rip c) (s\<lparr>cpu := c, mem := m\<rparr>)) = s\<lparr>cpu := c\<lparr>c_rsp := c_rsp c - 56\<rparr>, mem := save_frame c m\<rparr>"
  unfolding push_callee_regs_def push_cpu Let_def by (simp add: push_cpu save_frame_def Let_def)

lemma pop_cpu: "pop (s\<lparr>cpu := c\<rparr>) = (mem s (c_rsp c), s\<lparr>cpu := c\<lparr>c_rsp := c_rsp c + 8\<rparr>\<rparr>)"
  by (simp add: pop_def)

lemma pop_frame:
  "(let (v, s) = pop (pop_callee_regs (s\<lparr>cpu := c\<rparr>)) in s\<lparr>cpu := (cpu s)\<lparr>c_rip := v\<rparr>\<rparr>) = s\<lparr>cpu := load_frame (c_rsp c) (mem s) c\<rparr>"
  unfolding pop_callee_regs_def by (simp add: pop_cpu load_frame_def Let_def add.assoc)

lemma switc_eq:
  "switc next s = (c_rsp (cpu s) - 56, s\<lparr>mem := save_frame (cpu s) (mem s), cpu := load_frame next (save_frame (cpu s) (mem s)) (cpu s)\<rparr>)"
proof -
  let ?s = "s\<lparr>cpu := (cpu s)\<lparr>c_rsp := c_rsp (cpu s) - 56\<rparr>, mem := save_frame (cpu s) (mem s)\<rparr>"
  have "push_callee_regs (push (c_rip (cpu s)) s) = ?s" using push_frame [where c = "cpu s" and s = s and m = "mem s"] by simp
  moreover have "?s\<lparr>cpu := (cpu ?s)\<lparr>c_rsp := next\<rparr>\<rparr> = ?s\<lparr>cpu := (cpu s)\<lparr>c_rsp := next\<rparr>\<rparr>" by simp
  ultimately have "switc next s = (c_rsp (cpu s) - 56,
      let (v, s) = pop (pop_callee_regs (?s\<lparr>cpu := (cpu s)\<lparr>c_rsp := next\<rparr>\<rparr>)) in s\<lparr>cpu := (cpu s)\<lparr>c_rip := v\<rparr>\<rparr>)"
    by (simp add: switc_def Let_def split: prod.splits)
  then show ?thesis unfolding pop_frame by (simp add: load_frame_def)
qed

lemma save_frame_load:
  "save_frame c m (c_rsp c - 56) = c_rbp c" "save_frame c m (c_rsp c - 56 + 8) = c_rbx c" "save_frame c m (c_rsp c - 56 + 16) = c_r12 c"
  "save_frame c m (c_rsp c - 56 + 24) = c_r13 c" "save_frame c m (c_rsp c - 56 + 32) = c_r14 c" "save_frame c m (c_rsp c - 56 + 40) = c_r15 c"
  "save_frame c m (c_rsp c - 56 + 48) = c_rip c"
  by (simp_all add: save_frame_def Let_def)

lemma save_frame_other: "a \<notin> frame_slots (c_rsp c - 56) \<Longrightarrow> save_frame c m a = m a"
  by (auto simp: save_frame_def Let_def frame_slots_def)

lemma load_frame_cong: "(\<And>a. a \<in> frame_slots sp \<Longrightarrow> m a = m' a) \<Longrightarrow> load_frame sp m c = load_frame sp m' c"
  by (simp add: load_frame_def frame_slots_def)

text \<open>
  C18 (a switch and back).  A process that gives up the CPU in \<open>switc\<close> and is switched back to later finds its stack pointer, its
  callee-saved registers and its return address as they were, whatever ran in between, as long as nobody wrote to the seven
  words it left on its stack.
\<close>

theorem switc_roundtrip:
  assumes "switc next s = (saved, s1)"
    and "\<And>a. a \<in> frame_slots saved \<Longrightarrow> mem s2 a = mem s1 a" and "frame_slots saved \<inter> frame_slots (c_rsp (cpu s2) - 56) = {}"
  shows "\<exists>away s3. switc saved s2 = (away, s3) \<and> cpu s3 = (cpu s)\<lparr>c_cs := c_cs (cpu s2), c_eflags := c_eflags (cpu s2)\<rparr>"
proof -
  have sv: "saved = c_rsp (cpu s) - 56" "mem s1 = save_frame (cpu s) (mem s)" using assms(1) by (auto simp: switc_eq)
  let ?m = "save_frame (cpu s2) (mem s2)"
  have "?m a = save_frame (cpu s) (mem s) a" if "a \<in> frame_slots saved" for a
    using save_frame_other [of a "cpu s2" "mem s2"] assms(2,3) that sv(2) by auto
  then have "load_frame saved ?m (cpu s2) = load_frame saved (save_frame (cpu s) (mem s)) (cpu s2)" by (rule load_frame_cong)
  also have "\<dots> = (cpu s)\<lparr>c_cs := c_cs (cpu s2), c_eflags := c_eflags (cpu s2)\<rparr>"
    unfolding sv(1) load_frame_def save_frame_load by simp
  finally show ?thesis by (simp add: switc_eq)
qed

subsection \<open>The scheduler at work\<close>

lemma set_proc_sel [simp]:
  "ptable (set_proc p f s) = (ptable s)(p := f (ptable s p))" "msr_gs (set_proc p f s) = msr_gs s" "sched_i (set_proc p f s) = sched_i s"
  "ptable_lock (set_proc p f s) = ptable_lock s" "cpu (set_proc p f s) = cpu s" "mem (set_proc p f s) = mem s" "nextpid (set_proc p f s) = nextpid s"
  by (simp_all add: set_proc_def)

lemma of_nat_unat_index: "p < NPROC \<Longrightarrow> unat (of_nat p :: u8) = p"
  by (simp add: NPROC_def unat_of_nat)

text \<open>The outcome of \<open>scheduler\<close> when some process can run: it is the current one and running, the index points to it.\<close>

lemma scheduler_run:
  assumes "next_runnable (ptable s) (unat (sched_i s)) = Some p" and "msr_gs s = Some c"
  obtains sw s' where "scheduler s = Inr (sw, s')" "msr_gs s' = Some p" "unat (sched_i s') = p"
    "\<And>j. p_state (ptable s' j) = (if j = p then RUNNING else p_state (ptable s j))" "ptable_lock s' = ptable_lock s"
    "sw \<longleftrightarrow> p_pid (ptable s c) \<noteq> p_pid (ptable s p)"
    "\<not> sw \<Longrightarrow> s' = s\<lparr>sched_i := of_nat p, msr_gs := Some p, ptable := (ptable s)(p := (ptable s p)\<lparr>p_state := RUNNING\<rparr>)\<rparr>"
proof -
  note n = next_runnable_Some [OF assms(1)]
  have pid: "p_pid (((ptable s)(p := (ptable s p)\<lparr>p_state := RUNNING\<rparr>)) q) = p_pid (ptable s q)" for q by simp
  show thesis
  proof (cases "p_pid (ptable s c) = p_pid (ptable s p)")
    case True
    then show thesis using assms n(1)
      by (intro that [of False "s\<lparr>sched_i := of_nat p, msr_gs := Some p, ptable := (ptable s)(p := (ptable s p)\<lparr>p_state := RUNNING\<rparr>)\<rparr>"])
        (auto simp: scheduler_def sched_loop_next get_current_proc_def set_current_proc_def set_proc_def Let_def of_nat_unat_index)
  next
    case False
    let ?s = "s\<lparr>sched_i := of_nat p, msr_gs := Some p, ptable := (ptable s)(p := (ptable s p)\<lparr>p_state := RUNNING\<rparr>)\<rparr>"
    obtain sv s1 where sw: "switc (p_stack (ptable s p)) ?s = (sv, s1)" by fastforce
    then have s1: "msr_gs s1 = Some p" "sched_i s1 = of_nat p" "ptable s1 = ptable ?s" "ptable_lock s1 = ptable_lock s"
      by (auto simp: switc_eq)
    have run: "scheduler s = Inr (True, set_proc c (\<lambda>x. x\<lparr>p_stack := sv\<rparr>) s1)"
      using assms False sw by (auto simp: scheduler_def sched_loop_next get_current_proc_def set_current_proc_def set_proc_def Let_def)
    show thesis by (rule that [OF run]) (use s1 n(1) False in \<open>auto simp: of_nat_unat_index\<close>)
  qed
qed

lemma acq_free: "ptable_lock s = 0 \<Longrightarrow> acq s = Inr (s\<lparr>ptable_lock := 1\<rparr>)"
  by (simp add: acq_def acquire_def atomic_exchange_def)

lemma timer_run:
  assumes "ptable_lock s = 0" and "msr_gs s = Some c" "c < NPROC"
  obtains p sw s' where "apic_timer s = Inr (sw, s')" "next_runnable ((ptable s)(c := (ptable s c)\<lparr>p_state := RUNNABLE\<rparr>)) (unat (sched_i s)) = Some p"
    "msr_gs s' = Some p" "unat (sched_i s') = p" "ptable_lock s' = (if sw then 1 else 0)" "p < NPROC"
    "\<And>j. p_state (ptable s' j) = (if j = p then RUNNING else if j = c then RUNNABLE else p_state (ptable s j))"
    "sw \<longleftrightarrow> p_pid (ptable s c) \<noteq> p_pid (ptable s p)"
    "\<not> sw \<Longrightarrow> s' = s\<lparr>sched_i := of_nat p, msr_gs := Some p,
       ptable := (ptable s)(c := (ptable s c)\<lparr>p_state := RUNNABLE\<rparr>, p := (if p = c then ptable s c else ptable s p)\<lparr>p_state := RUNNING\<rparr>)\<rparr>"
proof -
  let ?s1 = "set_proc c (\<lambda>x. x\<lparr>p_state := RUNNABLE\<rparr>) (s\<lparr>ptable_lock := 1\<rparr>)"
  have "next_runnable (ptable ?s1) (unat (sched_i ?s1)) \<noteq> None" using assms(3) by (auto simp: next_runnable_None)
  then obtain p where p: "next_runnable (ptable ?s1) (unat (sched_i ?s1)) = Some p" by blast
  from assms(2) have g: "msr_gs ?s1 = Some c" by simp
  obtain sw s2 where s2: "scheduler ?s1 = Inr (sw, s2)" "msr_gs s2 = Some p" "unat (sched_i s2) = p"
    "\<And>j. p_state (ptable s2 j) = (if j = p then RUNNING else p_state (ptable ?s1 j))" "ptable_lock s2 = ptable_lock ?s1"
    "sw \<longleftrightarrow> p_pid (ptable ?s1 c) \<noteq> p_pid (ptable ?s1 p)"
    "\<not> sw \<Longrightarrow> s2 = ?s1\<lparr>sched_i := of_nat p, msr_gs := Some p, ptable := (ptable ?s1)(p := (ptable ?s1 p)\<lparr>p_state := RUNNING\<rparr>)\<rparr>"
    by (rule scheduler_run [OF p g]) blast
  have run: "apic_timer s = Inr (sw, if sw then s2 else r s2)"
    using assms s2(1) by (simp add: apic_timer_def acq_free get_current_proc_def Let_def)
  show thesis
    by (rule that [OF run, of p]) (use p s2(2-6) s2(7) next_runnable_Some(1) [OF p] assms(1) in \<open>auto simp: r_def release_def set_proc_def split: if_splits\<close>)
qed

text \<open>
  C34 (choice of the scheduler).  The search of \<open>scheduler\<close> agrees with its specification: it looks at the slots from the static
  index to the end and then from 0 on, and takes the first that is \<open>RUNNABLE\<close>; one restart is enough.  With the table lock held
  and no \<open>RUNNABLE\<close> process it searches forever.
\<close>

theorem scheduler_choice:
  "sched_loop 2 procs i = (case next_runnable procs (unat i) of None \<Rightarrow> Inl NoFuel | Some p \<Rightarrow> Inr (p, of_nat p)) \<and>
   (next_runnable procs (unat i) = None \<longleftrightarrow> (\<forall>j < NPROC. p_state (procs j) \<noteq> RUNNABLE)) \<and>
   (next_runnable procs (unat i) = None \<longrightarrow> (\<forall>k. sched_loop k procs i = Inl NoFuel))"
  by (simp add: sched_loop_next next_runnable_None sched_loop_none)

text \<open>A table whose slots are all unused but those listed, on the machine of \<^verbatim>\<open>Vmm\<close>.\<close>

definition demo_kproc :: "(nat \<Rightarrow> procstate) \<Rightarrow> kproc" where
  "demo_kproc sts = \<lparr>bitmap = bitmap boot_vmm, bitmap_addr = 0, spinlock = 0, dbg_g = 10, mem = (\<lambda>_. 0), slabber_first = 0, slabber_lock = 0,
     slab_id = 0, kernel_vm_map = 0, cr3 = 0, ptable_lock = 0,
     ptable = (\<lambda>j. \<lparr>p_regs = 0, p_stack = of_nat j * 4096 + 0x10000, p_state = sts j, p_pid = of_nat j, p_vmap = 0\<rparr>),
     msr_gs = Some 0, nextpid = 0, sched_i = 2,
     cpu = \<lparr>c_rsp = 0x8000, c_rbp = 1, c_rbx = 2, c_r12 = 3, c_r13 = 4, c_r14 = 5, c_r15 = 6, c_rip = 0x1234, c_cs = 0x28, c_eflags = 2\<rparr>\<rparr>"

theorem scheduler_choice_witness:
  "sched_loop 2 (ptable (demo_kproc (\<lambda>j. if j = 1 then RUNNABLE else UNUSED))) 2 = Inr (1, 1)"
proof -
  have "next_runnable (ptable (demo_kproc (\<lambda>j. if j = 1 then RUNNABLE else UNUSED))) (unat (2 :: u8)) = Some 1"
    unfolding next_runnable_def find_append find_upt by (auto simp: demo_kproc_def NPROC_def find_None_iff find_upt split: option.splits)
  then show ?thesis using scheduler_choice [of "ptable (demo_kproc (\<lambda>j. if j = 1 then RUNNABLE else UNUSED))" 2] by simp
qed

subsection \<open>Histories of timer interrupts\<close>

text \<open>
  What happens to the table on one CPU: a process is created, or the timer interrupt comes, after which the process that goes on
  releases the lock of the table.
\<close>

inductive kstep :: "kproc \<Rightarrow> kproc \<Rightarrow> bool" where
  alloc: "allocproc ret entry s = Inr (q, s') \<Longrightarrow> kstep s s'"
| tick: "apic_timer s = Inr (sw, s') \<Longrightarrow> kstep s (r s')"

definition one_running :: "kproc \<Rightarrow> bool" where
  "one_running s \<longleftrightarrow> ptable_lock s = 0 \<and> (\<exists>c < NPROC. msr_gs s = Some c \<and> (\<forall>j. p_state (ptable s j) = RUNNING \<longleftrightarrow> j = c))"

text \<open>What \<open>allocproc\<close> leaves in the slot and on the new stack, whose page starts at \<open>base\<close>.\<close>

definition new_mem :: "u64 \<Rightarrow> u64 \<Rightarrow> u64 \<Rightarrow> (u64 \<Rightarrow> u64) \<Rightarrow> u64 \<Rightarrow> u64" where
  "new_mem base ret entry m = m(base + 4056 := entry, base + 4064 := 0x28, base + 4072 := 0x202, base + 4080 := base + 3400,
     base + 3960 := ret)"

definition new_slot :: "u64 \<Rightarrow> u32 \<Rightarrow> proc \<Rightarrow> proc" where
  "new_slot base pid x = x\<lparr>p_pid := pid, p_regs := base + 3968, p_stack := base + 3912\<rparr>"

lemma palloc_kproc:
  "palloc n (s\<lparr>nextpid := a, ptable := b\<rparr>) = ebind (palloc n s) (\<lambda>(f, s). Inr (f, s\<lparr>nextpid := a, ptable := b\<rparr>))"
  by (simp add: palloc_def ebind_def Let_def split: sum.splits)

lemma kproc_unlock [simp]: "ptable_lock s = 0 \<Longrightarrow> s\<lparr>ptable_lock := 0\<rparr> = s"
  by simp

lemma stack_layout:
  "b + 4096 - sizeof_regs = b + 3968" "b + 3968 - sizeof_stack = b + 3912" "b + 3968 + regs_rip = b + 4056" "b + 3968 + regs_cs = b + 4064"
  "b + 3968 + regs_eflags = b + 4072" "b + 3968 + regs_rsp = b + 4080" "b + 3912 - 0x200 = b + 3400" "b + 3912 + stack_rip = b + 3960"
  by (simp_all add: sizeof_regs_def sizeof_stack_def regs_rip_def regs_cs_def regs_eflags_def regs_rsp_def stack_rip_def)

lemma allocproc_eq:
  assumes "ptable_lock s = 0" and "find (\<lambda>j. p_state (ptable s j) = UNUSED) [0..<NPROC] = Some p"
    and "palloc 1 s = Inr (frame, s\<lparr>bitmap := bm, dbg_g := g\<rparr>)" and "P2V frame + 3968 \<noteq> 0" "P2V frame + 3912 \<noteq> 0"
  shows "allocproc ret entry s = Inr (Some p, s\<lparr>bitmap := bm, dbg_g := g, nextpid := nextpid s + 1,
       ptable := (ptable s)(p := new_slot (P2V frame) (nextpid s + 1) (ptable s p)), mem := new_mem (P2V frame) ret entry (mem s)\<rparr>)"
proof -
  have g: "getproc UNUSED (ptable s) 0 = (Some p, of_nat p)" using assms(2) by (simp add: getproc_find)
  show ?thesis using assms g
    by (simp add: allocproc_def acq_free r_def release_def set_proc_def Let_def palloc_kproc st_def new_mem_def new_slot_def stack_layout
      cong: ebind_arg_cong)
qed

lemma allocproc_cases:
  assumes "allocproc ret entry s = Inr (q, s')"
  obtains "q = None" "s' = s" "ptable_lock s = 0" "\<And>j. j < NPROC \<Longrightarrow> p_state (ptable s j) \<noteq> UNUSED"
  | p frame bm g where "q = Some p" "ptable_lock s = 0" "find (\<lambda>j. p_state (ptable s j) = UNUSED) [0..<NPROC] = Some p"
    "palloc 1 s = Inr (frame, s\<lparr>bitmap := bm, dbg_g := g\<rparr>)" "length bm = length (bitmap s)"
    "s' = s\<lparr>bitmap := bm, dbg_g := g, nextpid := nextpid s + 1,
       ptable := (ptable s)(p := new_slot (P2V frame) (nextpid s + 1) (ptable s p)), mem := new_mem (P2V frame) ret entry (mem s)\<rparr>"
proof -
  have l: "ptable_lock s = 0" using assms by (auto simp: allocproc_def acq_def acquire_def atomic_exchange_def split: if_splits)
  note ev = allocproc_def acq_free [OF l] r_def release_def getproc_find Let_def
  show thesis
  proof (cases "find (\<lambda>j. p_state (ptable s j) = UNUSED) [0..<NPROC]")
    case None
    then have "q = None" "s' = s" using assms l by (simp_all add: ev)
    with None show thesis using l by (intro that(1)) (auto simp: find_None_iff)
  next
    case (Some p)
    let ?s = "s\<lparr>nextpid := nextpid s + 1, ptable := (ptable s)(p := (ptable s p)\<lparr>p_pid := nextpid s + 1\<rparr>)\<rparr>"
    have step: "allocproc ret entry s = ebind (palloc 1 s) (\<lambda>(frame, s0).
        if P2V frame + 3968 = 0 \<or> P2V frame + 3912 = 0 then Inl NullDeref else allocproc ret entry s)"
    proof (cases "palloc 1 s")
      case (Inr x)
      obtain frame s0 where x: "x = (frame, s0)" by fastforce
      then show ?thesis using Inr l Some
        by (auto simp: ev set_proc_def palloc_kproc st_def stack_layout cong: ebind_arg_cong)
    qed (use l Some in \<open>simp add: ev set_proc_def palloc_kproc\<close>)
    from step [unfolded assms, symmetric]
    obtain frame s0 where f: "palloc 1 s = Inr (frame, s0)" "P2V frame + 3968 \<noteq> 0" "P2V frame + 3912 \<noteq> 0"
      by (auto simp: ebind_eq_Inr split: if_splits)
    obtain bm g where s0: "s0 = s\<lparr>bitmap := bm, dbg_g := g\<rparr>" "length bm = length (bitmap s)" using f(1) by (rule palloc_cases)
    have "allocproc ret entry s = Inr (Some p, s\<lparr>bitmap := bm, dbg_g := g, nextpid := nextpid s + 1,
       ptable := (ptable s)(p := new_slot (P2V frame) (nextpid s + 1) (ptable s p)), mem := new_mem (P2V frame) ret entry (mem s)\<rparr>)"
      by (rule allocproc_eq [OF l Some _ f(2,3)]) (use f(1) s0(1) in simp)
    then show thesis using that(2) [of p frame g bm] assms l Some f(1) s0 by simp
  qed
qed

lemma allocproc_states:
  assumes "allocproc ret entry s = Inr (q, s')"
  shows "ptable_lock s' = 0" "msr_gs s' = msr_gs s" "sched_i s' = sched_i s" "p_state (ptable s' j) = p_state (ptable s j)" "cpu s' = cpu s"
  using assms by (cases rule: allocproc_cases; auto simp: new_slot_def)+

text \<open>
  C17 (one running process).  On one CPU, through any history of process creations and timer interrupts, exactly one process is
  \<open>RUNNING\<close>, namely the one \<open>MSR_GS\<close> points to, and the lock of the table is free between interrupts.
\<close>

theorem one_running_invariant:
  assumes "kstep\<^sup>*\<^sup>* s s'" and "one_running s"
  shows "one_running s'"
  using assms
proof (induction rule: rtranclp_induct)
  case (step y z)
  then have y: "one_running y" by blast
  then obtain c where c: "ptable_lock y = 0" "c < NPROC" "msr_gs y = Some c" "\<And>j. p_state (ptable y j) = RUNNING \<longleftrightarrow> j = c"
    by (auto simp: one_running_def)
  from step.hyps(2) show ?case
  proof (cases rule: kstep.cases)
    case (alloc ret entry q)
    show ?thesis unfolding one_running_def allocproc_states [OF alloc] using c by auto
  next
    case (tick sw s1)
    obtain p s2 sw2 where "apic_timer y = Inr (sw2, s2)" "msr_gs s2 = Some p" "p < NPROC"
      "\<And>j. p_state (ptable s2 j) = (if j = p then RUNNING else if j = c then RUNNABLE else p_state (ptable y j))"
      by (rule timer_run [OF c(1,3,2)]) blast
    with tick c(4) show ?thesis by (auto simp: one_running_def r_def release_def)
  qed
qed

theorem one_running_invariant_witness:
  "one_running (demo_kproc (\<lambda>j. if j = 0 then RUNNING else UNUSED)) \<and>
   (\<exists>s'. kstep (demo_kproc (\<lambda>j. if j = 0 then RUNNING else UNUSED)) s' \<and> one_running s')"
proof -
  let ?s = "demo_kproc (\<lambda>j. if j = 0 then RUNNING else UNUSED)"
  have o: "one_running ?s" by (auto simp: one_running_def demo_kproc_def NPROC_def)
  have "ptable_lock ?s = 0" "msr_gs ?s = Some 0" "0 < NPROC" by (simp_all add: demo_kproc_def NPROC_def)
  then obtain sw s' where "apic_timer ?s = Inr (sw, s')" by (rule timer_run)
  then have "kstep ?s (r s')" by (rule kstep.tick)
  then show ?thesis using o one_running_invariant [OF r_into_rtranclp o] by blast
qed

text \<open>Several timer interrupts in a row.\<close>

fun ticks :: "nat \<Rightarrow> kproc \<Rightarrow> kproc result" where
  "ticks 0 s = Inr s"
| "ticks (Suc n) s = ebind (apic_timer s) (\<lambda>(_, s). ticks n s)"

lemma timer_sticky:
  assumes "ptable_lock s = 0" and "msr_gs s = Some (unat (sched_i s))" "unat (sched_i s) < NPROC" "p_state (ptable s (unat (sched_i s))) = RUNNING"
  shows "apic_timer s = Inr (False, s)"
proof -
  let ?c = "unat (sched_i s)"
  let ?t = "(ptable s)(?c := (ptable s ?c)\<lparr>p_state := RUNNABLE\<rparr>)"
  have "find (\<lambda>j. p_state (?t j) = RUNNABLE) [?c..<NPROC] = Some ?c" using assms(3) unfolding find_upt by auto
  then have n: "next_runnable ?t ?c = Some ?c" by (simp add: next_runnable_def find_append)
  obtain p sw s' where t: "apic_timer s = Inr (sw, s')" "next_runnable ?t ?c = Some p"
    "sw \<longleftrightarrow> p_pid (ptable s ?c) \<noteq> p_pid (ptable s p)"
    "\<not> sw \<Longrightarrow> s' = s\<lparr>sched_i := of_nat p, msr_gs := Some p,
       ptable := (ptable s)(?c := (ptable s ?c)\<lparr>p_state := RUNNABLE\<rparr>, p := (if p = ?c then ptable s ?c else ptable s p)\<lparr>p_state := RUNNING\<rparr>)\<rparr>"
    by (rule timer_run [OF assms(1-3)]) blast
  from t(2) n have p: "p = ?c" by simp
  from t(3,4) have "\<not> sw" "s' = s" unfolding p using assms(2,4) by (simp_all add: fun_upd_idem)
  with t(1) show ?thesis by simp
qed

text \<open>
  C36 (the scheduler never preempts).  The static index of \<open>scheduler\<close> stays on the process it chose, and \<open>apic_timer\<close> makes that
  process \<open>RUNNABLE\<close> again before it searches: after the first timer interrupt (and the release of the lock by the process that goes on)
  every further one changes nothing, whatever other processes are waiting.
\<close>

theorem scheduler_never_preempts:
  assumes "ptable_lock s = 0" and "msr_gs s = Some c" "c < NPROC" and "apic_timer s = Inr (sw, s1)"
  shows "ticks n (r s1) = Inr (r s1)"
proof -
  obtain p s2 sw2 where s2: "apic_timer s = Inr (sw2, s2)" "msr_gs s2 = Some p" "unat (sched_i s2) = p" "p < NPROC"
    "\<And>j. p_state (ptable s2 j) = (if j = p then RUNNING else if j = c then RUNNABLE else p_state (ptable s j))"
    by (rule timer_run [OF assms(1-3)]) blast
  have "apic_timer (r s1) = Inr (False, r s1)"
    by (rule timer_sticky) (use s2 assms(4) in \<open>auto simp: r_def release_def\<close>)
  then show ?thesis by (induction n) simp_all
qed

theorem scheduler_never_preempts_witness:
  "\<exists>sw s1. apic_timer (demo_kproc (\<lambda>j. if j < 3 then RUNNABLE else UNUSED)) = Inr (sw, s1) \<and> msr_gs s1 = Some 2 \<and>
     p_state (ptable s1 1) = RUNNABLE \<and> ticks 1000 (r s1) = Inr (r s1)"
proof -
  let ?s = "demo_kproc (\<lambda>j. if j < 3 then RUNNABLE else UNUSED)"
  have s: "ptable_lock ?s = 0" "msr_gs ?s = Some 0" "0 < NPROC" "unat (sched_i ?s) = 2" by (simp_all add: demo_kproc_def NPROC_def)
  have "find (\<lambda>j. p_state (((ptable ?s)(0 := (ptable ?s 0)\<lparr>p_state := RUNNABLE\<rparr>)) j) = RUNNABLE) [2..<NPROC] = Some 2"
    unfolding find_upt by (simp add: demo_kproc_def NPROC_def)
  then have n: "next_runnable ((ptable ?s)(0 := (ptable ?s 0)\<lparr>p_state := RUNNABLE\<rparr>)) (unat (sched_i ?s)) = Some 2"
    using s(4) by (simp add: next_runnable_def find_append)
  obtain p sw s1 where t: "apic_timer ?s = Inr (sw, s1)" "next_runnable ((ptable ?s)(0 := (ptable ?s 0)\<lparr>p_state := RUNNABLE\<rparr>)) (unat (sched_i ?s)) = Some p"
    "msr_gs s1 = Some p" "\<And>j. p_state (ptable s1 j) = (if j = p then RUNNING else if j = 0 then RUNNABLE else p_state (ptable ?s j))"
    by (rule timer_run [OF s(1-3)]) blast
  have "p_state (ptable s1 1) = RUNNABLE" using t n by (simp add: demo_kproc_def)
  then show ?thesis using t n scheduler_never_preempts [OF s(1-3) t(1)] by auto
qed

subsection \<open>New processes\<close>

text \<open>
  A slot is handed out twice: \<open>allocproc\<close> takes the lowest \<open>UNUSED\<close> slot and gives it the next process number, but
  leaves it \<open>UNUSED\<close>: the next call returns the same slot again, with the next number and a new stack, and the first process
  is gone.
\<close>

lemma allocproc_reuses_slot:
  assumes "allocproc ret e1 s = Inr (Some p, s1)" and "allocproc ret e2 s1 = Inr (q, s2)"
  shows "p < NPROC \<and> p_state (ptable s p) = UNUSED \<and> (\<forall>j < p. p_state (ptable s j) \<noteq> UNUSED) \<and>
    p_pid (ptable s1 p) = nextpid s + 1 \<and> q = Some p \<and> p_pid (ptable s2 p) = nextpid s + 2 \<and>
    (\<forall>j. j \<noteq> p \<longrightarrow> ptable s2 j = ptable s j)"
  using assms(1)
proof (cases rule: allocproc_cases)
  case (2 p' frame bm g)
  then have p: "p' = p" "find (\<lambda>j. p_state (ptable s j) = UNUSED) [0..<NPROC] = Some p" by simp_all
  have s1: "ptable s1 = (ptable s)(p := new_slot (P2V frame) (nextpid s + 1) (ptable s p))" "nextpid s1 = nextpid s + 1" using 2(6) p(1) by simp_all
  have f1: "find (\<lambda>j. p_state (ptable s1 j) = UNUSED) [0..<NPROC] = Some p"
    using p(2) unfolding find_upt s1 by (auto simp: new_slot_def)
  from assms(2) show ?thesis
  proof (cases rule: allocproc_cases)
    case 1
    then show ?thesis using f1 by (auto simp: find_upt)
  next
    case (2 q' frame' bm' g')
    then have "q' = p" using f1 by simp
    then show ?thesis using 2(1,6) p(2) s1 by (auto simp: find_upt new_slot_def)
  qed
qed simp

lemma demo_alloc:
  "\<exists>s1. allocproc 0x9000 entry (demo_kproc (\<lambda>_. UNUSED)) = Inr (Some 0, s1) \<and> (\<exists>s2. allocproc 0x9000 e2 s1 = Inr (Some 0, s2))"
  "palloc 1 (demo_kproc sts) = Inr (4096, (demo_kproc sts)\<lparr>bitmap := [3]\<rparr>)"
proof -
  show p: "palloc 1 (demo_kproc sts) = Inr (4096, (demo_kproc sts)\<lparr>bitmap := [3]\<rparr>)" for sts
    by (simp add: palloc_eval demo_kproc_def boot_vmm_def)
  let ?s = "demo_kproc (\<lambda>_. UNUSED)"
  have u: "find (\<lambda>j. p_state (ptable ?s j) = UNUSED) [0..<NPROC] = Some 0" unfolding find_upt by (simp add: demo_kproc_def NPROC_def)
  have d: "dbg_g ?s = 10" "ptable_lock ?s = 0" by (simp_all add: demo_kproc_def)
  have nz: "P2V 4096 + 3968 \<noteq> 0" "P2V 4096 + 3912 \<noteq> 0" "P2V 8192 + 3968 \<noteq> 0" "P2V 8192 + 3912 \<noteq> 0" by (simp_all add: P2V_def HHDM_OFFSET_def)
  have p': "palloc 1 ?s = Inr (4096, ?s\<lparr>bitmap := [3], dbg_g := 10\<rparr>)" using p [of "\<lambda>_. UNUSED"] d(1) by simp
  obtain s1 where s1: "allocproc 0x9000 entry ?s = Inr (Some 0, s1)" and b: "bitmap s1 = [3]" "dbg_g s1 = 10" "ptable_lock s1 = 0"
    using allocproc_eq [OF d(2) u p' nz(1,2)] d(2) by simp
  have u1: "find (\<lambda>j. p_state (ptable s1 j) = UNUSED) [0..<NPROC] = Some 0"
    using u unfolding allocproc_states(4) [OF s1] .
  have "palloc 1 s1 = Inr (8192, s1\<lparr>bitmap := [7], dbg_g := 10\<rparr>)" using b by (simp add: palloc_eval)
  from allocproc_eq [OF b(3) u1 this nz(3,4)] have "\<exists>s2. allocproc 0x9000 e2 s1 = Inr (Some 0, s2)" by blast
  with s1 show "\<exists>s1. allocproc 0x9000 entry ?s = Inr (Some 0, s1) \<and> (\<exists>s2. allocproc 0x9000 e2 s1 = Inr (Some 0, s2))" by blast
qed

text \<open>
  C35 (a new process starts at its entry).  When \<open>startproc\<close> runs a process that \<open>allocproc\<close> has just set up, the switch returns to the label
  \<open>ret\<close> with the stack pointer at the saved registers, and \<open>ret\<close> enters the process at its entry point, in the kernel's code segment,
  with interrupts enabled, on a stack inside the page allocated for it; \<open>MSR_GS\<close> points to it and the lock of the table is held.
\<close>

theorem allocproc_startproc_enters:
  assumes "allocproc ret entry s = Inr (Some p, s1)" and "palloc 1 s = Inr (frame, s0)"
    and "frame_slots (c_rsp (cpu s) - 56) \<inter> {P2V frame + 3960, P2V frame + 4056, P2V frame + 4064, P2V frame + 4072, P2V frame + 4080} = {}"
  shows "\<exists>s2. startproc p s1 = Inr s2 \<and> msr_gs s2 = Some p \<and> p_state (ptable s2 p) = RUNNING \<and> ptable_lock s2 = 1 \<and>
    c_rip (cpu s2) = ret \<and> c_rsp (cpu s2) = p_regs (ptable s2 p) \<and>
    (let c = cpu (ret_to_proc s2) in c_rip c = entry \<and> c_cs c = 0x28 \<and> c_eflags c = 0x202 \<and> c_rsp c = P2V frame + 3400)"
  using assms(1)
proof (cases rule: allocproc_cases)
  case (2 p' frame' bm g)
  then have p: "p' = p" "frame' = frame" using assms(2) by simp_all
  let ?b = "P2V frame" and ?m = "save_frame (cpu s) (mem s1)"
  have s1: "ptable_lock s1 = 0" "cpu s1 = cpu s" "mem s1 = new_mem ?b ret entry (mem s)"
    "ptable s1 p = new_slot ?b (nextpid s + 1) (ptable s p)" using 2 p by simp_all
  have m: "?m (?b + 3960) = ret" "?m (?b + 4056) = entry" "?m (?b + 4064) = 0x28" "?m (?b + 4072) = 0x202" "?m (?b + 4080) = ?b + 3400"
    using assms(3) by (subst save_frame_other; force simp: s1(3) new_mem_def)+
  let ?s1 = "s1\<lparr>ptable_lock := 1, msr_gs := Some p, ptable := (ptable s1)(p := (ptable s1 p)\<lparr>p_state := RUNNING\<rparr>)\<rparr>"
  let ?s2 = "?s1\<lparr>mem := ?m, cpu := load_frame (?b + 3912) ?m (cpu s)\<rparr>"
  have "startproc p s1 = Inr ?s2"
    using s1 by (simp add: startproc_def acq_free set_current_proc_def set_proc_def switc_eq new_slot_def Let_def)
  moreover have "c_rip (cpu ?s2) = ret" "c_rsp (cpu ?s2) = ?b + 3968"
    using m by (simp_all add: load_frame_def add.assoc)
  moreover have "let c = cpu (ret_to_proc ?s2) in c_rip c = entry \<and> c_cs c = 0x28 \<and> c_eflags c = 0x202 \<and> c_rsp c = ?b + 3400"
    using m by (simp add: ret_to_proc_def load_frame_def Let_def add.assoc)
  ultimately show ?thesis using s1(4) by (intro exI [of _ ?s2]) (simp add: new_slot_def)
qed simp

theorem allocproc_startproc_enters_witness:
  "\<exists>s1 s2. allocproc 0x9000 0xa000 (demo_kproc (\<lambda>_. UNUSED)) = Inr (Some 0, s1) \<and> startproc 0 s1 = Inr s2 \<and> c_rip (cpu s2) = 0x9000 \<and>
     c_rip (cpu (ret_to_proc s2)) = 0xa000"
proof -
  obtain s1 where s1: "allocproc 0x9000 0xa000 (demo_kproc (\<lambda>_. UNUSED)) = Inr (Some 0, s1)" using demo_alloc(1) by blast
  have "frame_slots (c_rsp (cpu (demo_kproc (\<lambda>_. UNUSED))) - 56) \<inter>
      {P2V 4096 + 3960, P2V 4096 + 4056, P2V 4096 + 4064, P2V 4096 + 4072, P2V 4096 + 4080} = {}"
    by (simp add: frame_slots_def demo_kproc_def P2V_def HHDM_OFFSET_def)
  from allocproc_startproc_enters [OF s1 demo_alloc(2) this] s1 show ?thesis by (auto simp: Let_def)
qed

theorem switc_roundtrip_witness:
  "\<exists>saved s1 away s3. switc 0x20000 (demo_kproc (\<lambda>_. UNUSED)) = (saved, s1) \<and> c_rsp (cpu s1) = 0x20038 \<and>
     switc saved s1 = (away, s3) \<and> cpu s3 = cpu (demo_kproc (\<lambda>_. UNUSED))"
proof -
  let ?s = "demo_kproc (\<lambda>_. UNUSED)"
  obtain saved s1 where s1: "switc 0x20000 ?s = (saved, s1)" by fastforce
  then have c: "saved = 0x7fc8" "c_rsp (cpu s1) = 0x20038" "c_cs (cpu s1) = 0x28" "c_eflags (cpu s1) = 2"
    by (auto simp: switc_eq load_frame_def demo_kproc_def)
  have "frame_slots saved \<inter> frame_slots (c_rsp (cpu s1) - 56) = {}" unfolding c by (simp add: frame_slots_def)
  from switc_roundtrip [OF s1 refl this] obtain away s3 where
    "switc saved s1 = (away, s3)" "cpu s3 = (cpu ?s)\<lparr>c_cs := 0x28, c_eflags := 2\<rparr>" unfolding c by blast
  moreover have "(cpu ?s)\<lparr>c_cs := 0x28, c_eflags := 2\<rparr> = cpu ?s" by (simp add: demo_kproc_def)
  ultimately show ?thesis using s1 c by auto
qed

end
