(* ===== verification/Ports.thy ===== *)
theory Ports
  imports Cstring Spinlock
begin

section \<open>Ports, the terminal and the interrupt controllers (include/asm/x86.h, kernel/pic.c, kernel.c, time.c, interrupt.c)\<close>

text \<open>
  What the drivers do is what they read from and write to the outside.  The state records it: \<open>io_log\<close> is the sequence of port
  accesses and terminal writes so far, \<open>in_vals k\<close> the value that the \<open>k\<close>-th \<open>in\<close> finds.  The terminal is the boot loader's; \<open>print\<close>
  hands it a string under the global \<open>spinlock\<close>.
\<close>

datatype io_event = In u8 | Out u8 u8 | Term "u8 list"

record ports =
  in_vals :: "nat \<Rightarrow> u8"
  in_count :: nat
  io_log :: "io_event list"
  print_lock :: u32

definition port_out :: "u8 \<Rightarrow> u8 \<Rightarrow> 'a ports_scheme \<Rightarrow> 'a ports_scheme" where
  "port_out port buffer s = s\<lparr>io_log := io_log s @ [Out port buffer]\<rparr>"

definition port_in :: "u8 \<Rightarrow> 'a ports_scheme \<Rightarrow> u8 \<times> 'a ports_scheme" where
  "port_in port s = (in_vals s (in_count s), s\<lparr>in_count := Suc (in_count s), io_log := io_log s @ [In port]\<rparr>)"

definition print :: "u8 list \<Rightarrow> 'a ports_scheme \<Rightarrow> ('a ports_scheme) result" where
  "print str s =
     ebind (acquire (print_lock s)) (\<lambda>l.
     let s = s\<lparr>print_lock := l\<rparr> in
     ebind (strlen str) (\<lambda>n.
     let s = s\<lparr>io_log := io_log s @ [Term (take n str)]\<rparr> in
     Inr (s\<lparr>print_lock := release (print_lock s)\<rparr>)))"

definition printl :: "u8 list \<Rightarrow> nat \<Rightarrow> 'a ports_scheme \<Rightarrow> ('a ports_scheme) result" where
  "printl str len s =
     ebind (acquire (print_lock s)) (\<lambda>l. let s = s\<lparr>print_lock := l\<rparr> in Inr (s\<lparr>print_lock := release (print_lock s)\<rparr>))"

subsection \<open>The interrupt controllers\<close>

definition PIC1_COMMAND :: u8 where "PIC1_COMMAND = 0x20"
definition PIC1_DATA :: u8 where "PIC1_DATA = 0x21"
definition PIC2_COMMAND :: u8 where "PIC2_COMMAND = 0xA0"
definition PIC2_DATA :: u8 where "PIC2_DATA = 0xA1"
definition ICW1 :: u8 where "ICW1 = 0x10"

definition unmask_irq :: "nat \<Rightarrow> 'a ports_scheme \<Rightarrow> 'a ports_scheme" where
  "unmask_irq irq s = (let (imr, s) = port_in 0x21 s; imr = imr XOR push_bit irq 1 in port_out 0x21 imr s)"

definition pic_remap :: "u8 \<Rightarrow> 'a ports_scheme \<Rightarrow> 'a ports_scheme" where
  "pic_remap offset s =
     (let (mask, s) = port_in PIC1_DATA s; (mask2, s) = port_in PIC2_DATA s;
          s = port_out PIC1_COMMAND (ICW1 OR 1) s; s = port_out PIC2_COMMAND (ICW1 OR 1) s;
          s = port_out PIC1_DATA offset s; s = port_out PIC2_DATA offset s;
          s = port_out PIC1_DATA 4 s; s = port_out PIC2_DATA 2 s;
          s = port_out PIC1_DATA 1 s; s = port_out PIC2_DATA 1 s;
          s = port_out PIC1_DATA mask s in port_out PIC2_DATA mask2 s)"

subsection \<open>The interval timer\<close>

text \<open>\<open>hz\<close> is a C \<open>int\<close>; the quotient truncates towards 0 and the two bytes written are its lowest 16 bits.\<close>

definition pit_divisor :: "int \<Rightarrow> int result" where
  "pit_divisor hz = (if hz = 0 then Inl (Panic ''divide error'') else Inr (sgn hz * (1193180 div \<bar>hz\<bar>)))"

definition init_pit :: "int \<Rightarrow> 'a ports_scheme \<Rightarrow> ('a ports_scheme) result" where
  "init_pit hz s =
     ebind (pit_divisor hz) (\<lambda>divisor.
     let s = port_out 0x43 0x34 s; s = port_out 0x40 (of_int (divisor mod 256)) s in
     Inr (port_out 0x40 (of_int (divisor div 256)) s))"

text \<open>\<open>timerh\<close>: the interrupt counts \<open>PIT_COUNTER\<close>, here an argument, down and acknowledges.\<close>

definition timerh :: "u32 \<Rightarrow> 'a ports_scheme \<Rightarrow> u32 \<times> 'a ports_scheme" where
  "timerh pit_counter s = (pit_counter - 1, port_out 0x20 0x20 s)"

text \<open>
  \<open>sleep\<close> stores the time in \<open>PIT_COUNTER\<close> and waits, under the lock of \<open>print\<close>, until the interrupts have counted it down; \<open>n\<close> is the
  number of interrupts that arrive.
\<close>

fun sleep_loop :: "nat \<Rightarrow> u32 \<Rightarrow> 'a ports_scheme \<Rightarrow> (u32 \<times> 'a ports_scheme) result" where
  "sleep_loop 0 c s = (if c > 0 then Inl NoFuel else Inr (c, s))"
| "sleep_loop (Suc n) c s = (if c > 0 then let (c, s) = timerh c s in sleep_loop n c s else Inr (c, s))"

definition sleep :: "nat \<Rightarrow> u32 \<Rightarrow> 'a ports_scheme \<Rightarrow> (u32 \<times> 'a ports_scheme) result" where
  "sleep n us s =
     ebind (acquire (print_lock s)) (\<lambda>l.
     ebind (sleep_loop n us (s\<lparr>print_lock := l\<rparr>)) (\<lambda>(c, s). Inr (c, s\<lparr>print_lock := release (print_lock s)\<rparr>)))"

subsection \<open>What they do\<close>

lemma port_sel [simp]:
  "in_vals (port_out p b s) = in_vals s" "io_log (snd (port_in p s)) = io_log s @ [In p]" "fst (port_in p s) = in_vals s (in_count s)"
  "in_vals (snd (port_in p s)) = in_vals s" "in_count (snd (port_in p s)) = Suc (in_count s)" "in_count (port_out p b s) = in_count s" "print_lock (port_out p b s) = print_lock s"
  "io_log (port_out p b s) = io_log s @ [Out p b]"
  by (simp_all add: port_out_def port_in_def)

lemma unmask_irq_log:
  "io_log (unmask_irq irq s) = io_log s @ [In 0x21, Out 0x21 (in_vals s (in_count s) XOR push_bit irq 1)]"
  "in_count (unmask_irq irq s) = Suc (in_count s)" "in_vals (unmask_irq irq s) = in_vals s"
  by (simp_all add: unmask_irq_def port_in_def Let_def)

text \<open>
  Masks of the interrupt controllers: \<open>pic_remap\<close> reads both masks, programs both controllers and writes the masks back
  last; both controllers get the same vector offset.  \<open>unmask_irq\<close> writes back the mask it read with the bit of the interrupt line
  inverted: a line that was masked gets through, the other seven keep their bits, but a second call masks the line again.
\<close>

lemma pic_masks:
  "(\<exists>ev. io_log (pic_remap offset s) = io_log s @ [In 0x21, In 0xA1] @ ev @ [Out 0x21 (in_vals s (in_count s)), Out 0xA1 (in_vals s (Suc (in_count s)))] \<and>
     {Out 0x21 offset, Out 0xA1 offset} \<subseteq> set ev) \<and>
   (let v = in_vals s (in_count s); w = v XOR push_bit irq 1 in
     io_log (unmask_irq irq s) = io_log s @ [In 0x21, Out 0x21 w] \<and>
     (\<forall>j < 8. bit w j \<longleftrightarrow> bit v j \<noteq> (j = irq)) \<and> w XOR push_bit irq 1 = v)"
proof -
  have "bit (in_vals s (in_count s) XOR push_bit irq 1) j \<longleftrightarrow> bit (in_vals s (in_count s)) j \<noteq> (j = irq)" if "j < 8" for j
    using that by (auto simp: bit_simps)
  moreover have "io_log (pic_remap offset s) = io_log s @ [In 0x21, In 0xA1] @
      [Out 0x20 0x11, Out 0xA0 0x11, Out 0x21 offset, Out 0xA1 offset, Out 0x21 4, Out 0xA1 2, Out 0x21 1, Out 0xA1 1] @
      [Out 0x21 (in_vals s (in_count s)), Out 0xA1 (in_vals s (Suc (in_count s)))]"
    unfolding pic_remap_def PIC1_DATA_def PIC2_DATA_def PIC1_COMMAND_def PIC2_COMMAND_def ICW1_def Let_def split_beta by simp
  moreover have "{Out 0x21 offset, Out 0xA1 offset} \<subseteq>
      set [Out 0x20 0x11, Out 0xA0 0x11, Out 0x21 offset, Out 0xA1 offset, Out 0x21 4, Out 0xA1 2, Out 0x21 1, Out 0xA1 1]"
    unfolding list.set by blast
  ultimately show ?thesis unfolding unmask_irq_log Let_def xor.assoc xor_self_eq xor.right_neutral by blast
qed

lemma sleep_loop_returns:
  "unat c \<le> n \<Longrightarrow> \<exists>s'. sleep_loop n c s = Inr (0, s') \<and> io_log s' = io_log s @ replicate (unat c) (Out 0x20 0x20) \<and> print_lock s' = print_lock s"
proof (induction n arbitrary: c s)
  case (Suc n)
  show ?case
  proof (cases "c = 0")
    case False
    then have u: "unat c = Suc (unat (c - 1))" using unat_minus_one [OF False] unat_gt_0 [of c] by simp
    moreover have "io_log (snd (timerh c s)) = io_log s @ [Out 0x20 0x20]" "print_lock (snd (timerh c s)) = print_lock s" by (simp_all add: timerh_def)
    ultimately show ?thesis using Suc.IH [of "c - 1" "snd (timerh c s)"] Suc.prems False by (auto simp: timerh_def word_gt_0)
  qed simp
qed (simp add: word_gt_0 unat_eq_0)

text \<open>
  Sleeping: \<open>sleep\<close> returns when at least as many timer interrupts arrive as the time asked for, having acknowledged exactly that
  many, and leaves the lock free; while it waits the lock it shares with \<open>print\<close> is held.
\<close>

lemma sleep_returns:
  assumes "print_lock s = 0" and "unat us \<le> n"
  shows "\<exists>s'. sleep n us s = Inr (0, s') \<and> io_log s' = io_log s @ replicate (unat us) (Out 0x20 0x20) \<and> print_lock s' = 0"
proof -
  obtain s' where "sleep_loop n us (s\<lparr>print_lock := 1\<rparr>) = Inr (0, s')" "io_log s' = io_log s @ replicate (unat us) (Out 0x20 0x20)"
    using sleep_loop_returns [OF assms(2), of "s\<lparr>print_lock := 1\<rparr>"] by auto
  then show ?thesis using assms(1) by (simp add: sleep_def acquire_def atomic_exchange_def release_def)
qed

end
