(* ===== verification/Kbd.thy ===== *)
theory Kbd
  imports Ports
begin

section \<open>The keyboard (kernel/kbd.c)\<close>

text \<open>
  The interrupt handler of the PS/2 keyboard as a state machine over the two static variables, and the set-up of the controller
  as the sequence of port accesses it makes.
\<close>

subsection \<open>The handler\<close>

text \<open>The 127 entries of \<open>kbd_us\<close>; those without an initialiser are 0.\<close>

definition kbd_us :: "u8 list" where
  "kbd_us =
     [0, 0, 0, 0, 0, 0, 0, 0, 0, 0, 0, 0, 0, 9, 0, 0] @
     bytes (replicate 5 (CHR 0x00) @ ''q1'' @ replicate 3 (CHR 0x00) @ ''zsaw2'' @ [CHR 0x00]) @
     bytes ([CHR 0x00] @ ''cxde43'' @ replicate 2 (CHR 0x00) @ '' vftr5'' @ [CHR 0x00]) @
     bytes ([CHR 0x00] @ ''nbhgy6'' @ replicate 3 (CHR 0x00) @ ''mju78'' @ [CHR 0x00]) @
     bytes ([CHR 0x00] @ '',kio09'' @ replicate 2 (CHR 0x00) @ ''./l;p-'' @ [CHR 0x00]) @
     bytes (replicate 4 (CHR 0x00) @ ''[='' @ replicate 4 (CHR 0x00)) @ [10] @ replicate 36 0"

text \<open>
  The table is indexed with the key code before the code is looked at, and codes reach 255: \<open>behind\<close> is what lies in memory
  after the table.
\<close>

record kbd = ports +
  key_release :: u8
  kbd_flags :: u8
  behind :: "nat \<Rightarrow> u8"

definition kbd_us_at :: "u8 \<Rightarrow> kbd \<Rightarrow> u8" where
  "kbd_us_at c s = (if unat c < length kbd_us then kbd_us ! unat c else behind s (unat c))"

definition print_char :: "u8 \<Rightarrow> u8 \<Rightarrow> kbd \<Rightarrow> kbd result" where
  "print_char ch flags s =
     (let ch = (if flags AND 1 \<noteq> 0 \<or> flags AND 2 \<noteq> 0 then ch - 32 else ch) in print [ch, 0] s)"

definition kbd_press :: "kbd \<Rightarrow> kbd result" where
  "kbd_press s =
     (let (keycode, s) = port_in 0x60 s; character = kbd_us_at keycode s;
          s = (if keycode = 0xF0 then s\<lparr>key_release := 1\<rparr> else s);
          s = (if keycode = 0x12 then s\<lparr>kbd_flags := kbd_flags s XOR 2\<rparr> else s) in
      ebind (if key_release s = 0
             then if keycode = 0x58 then Inr (s\<lparr>kbd_flags := kbd_flags s XOR 1\<rparr>)
                  else if keycode \<noteq> 0x12 then print_char character (kbd_flags s) s else Inr s
             else Inr s) (\<lambda>s.
      let s = (if keycode \<noteq> 0xF0 \<and> key_release s \<noteq> 0 then s\<lparr>key_release := 0\<rparr> else s) in
      Inr (port_out 0x20 0x20 s)))"

subsection \<open>Setting up the controller\<close>

definition setconfb :: "u8 \<Rightarrow> kbd \<Rightarrow> kbd" where
  "setconfb config s = (let s = port_out 0x64 0x60 s; (buffer, s) = port_in 0x64 s in port_out 0x60 config s)"

definition getconfb :: "kbd \<Rightarrow> u8 \<times> kbd" where
  "getconfb s = (let s = port_out 0x64 0x20 s; (buffer, s) = port_in 0x64 s in port_in 0x60 s)"

definition getscancode :: "kbd \<Rightarrow> u8 \<times> kbd" where
  "getscancode s =
     (let s = port_out 0x60 0xF0 s; (buffer, s) = port_in 0x60 s; s = port_out 0x60 0 s; (buffer, s) = port_in 0x60 s in port_in 0x60 s)"

definition gettype :: "kbd \<Rightarrow> u8 \<times> kbd" where
  "gettype s =
     (let s = port_out 0x60 0xF5 s; (buffer, s) = port_in 0x60 s; s = port_out 0x60 0xF2 s; (buffer, s) = port_in 0x60 s in port_in 0x60 s)"

definition testps2port :: "u8 \<Rightarrow> kbd \<Rightarrow> kbd result" where
  "testps2port port s =
     (let s = (if port = 1 then port_out 0x64 0xAB s else port_out 0x64 0xA9 s); (buffer, s) = port_in 0x64 s; (buffer, s) = port_in 0x60 s in
      if buffer \<noteq> 0 then Inl (Panic ''ERROR: testps2port'') else Inr s)"

definition testps2control :: "kbd \<Rightarrow> kbd result" where
  "testps2control s =
     (let s = port_out 0x64 0xAA s; (buffer, s) = port_in 0x64 s; (buffer, s) = port_in 0x60 s in
      if buffer \<noteq> 0x55 then Inl (Panic ''ERROR: testps2control'') else Inr s)"

definition disdev :: "kbd \<Rightarrow> kbd" where
  "disdev s = (let s = port_out 0x64 0xAD s in port_out 0x64 0xA7 s)"

text \<open>The result is a \<open>uint8_t\<close>; \<open>iapc_boot_arch\<close> is the field of the FADT.\<close>

definition check_ps2 :: "u16 \<Rightarrow> u8" where
  "check_ps2 iapc_boot_arch = ucast (iapc_boot_arch AND push_bit 1 1)"

definition init_kbd :: "u16 \<Rightarrow> kbd \<Rightarrow> kbd" where
  "init_kbd iapc_boot_arch s =
     (if check_ps2 iapc_boot_arch = 0 then s
      else
        let s = disdev s; (_, s) = port_in 0x60 s; (config, s) = getconfb s; s = setconfb (config AND 0x3c) s;
            (buffer, s) = gettype s; (buffer, s) = getscancode s; (config, s) = getconfb s; s = setconfb (config OR 3) s;
            s = port_out 0x60 0xF4 s in port_out 0x64 0xAE s)"

subsection \<open>Keys\<close>

text \<open>The handler run once for each code that arrives; the codes are what the next \<open>in\<close>s find.\<close>

fun keys :: "u8 list \<Rightarrow> kbd \<Rightarrow> kbd result" where
  "keys [] s = Inr s"
| "keys (c # cs) s = (if in_vals s (in_count s) = c then ebind (kbd_press s) (keys cs) else Inl BadAccess)"

lemma kbd_us_length: "length kbd_us = 127"
  by (simp add: kbd_us_def bytes_def)

text \<open>What the terminal shows for a key under the two flags.\<close>

definition shown :: "u8 \<Rightarrow> u8 \<Rightarrow> u8" where
  "shown c flags = (if flags AND 1 \<noteq> 0 \<or> flags AND 2 \<noteq> 0 then c - 32 else c)"

lemma strlen_char: "strlen [c, 0] = Inr 1"
  unfolding strlen_def by (subst strlen_loop.simps) (simp add: rd_def)

lemma print_char_eq:
  "print_lock s = 0 \<Longrightarrow> print_char c f s = Inr (s\<lparr>io_log := io_log s @ [Term [shown c f]]\<rparr>)"
  by (simp add: print_char_def print_def shown_def acquire_def atomic_exchange_def release_def strlen_char Let_def)

text \<open>One run of the handler, by what arrives.\<close>

lemma kbd_press_cases:
  assumes "in_vals s (in_count s) = c"
  shows "c = 0xF0 \<Longrightarrow> kbd_press s = Inr (s\<lparr>in_count := Suc (in_count s), io_log := io_log s @ [In 0x60, Out 0x20 0x20], key_release := 1\<rparr>)"
    and "c \<noteq> 0xF0 \<Longrightarrow> key_release s \<noteq> 0 \<Longrightarrow> kbd_press s = Inr (s\<lparr>in_count := Suc (in_count s), io_log := io_log s @ [In 0x60, Out 0x20 0x20],
      key_release := 0, kbd_flags := kbd_flags s XOR (if c = 0x12 then 2 else 0)\<rparr>)"
    and "key_release s = 0 \<Longrightarrow> c = 0x12 \<or> c = 0x58 \<Longrightarrow> kbd_press s = Inr (s\<lparr>in_count := Suc (in_count s), io_log := io_log s @ [In 0x60, Out 0x20 0x20],
      kbd_flags := kbd_flags s XOR (if c = 0x12 then 2 else 1)\<rparr>)"
    and "key_release s = 0 \<Longrightarrow> c \<notin> {0xF0, 0x12, 0x58} \<Longrightarrow> print_lock s = 0 \<Longrightarrow> kbd_press s = Inr (s\<lparr>in_count := Suc (in_count s),
      io_log := io_log s @ [In 0x60, Term [shown (kbd_us_at c s) (kbd_flags s)], Out 0x20 0x20]\<rparr>)"
  using assms by (auto simp: kbd_press_def port_in_def port_out_def print_char_eq kbd_us_at_def Let_def)

definition arrives :: "u8 list \<Rightarrow> kbd \<Rightarrow> bool" where
  "arrives cs s \<longleftrightarrow> (\<forall>i < length cs. in_vals s (in_count s + i) = cs ! i)"

lemma arrives_Cons: "arrives (c # cs) s \<longleftrightarrow> in_vals s (in_count s) = c \<and> arrives cs (s\<lparr>in_count := Suc (in_count s)\<rparr>)"
  unfolding arrives_def by (auto simp: less_Suc_eq_0_disj)

definition terms :: "kbd \<Rightarrow> u8 list list" where
  "terms s = concat (map (\<lambda>e. case e of Term t \<Rightarrow> [t] | _ \<Rightarrow> []) (io_log s))"

text \<open>
  Typing: Pressing and releasing an ordinary key writes its character once, in upper case exactly if one of the flags is
  set, and leaves the flags and the release state as they were.  The same inside a pressed and released shift key writes the character
  under the inverted shift flag and leaves the flags as they were.  Pressing and releasing caps lock writes nothing and inverts its flag.
\<close>

lemma kbd_typing:
  assumes "key_release s = 0" and "print_lock s = 0" and "unat c < 127" "c \<notin> {0x12, 0x58}"
  shows "(arrives [c, 0xF0, c] s \<longrightarrow> (\<exists>s'. keys [c, 0xF0, c] s = Inr s' \<and> terms s' = terms s @ [[shown (kbd_us ! unat c) (kbd_flags s)]] \<and>
      kbd_flags s' = kbd_flags s \<and> key_release s' = 0)) \<and>
    (arrives [0x12, c, 0xF0, c, 0xF0, 0x12] s \<longrightarrow> (\<exists>s'. keys [0x12, c, 0xF0, c, 0xF0, 0x12] s = Inr s' \<and>
      terms s' = terms s @ [[shown (kbd_us ! unat c) (kbd_flags s XOR 2)]] \<and> kbd_flags s' = kbd_flags s \<and> key_release s' = 0)) \<and>
    (arrives [0x58, 0xF0, 0x58] s \<longrightarrow> (\<exists>s'. keys [0x58, 0xF0, 0x58] s = Inr s' \<and> terms s' = terms s \<and>
      kbd_flags s' = kbd_flags s XOR 1 \<and> key_release s' = 0))"
proof (intro conjI impI)
  have F0: "c \<noteq> 0xF0" using assms(3) by auto
  note ev = kbd_press_cases [OF refl] kbd_us_at_def kbd_us_length terms_def
  show "\<exists>s'. keys [c, 0xF0, c] s = Inr s' \<and> terms s' = terms s @ [[shown (kbd_us ! unat c) (kbd_flags s)]] \<and>
      kbd_flags s' = kbd_flags s \<and> key_release s' = 0" if "arrives [c, 0xF0, c] s"
  proof -
    have "in_vals s (in_count s) = c" "in_vals s (Suc (in_count s)) = 0xF0" "in_vals s (Suc (Suc (in_count s))) = c"
      using that by (simp_all add: arrives_Cons)
    then show ?thesis using assms F0 by (simp add: ev)
  qed
  show "\<exists>s'. keys [0x12, c, 0xF0, c, 0xF0, 0x12] s = Inr s' \<and>
      terms s' = terms s @ [[shown (kbd_us ! unat c) (kbd_flags s XOR 2)]] \<and> kbd_flags s' = kbd_flags s \<and> key_release s' = 0"
    if "arrives [0x12, c, 0xF0, c, 0xF0, 0x12] s"
  proof -
    have "in_vals s (in_count s) = 0x12" "in_vals s (Suc (in_count s)) = c" "in_vals s (Suc (Suc (in_count s))) = 0xF0"
      "in_vals s (Suc (Suc (Suc (in_count s)))) = c" "in_vals s (Suc (Suc (Suc (Suc (in_count s))))) = 0xF0"
      "in_vals s (Suc (Suc (Suc (Suc (Suc (in_count s)))))) = 0x12"
      using that by (simp_all add: arrives_Cons)
    then show ?thesis using assms F0 by (simp add: ev xor.assoc)
  qed
  show "\<exists>s'. keys [0x58, 0xF0, 0x58] s = Inr s' \<and> terms s' = terms s \<and> kbd_flags s' = kbd_flags s XOR 1 \<and> key_release s' = 0"
    if "arrives [0x58, 0xF0, 0x58] s"
  proof -
    have "in_vals s (in_count s) = 0x58" "in_vals s (Suc (in_count s)) = 0xF0" "in_vals s (Suc (Suc (in_count s))) = 0x58"
      using that by (simp_all add: arrives_Cons)
    then show ?thesis using assms by (simp add: ev)
  qed
qed

end
