(* ===== verification/Descriptors.thy ===== *)
theory Descriptors
  imports Kbd Mmu
begin

section \<open>Descriptor tables (kernel/idt.c, interrupt.c, gdt.c)\<close>

text \<open>
  The interrupt descriptor table as 256 entries, the global descriptor table as the bytes of its page.  The addresses of the stubs in
  \<^verbatim>\<open>isr.asm\<close> come from the linker and are arguments.
\<close>

subsection \<open>Interrupt gates\<close>

record idt_entry =
  isr_low :: u16
  selector :: u16
  ist :: u8
  attributes :: u8
  isr_mid :: u16
  isr_high :: u32
  idt_zero :: u32

record isr_addrs =
  isr_table :: "nat \<Rightarrow> u64"
  isr_kbd :: u64
  isr_apic_timer :: u64
  isr_timer :: u64
  spurious :: u64
  isr_syscall :: u64

record irqs = kbd +
  idt :: "nat \<Rightarrow> idt_entry"
  idtr_size :: u16

definition set_idt_entry :: "u8 \<Rightarrow> u64 \<Rightarrow> u8 \<Rightarrow> (nat \<Rightarrow> idt_entry) \<Rightarrow> nat \<Rightarrow> idt_entry" where
  "set_idt_entry vector isr flags t = t(unat vector :=
     \<lparr>isr_low = ucast isr, selector = push_bit 3 5, ist = 0, attributes = flags, isr_mid = ucast (drop_bit 16 isr),
      isr_high = ucast (drop_bit 32 isr), idt_zero = 0\<rparr>)"

definition new_irq :: "u8 \<Rightarrow> u64 \<Rightarrow> (nat \<Rightarrow> idt_entry) \<Rightarrow> nat \<Rightarrow> idt_entry" where
  "new_irq vector isr t = set_idt_entry vector isr 0x8E t"

text \<open>\<open>for (uint8_t vector = 0; vector < 32; vector++)\<close>\<close>

fun idt_loop :: "isr_addrs \<Rightarrow> nat \<Rightarrow> nat \<Rightarrow> (nat \<Rightarrow> idt_entry) \<Rightarrow> nat \<Rightarrow> idt_entry" where
  "idt_loop a v 0 t = t"
| "idt_loop a v (Suc n) t = idt_loop a (Suc v) n (set_idt_entry (of_nat v) (isr_table a v) 0x8E t)"

definition init_idt :: "isr_addrs \<Rightarrow> irqs \<Rightarrow> irqs" where
  "init_idt a s = s\<lparr>idtr_size := 16 * 256 - 1, idt := idt_loop a 0 32 (idt s)\<rparr>"

definition kbd_part :: "(kbd \<Rightarrow> kbd) \<Rightarrow> irqs \<Rightarrow> irqs" where
  "kbd_part f s = kbd.extend (f (kbd.truncate s)) (irqs.fields (idt s) (idtr_size s))"

definition init_interrupt :: "isr_addrs \<Rightarrow> u16 \<Rightarrow> irqs \<Rightarrow> irqs" where
  "init_interrupt a iapc_boot_arch s =
     (let s = init_idt a s; s = pic_remap 0x20 s;
          s = s\<lparr>idt := new_irq 33 (isr_kbd a) (idt s)\<rparr>; s = s\<lparr>idt := new_irq 34 (isr_apic_timer a) (idt s)\<rparr>;
          s = s\<lparr>idt := new_irq 32 (isr_timer a) (idt s)\<rparr>; s = s\<lparr>idt := new_irq 255 (spurious a) (idt s)\<rparr>;
          s = s\<lparr>idt := new_irq 69 (isr_syscall a) (idt s)\<rparr>; s = s\<lparr>idt := set_idt_entry 69 (isr_syscall a) 0xEE (idt s)\<rparr>;
          s = unmask_irq 1 s; s = unmask_irq 0 s in
      kbd_part (init_kbd iapc_boot_arch) s)"

text \<open>What \<open>trap\<close> calls for an interrupt number.\<close>

datatype trap_call = TrapError | Syscall | TimerH | KbdPress | ApicTimer | NoCall

definition trap :: "u64 \<Rightarrow> trap_call" where
  "trap code =
     (if code < 32 then TrapError
      else if code = 69 then Syscall else if code = 32 then TimerH else if code = 33 then KbdPress
      else if code = 34 then ApicTimer else NoCall)"

text \<open>The address that the CPU takes from a gate.\<close>

definition gate_target :: "idt_entry \<Rightarrow> u64" where
  "gate_target e = ucast (isr_low e) OR push_bit 16 (ucast (isr_mid e)) OR push_bit 32 (ucast (isr_high e))"

lemma set_idt_entry_target: "gate_target (set_idt_entry v isr f t (unat v)) = isr"
proof (rule bit_word_eqI)
  fix n assume "n < LENGTH(64)"
  then show "bit (gate_target (set_idt_entry v isr f t (unat v))) n \<longleftrightarrow> bit isr n"
    by (cases "n < 16"; cases "n < 32") (auto simp: gate_target_def set_idt_entry_def bit_simps)
qed

lemma set_idt_entry_other: "j \<noteq> unat v \<Longrightarrow> set_idt_entry v isr f t j = t j"
  by (simp add: set_idt_entry_def)

lemma set_idt_entry_attr: "attributes (set_idt_entry v isr f t (unat v)) = f" "selector (set_idt_entry v isr f t (unat v)) = 0x28"
  by (simp_all add: set_idt_entry_def)

lemma idt_loop_spec:
  "v + n \<le> 256 \<Longrightarrow> idt_loop a v n t j = (if v \<le> j \<and> j < v + n then set_idt_entry (of_nat j) (isr_table a j) 0x8E t j else t j)"
proof (induction n arbitrary: v t)
  case (Suc n)
  have "unat (of_nat v :: u8) = v" using Suc.prems by (simp add: unat_of_nat)
  then show ?case using Suc by (auto simp: set_idt_entry_def unat_of_nat)
qed auto

lemma kbd_part_idt [simp]: "idt (kbd_part f s) = idt s"
  by (simp add: kbd_part_def kbd.defs irqs.defs)


definition demo_isrs :: isr_addrs where
  "demo_isrs = \<lparr>isr_table = (\<lambda>v. 0xffffffff80001000 + 16 * of_nat v), isr_kbd = 0xffffffff80002000, isr_apic_timer = 0xffffffff80002010,
     isr_timer = 0xffffffff80002020, spurious = 0xffffffff80002030, isr_syscall = 0xffffffff80002040\<rparr>"


subsection \<open>Segments\<close>

text \<open>\<open>struct gdtdesc\<close>; the two bit fields share a byte.\<close>

record gdtdesc =
  segment_limit :: u16
  base_addr :: "u8 list"
  attributes_1 :: u8
  segment_limit2 :: u8
  attributes_2 :: u8
  base_addr2 :: u8

definition gdt_bytes :: "gdtdesc \<Rightarrow> u8 list" where
  "gdt_bytes d = [ucast (segment_limit d), ucast (drop_bit 8 (segment_limit d))] @ take 3 (base_addr d) @
     [attributes_1 d, (segment_limit2 d AND 15) OR push_bit 4 (attributes_2 d AND 15), base_addr2 d]"

definition put_bytes :: "nat \<Rightarrow> u8 list \<Rightarrow> u8 list \<Rightarrow> u8 list" where
  "put_bytes off bs g = take off g @ bs @ drop (off + length bs) g"

record gdt_state =
  gdt :: "u8 list"
  gdt_index :: u8
  tr :: u16

definition zero_desc :: gdtdesc where
  "zero_desc = \<lparr>segment_limit = 0, base_addr = [0, 0, 0], attributes_1 = 0, segment_limit2 = 0, attributes_2 = 0, base_addr2 = 0\<rparr>"

definition user_data :: gdtdesc where
  "user_data = zero_desc\<lparr>attributes_1 := 2 OR push_bit 5 3 OR push_bit 7 1 OR push_bit 4 1, attributes_2 := 0\<rparr>"

definition user_code :: gdtdesc where
  "user_code = zero_desc\<lparr>attributes_1 := 8 OR push_bit 5 3 OR push_bit 7 1 OR push_bit 4 1, attributes_2 := 2\<rparr>"

text \<open>\<open>alloc_tss\<close>: \<open>tss\<close> is the address of a variable on the stack of \<open>alloc_tss\<close> itself.\<close>

definition alloc_tss :: "u64 \<Rightarrow> gdtdesc \<times> u32" where
  "alloc_tss tss = (\<lparr>segment_limit = 0x67, base_addr = [ucast tss, ucast (drop_bit 8 tss), ucast (drop_bit 16 tss)],
     attributes_1 = 9 OR push_bit 7 1, segment_limit2 = 0, attributes_2 = 0, base_addr2 = 0\<rparr>, ucast (drop_bit 32 tss))"

definition word_bytes :: "u32 \<Rightarrow> u8 list" where
  "word_bytes w = [ucast w, ucast (drop_bit 8 w), ucast (drop_bit 16 w), ucast (drop_bit 24 w)]"

definition init_tss :: "u64 \<Rightarrow> gdt_state \<Rightarrow> u16 \<times> gdt_state" where
  "init_tss tss s =
     (let i = gdt_index s + 1; (d, high) = alloc_tss tss in
      (push_bit 3 (ucast i), s\<lparr>gdt_index := i, gdt := put_bytes (8 * unat i) (gdt_bytes d @ word_bytes high) (gdt s)\<rparr>))"

text \<open>
  \<open>init_gdt\<close> on a new page with the bytes \<open>page\<close> and the boot loader's table \<open>old\<close>, whose register holds the limit \<open>lim\<close>.
\<close>

definition init_gdt :: "u8 list \<Rightarrow> u8 list \<Rightarrow> u16 \<Rightarrow> u64 \<Rightarrow> gdt_state \<Rightarrow> gdt_state result" where
  "init_gdt page old lim tss s =
     ebind (memset page 0 4096) (\<lambda>g.
     ebind (memcpy g old (unat lim)) (\<lambda>g.
     let i = ucast (lim div 8) + 1; g = put_bytes (8 * unat i) (gdt_bytes user_data) g;
         i = i + 1; g = put_bytes (8 * unat i) (gdt_bytes user_code) g;
         (t, s) = init_tss tss (s\<lparr>gdt := g, gdt_index := i\<rparr>) in
     Inr (s\<lparr>tr := t\<rparr>)))"

text \<open>\<open>load_tss\<close> writes the members of descriptor 9 one by one, all but \<open>base_addr2\<close>.\<close>

definition load_tss :: "u64 \<Rightarrow> u8 list \<Rightarrow> u8 list" where
  "load_tss addr g =
     put_bytes 80 (word_bytes (ucast (drop_bit 32 addr)))
       (put_bytes 72 [0x67, 0, ucast addr, ucast (drop_bit 8 addr), ucast (drop_bit 16 addr), 9 OR push_bit 7 1, 0] g)"

text \<open>The base address the CPU reads from a 64-bit task state descriptor at byte \<open>off\<close>.\<close>

definition tss_base :: "nat \<Rightarrow> u8 list \<Rightarrow> u64" where
  "tss_base off g = ucast (g ! (off + 2)) OR push_bit 8 (ucast (g ! (off + 3))) OR push_bit 16 (ucast (g ! (off + 4))) OR
     push_bit 24 (ucast (g ! (off + 7))) OR push_bit 32 (ucast (g ! (off + 8))) OR push_bit 40 (ucast (g ! (off + 9))) OR
     push_bit 48 (ucast (g ! (off + 10))) OR push_bit 56 (ucast (g ! (off + 11)))"

lemma length_put_bytes [simp]: "off + length bs \<le> length g \<Longrightarrow> length (put_bytes off bs g) = length g"
  by (simp add: put_bytes_def)

lemma nth_put_bytes:
  "off + length bs \<le> length g \<Longrightarrow> i < length g \<Longrightarrow>
     put_bytes off bs g ! i = (if off \<le> i \<and> i < off + length bs then bs ! (i - off) else g ! i)"
  by (auto simp: put_bytes_def nth_append)

lemma gdt_bytes_length: "length (base_addr d) = 3 \<Longrightarrow> length (gdt_bytes d) = 8"
  by (simp add: gdt_bytes_def)

lemma bit_tss_base:
  assumes "m < 64"
  shows "bit (tss_base off g) m \<longleftrightarrow>
    (if m < 8 then bit (g ! (off + 2)) m else if m < 16 then bit (g ! (off + 3)) (m - 8) else if m < 24 then bit (g ! (off + 4)) (m - 16)
     else if m < 32 then bit (g ! (off + 7)) (m - 24) else if m < 40 then bit (g ! (off + 8)) (m - 32)
     else if m < 48 then bit (g ! (off + 9)) (m - 40) else if m < 56 then bit (g ! (off + 10)) (m - 48) else bit (g ! (off + 11)) (m - 56))"
proof -
  have byt: "bit (push_bit k (ucast (x :: u8)) :: u64) m \<longleftrightarrow> k \<le> m \<and> m < k + 8 \<and> bit x (m - k)" for k x
    using assms by (auto simp: bit_simps dest: bit_imp_le_length)
  have lo: "bit (ucast (x :: u8) :: u64) m \<longleftrightarrow> m < 8 \<and> bit x m" for x
    using assms by (auto simp: bit_simps dest: bit_imp_le_length)
  have e: "bit (tss_base off g) m \<longleftrightarrow> m < 8 \<and> bit (g ! (off + 2)) m \<or> 8 \<le> m \<and> m < 8 + 8 \<and> bit (g ! (off + 3)) (m - 8) \<or>
      16 \<le> m \<and> m < 16 + 8 \<and> bit (g ! (off + 4)) (m - 16) \<or> 24 \<le> m \<and> m < 24 + 8 \<and> bit (g ! (off + 7)) (m - 24) \<or>
      32 \<le> m \<and> m < 32 + 8 \<and> bit (g ! (off + 8)) (m - 32) \<or> 40 \<le> m \<and> m < 40 + 8 \<and> bit (g ! (off + 9)) (m - 40) \<or>
      48 \<le> m \<and> m < 48 + 8 \<and> bit (g ! (off + 10)) (m - 48) \<or> 56 \<le> m \<and> m < 56 + 8 \<and> bit (g ! (off + 11)) (m - 56)"
    unfolding tss_base_def bit_or_iff byt lo by (rule refl)
  show ?thesis
    unfolding e using assms by (cases "m < 8"; cases "m < 16"; cases "m < 24"; cases "m < 32"; cases "m < 40"; cases "m < 48"; cases "m < 56"; simp)
qed

text \<open>
  Task state descriptor: After \<open>load_tss(addr)\<close> the CPU finds at descriptor 9 the address with bits 24 to 31 replaced by whatever the
  byte \<open>base_addr2\<close> of the descriptor held before: the base is right exactly if that byte happens to agree.
\<close>

lemma load_tss_base:
  assumes "84 \<le> length g"
  shows "(\<forall>n < 64. bit (tss_base 72 (load_tss addr g)) n \<longleftrightarrow> (if 24 \<le> n \<and> n < 32 then bit (g ! 79) (n - 24) else bit addr n)) \<and>
    (tss_base 72 (load_tss addr g) = addr \<longleftrightarrow> g ! 79 = ucast (drop_bit 24 addr))"
proof -
  let ?g = "load_tss addr g"
  have nth: "?g ! i = (if 80 \<le> i \<and> i < 84 then word_bytes (ucast (drop_bit 32 addr)) ! (i - 80)
      else if 72 \<le> i \<and> i < 79 then [0x67, 0, ucast addr, ucast (drop_bit 8 addr), ucast (drop_bit 16 addr), 9 OR push_bit 7 1, 0] ! (i - 72)
      else g ! i)" if "i < 84" for i
    using that assms by (simp add: load_tss_def nth_put_bytes word_bytes_def)
  have n: "?g ! 74 = ucast addr" "?g ! 75 = ucast (drop_bit 8 addr)" "?g ! 76 = ucast (drop_bit 16 addr)" "?g ! 79 = g ! 79"
    "?g ! 80 = ucast (ucast (drop_bit 32 addr) :: u32)" "?g ! 81 = ucast (drop_bit 8 (ucast (drop_bit 32 addr) :: u32))"
    "?g ! 82 = ucast (drop_bit 16 (ucast (drop_bit 32 addr) :: u32))" "?g ! 83 = ucast (drop_bit 24 (ucast (drop_bit 32 addr) :: u32))"
    by (simp_all add: nth word_bytes_def)
  have b: "bit (tss_base 72 ?g) m \<longleftrightarrow> (if 24 \<le> m \<and> m < 32 then bit (g ! 79) (m - 24) else bit addr m)" if "m < 64" for m
  proof -
    have A: "bit (ucast (drop_bit k addr) :: u8) (m - k) = bit addr m" if "k \<le> m" "m < k + 8" for k
      using that by (auto simp: bit_simps)
    have B: "bit (ucast (drop_bit k (ucast (drop_bit 32 addr) :: u32)) :: u8) (m - (k + 32)) = bit addr m"
      if "k + 32 \<le> m" "m < k + 32 + 8" for k
    proof -
      have "32 + (k + (m - (k + 32))) = m" "m - (k + 32) < 8" "k + (m - (k + 32)) < 32" using that \<open>m < 64\<close> by auto
      then show ?thesis by (simp add: bit_simps)
    qed
    show ?thesis
      using A [of 0] A [of 8] A [of 16] B [of 0] B [of 8] B [of 16] B [of 24] that
      unfolding bit_tss_base [OF that] by (simp add: n split: if_split)
  qed
  have "g ! 79 = ucast (drop_bit 24 addr)" if e: "tss_base 72 ?g = addr"
  proof (rule bit_word_eqI)
    fix m assume "m < LENGTH(8)"
    then show "bit (g ! 79) m \<longleftrightarrow> bit (ucast (drop_bit 24 addr) :: u8) m" using b [of "m + 24"] e by (simp add: bit_simps add.commute)
  qed
  moreover have "tss_base 72 ?g = addr" if e: "g ! 79 = ucast (drop_bit 24 addr)"
    by (rule bit_word_eqI) (auto simp: b e bit_simps)
  ultimately show ?thesis using b by blast
qed

end
