(* ===== verification/Byte_Memory.thy ===== *)
theory Byte_Memory
  imports Kernel_Prelude
begin

section \<open>Memory as bytes\<close>

text \<open>
  Where the code works on bytes at any address, memory is a function from addresses to bytes; words lie in it with the lowest
  byte first, and addresses wrap at 64 bits.
\<close>

type_synonym bytemem = "u64 \<Rightarrow> u8"

fun put_mem :: "u64 \<Rightarrow> u8 list \<Rightarrow> bytemem \<Rightarrow> bytemem" where
  "put_mem a [] m = m"
| "put_mem a (b # bs) m = put_mem (a + 1) bs (m(a := b))"

definition bytes_at :: "bytemem \<Rightarrow> u64 \<Rightarrow> nat \<Rightarrow> u8 list" where
  "bytes_at m a n = map (\<lambda>i. m (a + of_nat i)) [0..<n]"

definition le64 :: "u64 \<Rightarrow> u8 list" where
  "le64 w = map (\<lambda>i. ucast (drop_bit (8 * i) w)) [0..<8]"

definition store64 :: "u64 \<Rightarrow> u64 \<Rightarrow> bytemem \<Rightarrow> bytemem" where
  "store64 a w m = put_mem a (le64 w) m"

definition load32 :: "bytemem \<Rightarrow> u64 \<Rightarrow> u32" where
  "load32 m a = ucast (m a) OR push_bit 8 (ucast (m (a + 1))) OR push_bit 16 (ucast (m (a + 2))) OR push_bit 24 (ucast (m (a + 3)))"

lemma length_bytes_at [simp]: "length (bytes_at m a n) = n"
  by (simp add: bytes_at_def)

lemma length_le64 [simp]: "length (le64 w) = 8"
  by (simp add: le64_def)

lemma nth_bytes_at [simp]: "i < n \<Longrightarrow> bytes_at m a n ! i = m (a + of_nat i)"
  by (simp add: bytes_at_def)

lemma put_mem_nth:
  "length bs \<le> 2 ^ 64 \<Longrightarrow> put_mem a bs m x = (if unat (x - a) < length bs then bs ! unat (x - a) else m x)"
proof (induction bs arbitrary: a m)
  case (Cons b bs)
  show ?case
  proof (cases "x = a")
    case True
    have "unat (x - (a + 1)) = 2 ^ 64 - 1" using True by (simp add: unsigned_minus_1_eq_mask mask_eq_exp_minus_1)
    then show ?thesis using Cons True by simp
  next
    case False
    then have "x - a \<noteq> 0" by simp
    then have "unat (x - a) = Suc (unat (x - (a + 1)))" using unat_minus_one [of "x - a"] unat_gt_0 [of "x - a"] by (simp add: diff_diff_eq)
    then show ?thesis using Cons False by simp
  qed
qed simp

lemma put_mem_at: "length bs \<le> 2 ^ 64 \<Longrightarrow> i < 2 ^ 64 \<Longrightarrow> put_mem a bs m (a + of_nat i) = (if i < length bs then bs ! i else m (a + of_nat i))"
  by (simp add: put_mem_nth unat_of_nat)

lemma bytes_at_append: "bytes_at m a (k + n) = bytes_at m a k @ bytes_at m (a + of_nat k) n"
  by (rule nth_equalityI) (auto simp: nth_append of_nat_diff algebra_simps)

lemma put_mem_append: "put_mem b (xs @ ys) k = put_mem (b + of_nat (length xs)) ys (put_mem b xs k)"
  by (induction xs arbitrary: b k) (simp_all add: add.assoc)

lemma unat_minus_of_nat: "k \<le> unat (y :: u64) \<Longrightarrow> unat (y - of_nat k) = unat y - k"
proof -
  assume k: "k \<le> unat y"
  then have "unat (of_nat k :: u64) = k" using unsigned_less [of y, where ?'a = nat] by (simp add: unat_of_nat)
  then show ?thesis using k by (simp add: unat_sub word_le_nat_alt)
qed

end
