(* ===== verification/Exec_Args.thy ===== *)
theory Exec_Args
  imports Cstring Byte_Memory
begin

section \<open>The initial stack of a program (copyargs of kernel/proc.c)\<close>

text \<open>
  \<open>copyargs\<close> writes the argument strings and below them the words a program expects on its stack.  The strings have any length and the
  words follow them without padding, so memory is a function from addresses to bytes here; addresses wrap at 64 bits.
\<close>

subsection \<open>The function\<close>

record auxval =
  at_entry :: u64
  at_phdr :: u64
  at_phent :: u64
  at_phnum :: u64

text \<open>The types of auxiliary values, from the ELF ABI.\<close>

definition AT_PHDR :: u64 where "AT_PHDR = 3"
definition AT_PHENT :: u64 where "AT_PHENT = 4"
definition AT_PHNUM :: u64 where "AT_PHNUM = 5"
definition AT_ENTRY :: u64 where "AT_ENTRY = 9"

text \<open>The first loop; \<open>argv\<close> is the list of the strings in front of the null pointer.\<close>

fun copy_strings :: "u64 \<Rightarrow> u8 list list \<Rightarrow> bytemem \<Rightarrow> (u64 \<times> bytemem) result" where
  "copy_strings stack [] m = Inr (stack, m)"
| "copy_strings stack (a # argv) m =
     ebind (strlen a) (\<lambda>length.
     let stack = stack - of_nat length - 1 in
     ebind (strcpy (bytes_at m stack (length + 1)) a) (\<lambda>bs. copy_strings stack argv (put_mem stack bs m)))"

text \<open>The second loop, from index \<open>i\<close> on.\<close>

fun store_ptrs :: "u64 \<Rightarrow> nat \<Rightarrow> u8 list list \<Rightarrow> u64 \<Rightarrow> bytemem \<Rightarrow> bytemem result" where
  "store_ptrs stack i [] oldrsp m = Inr m"
| "store_ptrs stack i (a # argv) oldrsp m =
     ebind (strlen a) (\<lambda>length.
     let oldrsp = oldrsp - (of_nat length + 1) in
     store_ptrs stack (i + 1) argv oldrsp (store64 (stack + 8 * of_nat i) oldrsp m))"

text \<open>The statement with the comma stores one zero word and then moves the stack pointer once more without a store.\<close>

definition copyargs :: "u64 \<Rightarrow> u8 list list \<Rightarrow> auxval \<Rightarrow> bytemem \<Rightarrow> (u64 \<times> bytemem) result" where
  "copyargs stack argv aux m =
     (let oldrsp = stack in
      ebind (copy_strings stack argv m) (\<lambda>(stack, m).
      let argc = length argv;
          stack = stack - 8; m = store64 stack 0 m; stack = stack - 8;
          stack = stack - 16; m = store64 stack AT_ENTRY m; m = store64 (stack + 8) (at_entry aux) m;
          stack = stack - 16; m = store64 stack AT_PHDR m; m = store64 (stack + 8) (at_phdr aux) m;
          stack = stack - 16; m = store64 stack AT_PHENT m; m = store64 (stack + 8) (at_phent aux) m;
          stack = stack - 16; m = store64 stack AT_PHNUM m; m = store64 (stack + 8) (at_phnum aux) m;
          stack = stack - 8; m = store64 stack 0 m;
          stack = stack - 8 * of_nat argc in
      ebind (store_ptrs stack 0 argv oldrsp m) (\<lambda>m.
      let stack = stack - 8 in Inr (stack, store64 stack (of_nat argc) m))))"

subsection \<open>Pushing bytes\<close>

text \<open>
  \<open>pushed m0 t m a xs\<close>: from memory \<open>m0\<close> with the stack pointer at \<open>t\<close> the bytes \<open>xs\<close> were pushed; the pointer is \<open>a\<close> now, the bytes lie there,
  and nothing else has changed.
\<close>

definition pushed :: "bytemem \<Rightarrow> u64 \<Rightarrow> bytemem \<Rightarrow> u64 \<Rightarrow> u8 list \<Rightarrow> bool" where
  "pushed m0 t m a xs \<longleftrightarrow> a = t - of_nat (length xs) \<and> bytes_at m a (length xs) = xs \<and>
     (\<forall>x. length xs \<le> unat (x - a) \<longrightarrow> m x = m0 x)"

lemma pushed_bytes:
  assumes p: "pushed m0 t m a xs" and l: "length bs + length xs \<le> 2 ^ 64"
  shows "pushed m0 t (put_mem (a - of_nat (length bs)) bs m) (a - of_nat (length bs)) (bs @ xs)"
proof -
  let ?k = "length bs"
  let ?a = "a - of_nat ?k" and ?m = "put_mem (a - of_nat (length bs)) bs m"
  have at: "?m (?a + of_nat i) = (if i < ?k then bs ! i else m (?a + of_nat i))" if "i < 2 ^ 64" for i
    using put_mem_at [of bs i ?a m] that l by simp
  have "bytes_at ?m ?a ?k = bs" by (rule nth_equalityI) (use at l in auto)
  moreover have "bytes_at ?m a (length xs) = bytes_at m a (length xs)"
  proof (rule nth_equalityI)
    fix i assume "i < length (bytes_at ?m a (length xs))"
    then have "i < length xs" by simp
    moreover have "?a + of_nat (?k + i) = a + of_nat i" by simp
    ultimately show "bytes_at ?m a (length xs) ! i = bytes_at m a (length xs) ! i" using at [of "?k + i"] l by simp
  qed simp
  moreover have "bytes_at m a (length xs) = xs" using p unfolding pushed_def by blast
  ultimately have "bytes_at ?m ?a (length (bs @ xs)) = bs @ xs" using bytes_at_append [of ?m ?a ?k "length xs"] by simp
  moreover have "?m x = m0 x" if x: "length (bs @ xs) \<le> unat (x - ?a)" for x
  proof -
    have "unat (x - ?a - of_nat ?k) = unat (x - ?a) - ?k" using x by (intro unat_minus_of_nat) simp
    then have "length xs \<le> unat (x - a)" using x by simp
    then show ?thesis using p x put_mem_nth [of bs ?a m x] l by (simp add: pushed_def)
  qed
  ultimately show ?thesis using p by (simp add: pushed_def)
qed

lemma pushed_word:
  "pushed m0 t m a xs \<Longrightarrow> 8 + length xs \<le> 2 ^ 64 \<Longrightarrow> pushed m0 t (store64 (a - 8) w m) (a - 8) (le64 w @ xs)"
  using pushed_bytes [of m0 t m a xs "le64 w"] by (simp add: store64_def)

lemma pushed_pair:
  "pushed m0 t m a xs \<Longrightarrow> 16 + length xs \<le> 2 ^ 64 \<Longrightarrow>
     pushed m0 t (store64 (a - 16 + 8) w (store64 (a - 16) v m)) (a - 16) (le64 v @ le64 w @ xs)"
  using pushed_bytes [of m0 t m a xs "le64 v @ le64 w"] by (simp add: store64_def put_mem_append)

text \<open>Moving the pointer without a store pushes what was there.\<close>

lemma pushed_skip:
  assumes p: "pushed m0 t m a xs" and l: "8 + length xs \<le> 2 ^ 64"
  shows "pushed m0 t m (a - 8) (bytes_at m0 (a - 8) 8 @ xs)"
proof -
  let ?bs = "bytes_at m (a - 8) 8"
  have out: "m (a - 8 + of_nat i) = m0 (a - 8 + of_nat i)" if "i < 8" for i
  proof -
    have "(- 8 :: u64) = 18446744073709551608" by simp
    then have "a - 8 + of_nat i - a = of_nat (18446744073709551608 + i)" by (simp add: algebra_simps)
    then have "unat (a - 8 + of_nat i - a) = 2 ^ 64 - (8 - i)" using that by (simp only: unat_of_nat) simp
    then show ?thesis using p l that by (simp add: pushed_def)
  qed
  then have "bytes_at m0 (a - 8) 8 = ?bs" by (intro nth_equalityI) simp_all
  moreover have "put_mem (a - 8) ?bs m = m"
    by (rule ext) (use put_mem_nth [of ?bs "a - 8" m] in \<open>auto\<close>)
  ultimately show ?thesis using pushed_bytes [OF p, of ?bs] l by simp
qed

lemma pushed_put_mem:
  assumes "pushed m0 t m a xs" "length xs \<le> 2 ^ 64"
  shows "m = put_mem a xs m0"
proof
  fix x
  have "bytes_at m a (length xs) = xs" using assms(1) unfolding pushed_def by blast
  then have "m x = xs ! unat (x - a)" if "unat (x - a) < length xs" using nth_bytes_at [OF that, of m a] by simp
  moreover have "m x = m0 x" if "\<not> unat (x - a) < length xs" using assms(1) that by (simp add: pushed_def)
  ultimately show "m x = put_mem a xs m0 x" using put_mem_nth [OF assms(2)] by simp
qed

subsection \<open>The strings and the pointers\<close>

text \<open>Where the strings end up.\<close>

fun ptrs :: "u64 \<Rightarrow> u8 list list \<Rightarrow> u64 list" where
  "ptrs stack [] = []"
| "ptrs stack (s # ss) = (let p = stack - of_nat (length s) - 1 in p # ptrs p ss)"

definition arg_ok :: "u8 list \<Rightarrow> bool" where
  "arg_ok s \<longleftrightarrow> s \<noteq> [] \<and> 0 \<notin> set s"

abbreviation strings :: "u8 list list \<Rightarrow> u8 list" where
  "strings ss \<equiv> concat (rev (map cstr ss))"

lemma length_ptrs [simp]: "length (ptrs stack ss) = length ss"
  by (induction ss arbitrary: stack) (simp_all add: Let_def)

lemma length_words [simp]: "length (concat (map le64 ws)) = 8 * length ws"
  by (induction ws) simp_all

lemma strlen_arg: "arg_ok s \<Longrightarrow> strlen (cstr s) = Inr (length s)"
  using strlen_spec [of s "[]"] by (simp add: arg_ok_def cstr_def)

lemma copy_strings_pushed:
  assumes "\<forall>s \<in> set ss. arg_ok s" and "pushed m0 t m stack xs" and "length (strings ss) + length xs \<le> 2 ^ 64"
  shows "\<exists>a m'. copy_strings stack (map cstr ss) m = Inr (a, m') \<and> pushed m0 t m' a (strings ss @ xs)"
  using assms
proof (induction ss arbitrary: stack m xs)
  case (Cons s ss)
  let ?p = "stack - of_nat (length (cstr s))" and ?m = "put_mem (stack - of_nat (length (cstr s))) (cstr s) m"
  have p: "stack - of_nat (length s) - 1 = ?p" by (simp add: cstr_def)
  have ok: "arg_ok s" "\<forall>s \<in> set ss. arg_ok s" using Cons.prems by simp_all
  have "strcpy (bytes_at m ?p (length s + 1)) (cstr s) = Inr (cstr s)"
    using strcpy_cstr [of s "bytes_at m ?p (length s + 1)"] ok(1) by (simp add: arg_ok_def)
  then have c: "copy_strings stack (map cstr (s # ss)) m = copy_strings ?p (map cstr ss) ?m"
    using strlen_arg [OF ok(1)] by (simp add: p Let_def)
  have "pushed m0 t ?m ?p (cstr s @ xs)" by (rule pushed_bytes [OF Cons.prems(2)]) (use Cons.prems(3) in simp)
  from Cons.IH [OF ok(2) this] Cons.prems(3) show ?case unfolding c by simp
qed simp

lemma store_ptrs_spec:
  assumes "\<forall>s \<in> set ss. arg_ok s"
  shows "store_ptrs stack i (map cstr ss) old m = Inr (put_mem (stack + 8 * of_nat i) (concat (map le64 (ptrs old ss))) m)"
  using assms
proof (induction ss arbitrary: i old m)
  case (Cons s ss)
  have "stack + 8 * of_nat (i + 1) = stack + 8 * of_nat i + of_nat (length (le64 w))" for w by (simp add: algebra_simps)
  then show ?case using Cons strlen_arg [of s] by (simp add: Let_def store64_def put_mem_append diff_diff_eq algebra_simps)
qed simp

text \<open>Strings that lie one after the other are found at their pointers.\<close>

lemma strings_at_ptrs:
  assumes "bytes_at m (stack - of_nat (length (strings ss))) (length (strings ss)) = strings ss" and "i < length ss"
  shows "bytes_at m (ptrs stack ss ! i) (length (cstr (ss ! i))) = cstr (ss ! i)"
  using assms
proof (induction ss arbitrary: stack i)
  case (Cons s ss)
  let ?n = "length (strings ss)" and ?k = "length (cstr s)"
  let ?p = "stack - of_nat ?k"
  have p: "stack - of_nat (length s) - 1 = ?p" by (simp add: cstr_def)
  have "bytes_at m (?p - of_nat ?n) (?n + ?k) = strings ss @ cstr s" using Cons.prems(1) by (simp add: algebra_simps)
  then have "bytes_at m (?p - of_nat ?n) ?n = strings ss" "bytes_at m ?p ?k = cstr s"
    unfolding bytes_at_append by simp_all
  with Cons.IH [of ?p] Cons.prems(2) show ?case by (cases i) (simp_all add: p Let_def)
qed simp

subsection \<open>The whole stack\<close>

definition stack_image :: "u64 list \<Rightarrow> auxval \<Rightarrow> u8 list \<Rightarrow> u8 list" where
  "stack_image ps aux junk = le64 (of_nat (length ps)) @ concat (map le64 ps) @ le64 0 @
     le64 AT_PHNUM @ le64 (at_phnum aux) @ le64 AT_PHENT @ le64 (at_phent aux) @ le64 AT_PHDR @ le64 (at_phdr aux) @
     le64 AT_ENTRY @ le64 (at_entry aux) @ junk @ le64 0"

lemma length_stack_image [simp]: "length junk = 8 \<Longrightarrow> length (stack_image ps aux junk) = 8 * length ps + 96"
  by (simp add: stack_image_def)

lemma copyargs_pushed:
  assumes "\<forall>s \<in> set ss. arg_ok s" and "length (strings ss) + 8 * length ss + 96 \<le> 2 ^ 64"
  obtains stack' m' where "copyargs stack (map cstr ss) aux m = Inr (stack', m')"
    "pushed m stack m' stack' (stack_image (ptrs stack ss) aux (bytes_at m (stack - of_nat (length (strings ss) + 16)) 8) @ strings ss)"
proof -
  let ?N = "length (strings ss)" and ?ps = "concat (map le64 (ptrs stack ss))"
  have "pushed m stack m stack []" by (simp add: pushed_def bytes_at_def)
  from copy_strings_pushed [OF assms(1) this] assms(2)
  obtain a m1 where c: "copy_strings stack (map cstr ss) m = Inr (a, m1)" and p1: "pushed m stack m1 a (strings ss)" by auto
  let ?junk = "bytes_at m (a - 8 - 8) 8"
  note l = assms(2)
  note p2 = pushed_skip [OF pushed_word [OF p1, of 0]]
  note p3 = pushed_pair [OF p2, of "at_entry aux" AT_ENTRY]
  note p4 = pushed_pair [OF p3, of "at_phdr aux" AT_PHDR]
  note p5 = pushed_pair [OF p4, of "at_phent aux" AT_PHENT]
  note p6 = pushed_pair [OF p5, of "at_phnum aux" AT_PHNUM]
  note p7 = pushed_word [OF p6, of 0]
  note p8 = pushed_bytes [OF p7, of ?ps]
  note p9 = pushed_word [OF p8, of "of_nat (length ss)"]
  have a: "a = stack - of_nat ?N" using p1 by (simp add: pushed_def)
  have j: "?junk = bytes_at m (stack - of_nat (?N + 16)) 8" by (simp add: a algebra_simps)
  show thesis
    by (rule that [folded j]) (use p9 l c store_ptrs_spec [OF assms(1)] in \<open>simp_all add: copyargs_def Let_def stack_image_def\<close>)
qed

text \<open>
  C38 (the initial stack).  For arguments that are non-empty strings \<open>copyargs\<close> succeeds and moves the stack pointer down by exactly the
  space it uses.  From the new stack pointer on lie the number of arguments, the pointers to them, a null word, the four
  auxiliary values, a word that keeps what it held (where the type of the last auxiliary value belongs), a zero word, and
  the strings; each pointer leads to its string with its terminator, and no byte outside this range changes.
\<close>

theorem copyargs_layout:
  assumes "\<forall>s \<in> set ss. arg_ok s" and "length (strings ss) + 8 * length ss + 96 \<le> 2 ^ 64"
  shows "\<exists>stack' m' junk. copyargs stack (map cstr ss) aux m = Inr (stack', m') \<and>
    junk = bytes_at m (stack - of_nat (length (strings ss) + 16)) 8 \<and>
    pushed m stack m' stack' (stack_image (ptrs stack ss) aux junk @ strings ss) \<and>
    (\<forall>i < length ss. bytes_at m' (ptrs stack ss ! i) (length (cstr (ss ! i))) = cstr (ss ! i))"
proof -
  let ?N = "length (strings ss)"
  let ?w = "stack_image (ptrs stack ss) aux (bytes_at m (stack - of_nat (?N + 16)) 8)"
  obtain stack' m' where run: "copyargs stack (map cstr ss) aux m = Inr (stack', m')" and p: "pushed m stack m' stack' (?w @ strings ss)"
    by (rule copyargs_pushed [OF assms])
  have w: "bytes_at m' stack' (length ?w + ?N) = ?w @ strings ss" "stack' = stack - of_nat (length ?w + ?N)"
    using p unfolding pushed_def length_append by blast+
  have "bytes_at m' (stack' + of_nat (length ?w)) ?N = strings ss" using w(1) unfolding bytes_at_append by simp
  moreover have "stack' + of_nat (length ?w) = stack - of_nat ?N" unfolding w(2) by simp
  ultimately have "\<forall>i < length ss. bytes_at m' (ptrs stack ss ! i) (length (cstr (ss ! i))) = cstr (ss ! i)"
    using strings_at_ptrs by simp
  with run p show ?thesis by auto
qed

theorem copyargs_layout_witness:
  "\<exists>stack' m'. copyargs 0x10000 [cstr (bytes ''/exe''), cstr (bytes ''-v'')] \<lparr>at_entry = 0x400000, at_phdr = 0, at_phent = 56, at_phnum = 2\<rparr> (\<lambda>_. 7) =
     Inr (stack', m') \<and> stack' = 0x10000 - 120 \<and> bytes_at m' 0xfffb 5 = cstr (bytes ''/exe'') \<and> bytes_at m' 0xfff8 3 = cstr (bytes ''-v'')"
proof -
  let ?ss = "[bytes ''/exe'', bytes ''-v'']"
  have ok: "\<forall>s \<in> set ?ss. arg_ok s" "length (strings ?ss) + 8 * length ?ss + 96 \<le> 2 ^ 64" by (simp_all add: arg_ok_def bytes_def cstr_def)
  have pt: "ptrs 0x10000 ?ss = [0xfffb, 0xfff8]" and l: "length (cstr (bytes ''/exe'')) = 5" "length (cstr (bytes ''-v'')) = 3"
    by (simp_all add: bytes_def Let_def cstr_def)
  let ?aux = "\<lparr>at_entry = 0x400000, at_phdr = 0, at_phent = 56, at_phnum = 2\<rparr>"
  obtain stack' m' junk where c: "copyargs 0x10000 (map cstr ?ss) ?aux (\<lambda>_. 7) = Inr (stack', m')"
    "junk = bytes_at (\<lambda>_. 7) (0x10000 - of_nat (length (strings ?ss) + 16)) 8"
    "pushed (\<lambda>_. 7) 0x10000 m' stack' (stack_image (ptrs 0x10000 ?ss) ?aux junk @ strings ?ss)"
    "\<forall>i < length ?ss. bytes_at m' (ptrs 0x10000 ?ss ! i) (length (cstr (?ss ! i))) = cstr (?ss ! i)"
    using copyargs_layout [OF ok, of "0x10000" ?aux "\<lambda>_. 7"] by blast
  have j: "length junk = 8" unfolding c(2) by (rule length_bytes_at)
  have "bytes_at m' 0xfffb 5 = cstr (bytes ''/exe'')" "bytes_at m' 0xfff8 3 = cstr (bytes ''-v'')"
    using c(4) [rule_format, of 0] c(4) [rule_format, of 1] l unfolding pt by simp_all
  moreover have "stack' = 0x10000 - 120" using c(3) j l unfolding pushed_def pt by (simp add: stack_image_def)
  ultimately show ?thesis using c(1) unfolding list.map by blast
qed

end
