(* ===== verification/Acpi.thy ===== *)
theory Acpi
  imports Byte_Memory Mmu
begin

section \<open>The firmware's tables (kernel/acpi.c, walk_madt of kernel/apic.c)\<close>

text \<open>
  The tables lie in memory that the firmware has written.  Neither search stops at the end of a table, so both have a number of rounds
  as an argument.
\<close>

subsection \<open>The functions\<close>

definition FADT_CODE :: u64 where "FADT_CODE = 0x50434146"
definition MADT_C :: u64 where "MADT_C = 0x43495041"

text \<open>\<open>init_acpi\<close>: the address of the RSDT; its loop computes nothing that is used.\<close>

definition init_acpi :: "bytemem \<Rightarrow> u64 \<Rightarrow> u64" where
  "init_acpi m rsdp = ucast (load32 m (rsdp + 16)) + HHDM_OFFSET"

definition sdt :: "bytemem \<Rightarrow> u64 \<Rightarrow> nat \<Rightarrow> u64" where
  "sdt m rsdt i = ucast (load32 m (rsdt + 36 + 4 * of_nat i)) + HHDM_OFFSET"

fun get_acpi_sdt_loop :: "nat \<Rightarrow> bytemem \<Rightarrow> u64 \<Rightarrow> u64 \<Rightarrow> nat \<Rightarrow> u64 result" where
  "get_acpi_sdt_loop 0 m rsdt signature i = Inl NoFuel"
| "get_acpi_sdt_loop (Suc k) m rsdt signature i =
     (let hdr = sdt m rsdt i in
      if ucast (load32 m hdr) = signature then Inr (sdt m rsdt i) else get_acpi_sdt_loop k m rsdt signature (i + 1))"

definition get_acpi_sdt :: "nat \<Rightarrow> bytemem \<Rightarrow> u64 \<Rightarrow> u64 \<Rightarrow> u64 result" where
  "get_acpi_sdt fuel m rsdt signature = get_acpi_sdt_loop fuel m rsdt signature 0"

text \<open>
  The loop of \<open>walk_madt\<close>: \<open>x\<close> is the next free place of the 100 in \<open>lapicId\<close>, whose contents are not used, and \<open>nmi\<close> the variable
  \<open>NMI_LINT\<close>.  The entries start at offset 44 of the table, but their offset is compared with the length of the whole table.
\<close>

fun walk_madt_loop :: "nat \<Rightarrow> bytemem \<Rightarrow> u64 \<Rightarrow> u32 \<Rightarrow> u8 \<Rightarrow> u8 \<Rightarrow> u8 result" where
  "walk_madt_loop 0 m madt i x nmi = Inl NoFuel"
| "walk_madt_loop (Suc k) m madt i x nmi =
     (if i < load32 m (madt + 4)
      then let entry = (\<lambda>j. m (madt + 44 + ucast (i + j))) in
        ebind (if entry 0 = 0 then if x < 100 then Inr (x + 1) else Inl BadAccess else Inr x) (\<lambda>x.
        let nmi = (if entry 0 = 4 then entry 5 else nmi) in
        walk_madt_loop k m madt (i + ucast (entry 1)) x nmi)
      else Inr nmi)"

definition walk_madt :: "nat \<Rightarrow> bytemem \<Rightarrow> u64 \<Rightarrow> u8 \<Rightarrow> u8 result" where
  "walk_madt fuel m madt nmi = walk_madt_loop fuel m madt 0 1 nmi"

subsection \<open>The search for a table\<close>

lemma get_acpi_sdt_loop_skip:
  "\<forall>j < n. ucast (load32 m (sdt m rsdt (i + j))) \<noteq> signature \<Longrightarrow>
     get_acpi_sdt_loop (n + k) m rsdt signature i = get_acpi_sdt_loop k m rsdt signature (i + n)"
proof (induction n arbitrary: i)
  case (Suc n)
  have "ucast (load32 m (sdt m rsdt i)) \<noteq> signature" using Suc.prems by force
  moreover have "\<forall>j < n. ucast (load32 m (sdt m rsdt (Suc i + j))) \<noteq> signature" using Suc.prems by (metis Suc_less_eq add_Suc_shift)
  ultimately show ?case using Suc.IH [of "Suc i"] by simp
qed simp

text \<open>
  \<open>get_acpi_sdt\<close> returns the first table with the signature, whatever the length of the RSDT, and with no such table it never returns.
\<close>

lemma get_acpi_sdt_first:
  "(\<forall>j < n. ucast (load32 m (sdt m rsdt j)) \<noteq> signature) \<Longrightarrow> ucast (load32 m (sdt m rsdt n)) = signature \<Longrightarrow> n < fuel \<Longrightarrow>
     get_acpi_sdt fuel m rsdt signature = Inr (sdt m rsdt n)"
  and get_acpi_sdt_never: "(\<forall>j. ucast (load32 m (sdt m rsdt j)) \<noteq> signature) \<Longrightarrow> get_acpi_sdt fuel m rsdt signature = Inl NoFuel"
proof -
  assume s: "\<forall>j < n. ucast (load32 m (sdt m rsdt j)) \<noteq> signature" "ucast (load32 m (sdt m rsdt n)) = signature" "n < fuel"
  then obtain k where "fuel = n + Suc k" using less_imp_Suc_add by fastforce
  then show "get_acpi_sdt fuel m rsdt signature = Inr (sdt m rsdt n)"
    using get_acpi_sdt_loop_skip [of n m rsdt 0 signature "Suc k"] s(1,2) by (simp add: get_acpi_sdt_def Let_def)
next
  assume "\<forall>j. ucast (load32 m (sdt m rsdt j)) \<noteq> signature"
  then show "get_acpi_sdt fuel m rsdt signature = Inl NoFuel"
    using get_acpi_sdt_loop_skip [of fuel m rsdt 0 signature 0] by (simp add: get_acpi_sdt_def)
qed

subsection \<open>The walk over the entries\<close>

text \<open>\<open>records m a i es\<close>: from offset \<open>i\<close> on lie records with the types, lengths and sixth bytes \<open>es\<close>.\<close>

fun records :: "bytemem \<Rightarrow> u64 \<Rightarrow> nat \<Rightarrow> (u8 \<times> u8 \<times> u8) list \<Rightarrow> bool" where
  "records m a i [] \<longleftrightarrow> True"
| "records m a i ((ty, len, pin) # es) \<longleftrightarrow>
     m (a + of_nat i) = ty \<and> m (a + of_nat (i + 1)) = len \<and> (ty = 4 \<longrightarrow> m (a + of_nat (i + 5)) = pin) \<and>
     records m a (i + unat len) es"

definition nmi_pin :: "(u8 \<times> u8 \<times> u8) list \<Rightarrow> u8 \<Rightarrow> u8" where
  "nmi_pin es nmi = fold (\<lambda>(ty, _, pin) nmi. if ty = 4 then pin else nmi) es nmi"

definition span :: "(u8 \<times> u8 \<times> u8) list \<Rightarrow> nat" where
  "span es = sum_list (map (\<lambda>(_, len, _). unat len) es)"

text \<open>
  If the memory from the first entry on holds records, fewer than 99 of them processors, of which exactly the last one ends at or behind
  the offset given by the length of the table, the walk ends and \<open>NMI_LINT\<close> is the pin of the last record of type 4.
\<close>

lemma walk_madt_records:
  assumes "records m (madt + 44) i es" and "i + span es < 2 ^ 32 - 5"
    and "unat (load32 m (madt + 4)) \<le> i + span es" and "es \<noteq> [] \<longrightarrow> i + span (butlast es) < unat (load32 m (madt + 4))"
    and "unat x + length (filter (\<lambda>(ty, _). ty = 0) es) \<le> 100" and "length es < k"
  shows "walk_madt_loop k m madt (of_nat i) x nmi = Inr (nmi_pin es nmi)"
  using assms
proof (induction es arbitrary: i x nmi k)
  case Nil
  then obtain j where "k = Suc j" by (cases k) auto
  moreover have "\<not> of_nat i < load32 m (madt + 4)" using Nil.prems by (simp add: span_def word_less_nat_alt unat_of_nat)
  ultimately show ?case by (simp add: nmi_pin_def)
next
  case (Cons e es)
  obtain ty len pin where e: "e = (ty, len, pin)" by (cases e)
  obtain j where k: "k = Suc j" "length es < j" using Cons.prems(6) by (cases k) auto
  let ?L = "unat (load32 m (madt + 4))"
  have sp: "span (e # es) = unat len + span es" "es \<noteq> [] \<Longrightarrow> span (butlast (e # es)) = unat len + span (butlast es)"
    by (simp_all add: span_def e)
  have "i < ?L" using Cons.prems(4) by simp
  then have lt: "of_nat i < load32 m (madt + 4)" using Cons.prems(2) by (simp add: word_less_nat_alt unat_of_nat)
  have off: "ucast (of_nat i + of_nat j :: u32) = (of_nat (i + j) :: u64)" if "j \<le> 5" for j
  proof -
    have "(of_nat i + of_nat j :: u32) = of_nat (i + j)" by simp
    moreover have "unat (of_nat (i + j) :: u32) = i + j" using that Cons.prems(2) by (simp only: unat_of_nat) simp
    ultimately show ?thesis by (metis of_nat_unat)
  qed
  have en: "m (madt + 44 + ucast (of_nat i + 0 :: u32)) = ty" "m (madt + 44 + ucast (of_nat i + 1 :: u32)) = len"
    "ty = 4 \<Longrightarrow> m (madt + 44 + ucast (of_nat i + 5 :: u32)) = pin"
    using Cons.prems(1) off [of 0] off [of 1] off [of 5] by (simp_all add: e)
  let ?x = "if ty = 0 then x + 1 else x"
  have x: "ty = 0 \<Longrightarrow> x < 100" using Cons.prems(5) by (simp add: e word_less_nat_alt)
  have "unat (x + 1) = Suc (unat x)" if "ty = 0"
    using x [OF that] by (simp add: unat_word_ariths word_less_nat_alt)
  then have ux: "unat ?x + length (filter (\<lambda>(ty, _). ty = 0) es) \<le> 100" using Cons.prems(5) by (simp add: e split: if_splits)
  have nx: "of_nat i + ucast len = (of_nat (i + unat len) :: u32)" by simp
  have "walk_madt_loop j m madt (of_nat i + ucast len) ?x (if ty = 4 then pin else nmi) = Inr (nmi_pin es (if ty = 4 then pin else nmi))"
    unfolding nx
  proof (rule Cons.IH [OF _ _ _ _ ux k(2)])
    show "records m (madt + 44) (i + unat len) es" using Cons.prems(1) by (simp add: e)
    show "i + unat len + span es < 2 ^ 32 - 5" "?L \<le> i + unat len + span es" using Cons.prems(2,3) sp(1) by linarith+
    show "es \<noteq> [] \<longrightarrow> i + unat len + span (butlast es) < ?L" using Cons.prems(4) sp(2) by (metis add.assoc list.discI)
  qed
  then show ?case using lt en x by (simp add: k(1) Let_def nmi_pin_def e split: if_splits)
qed

end
