(* ===== verification/Address_Space.thy ===== *)
theory Address_Space
  imports Vmm
begin

section \<open>What mapping leaves alone, and when it returns\<close>

text \<open>
  Lemmas on \<open>palloc\<close>, \<open>mappages\<close> and \<open>newvm_map\<close> that code relies on which fills frames between the calls: mapping writes to the tables
  of its tree and to frames that were free, and to nothing else; and it returns when there is room.  The frames from some
  number on being free is what makes \<open>palloc\<close> of several frames succeed, and it is kept by every allocation as first fit never goes beyond.
\<close>

subsection \<open>Room at the end of memory\<close>

definition room :: "'a pmm_scheme \<Rightarrow> nat \<Rightarrow> bool" where
  "room s n \<longleftrightarrow> (\<exists>k. k + n \<le> 8 * length (bitmap s) \<and> (\<forall>j \<in> used_pages s. j < k))"

lemma room_less: "room s n \<Longrightarrow> m \<le> n \<Longrightarrow> room s m"
  unfolding room_def by (meson add_le_mono le_refl le_trans)

lemma room_cong: "bitmap s' = bitmap s \<Longrightarrow> room s' n \<longleftrightarrow> room s n"
  by (simp add: room_def used_pages_def)

lemma palloc_room:
  assumes wf: "pmm_wf s" and room: "room s (n + m)" and n: "0 < n"
  obtains a s' bm' g' where "palloc n s = Inr (a, s')" "s' = s\<lparr>bitmap := bm', dbg_g := g'\<rparr>" "length bm' = length (bitmap s)"
    "pmm_wf s'" "room s' m" "unat a mod PGSIZE = 0" "unat a + (n + 7) * PGSIZE < 2 ^ 47"
    "used_pages s' = used_pages s \<union> frames a n" "frames a n \<inter> used_pages s = {}"
proof -
  obtain k where k: "k + (n + m) \<le> 8 * length (bitmap s)" "\<And>j. j \<in> used_pages s \<Longrightarrow> j < k" using room by (auto simp: room_def)
  have win: "\<forall>j \<in> {k..<k + n}. j < 8 * length (bitmap s) \<and> \<not> page_used (bitmap s) j"
    using k(1) k(2) by (force simp: used_pages_def)
  obtain p where p: "scanbitmap (bitmap s) 0 n = Inr p" using scanbitmap_finds [OF le0 win] by blast
  obtain a s' where al: "palloc n s = Inr (a, s')" using palloc_total [OF p] by blast
  obtain bm' g' where s': "s' = s\<lparr>bitmap := bm', dbg_g := g'\<rparr>" "length bm' = length (bitmap s)" using al by (rule palloc_cases)
  have fr: "unat a = p * 4096" "frames a n = {p..<p + n}" using palloc_frames [OF wf al] p by auto
  have pk: "p \<le> k"
  proof (rule ccontr)
    assume "\<not> p \<le> k"
    then have "k < p" by simp
    then have "\<exists>j \<in> {k..<k + n}. page_used (bitmap s) j" using scanbitmap_first_fit [OF p] le0 by blast
    with win show False by blast
  qed
  have used: "used_pages s' = used_pages s \<union> frames a n" by (rule pm.alloc_used [OF wf al])
  have "j < k + n" if "j \<in> used_pages s'" for j using that k(2) [of j] pk by (auto simp: used fr(2))
  then have "room s' m" unfolding room_def using k(1) s' by (intro exI [of _ "k + n"]) simp
  moreover have "p + (n + 7) < 2 ^ 35" using wf pk k(1) by (simp add: pmm_wf_def)
  then have "(p + (n + 7)) * PGSIZE < 2 ^ 35 * PGSIZE" by (rule mult_strict_right_mono) simp
  then have "unat a + (n + 7) * PGSIZE < 2 ^ 47" using fr(1) by (simp add: algebra_simps)
  moreover have "unat a mod PGSIZE = 0" using fr(1) by simp
  ultimately show thesis
    by (intro that [OF al s' pm.alloc_wf [OF wf al] _ _ _ used pm.alloc_fresh [OF wf al]])
qed

subsection \<open>The frames of the tables\<close>

lemma tables_used: "vm_wf s t \<Longrightarrow> tables (mem s) t \<subseteq> used_pages s"
  by (auto simp: tables_def dest: vm_wfD)

text \<open>A step that changes only the tree at \<open>t\<close> and takes frames for it.\<close>

definition tree_step :: "u64 \<Rightarrow> 'a machine_scheme \<Rightarrow> 'a machine_scheme \<Rightarrow> bool" where
  "tree_step t s s' \<longleftrightarrow> vm_wf s' t \<and> used_pages s \<subseteq> used_pages s' \<and> tables (mem s') t \<inter> used_pages s \<subseteq> tables (mem s) t \<and>
     (\<forall>x. vframe x \<in> used_pages s \<longrightarrow> vframe x \<notin> tables (mem s) t \<longrightarrow> mem s' x = mem s x) \<and>
     (clean_frames s \<longrightarrow> clean_frames s') \<and> length (bitmap s') = length (bitmap s) \<and>
     s' = s\<lparr>bitmap := bitmap s', dbg_g := dbg_g s', mem := mem s'\<rparr>"

lemma tree_stepD:
  assumes "tree_step t s s'"
  shows "vm_wf s' t" "used_pages s \<subseteq> used_pages s'" "tables (mem s') t \<inter> used_pages s \<subseteq> tables (mem s) t"
    "\<And>x. vframe x \<in> used_pages s \<Longrightarrow> vframe x \<notin> tables (mem s) t \<Longrightarrow> mem s' x = mem s x" "clean_frames s \<Longrightarrow> clean_frames s'"
    "s' = s\<lparr>bitmap := bitmap s', dbg_g := dbg_g s', mem := mem s'\<rparr>" "length (bitmap s') = length (bitmap s)"
  using assms unfolding tree_step_def by blast+

lemma tree_step_refl: "vm_wf s t \<Longrightarrow> tree_step t s s"
  by (simp add: tree_step_def)

lemma tree_step_trans:
  assumes "tree_step t s s'" "tree_step t s' s''"
  shows "tree_step t s s''"
proof -
  note e = tree_stepD(6) [OF assms(1)] tree_stepD(6) [OF assms(2)]
  have "s'' = s\<lparr>bitmap := bitmap s'', dbg_g := dbg_g s'', mem := mem s''\<rparr>" by (subst e(2), subst e(1)) simp
  moreover have "mem s'' x = mem s x" if "vframe x \<in> used_pages s" "vframe x \<notin> tables (mem s) t" for x
    using assms that unfolding tree_step_def by (metis IntI subsetD)
  ultimately show ?thesis using assms unfolding tree_step_def by (intro conjI) (blast | simp)+
qed

lemma get_next_level_step:
  assumes wf: "vm_wf s t" and a: "node (mem s) t p = Some a" "ok_path (p @ [i])"
    and r: "get_next_level a (of_nat i) True s = Inr (b, s')"
  shows "tree_step t s s'"
  using assms
proof (cases rule: get_next_level_adds)
  case follow
  then show ?thesis using tree_step_refl [OF wf] by simp
next
  case (hang bm' g' m')
  have okp: "ok_path p" "i < 512" using a(2) by (auto simp: ok_path_snoc)
  note aD = vm_wfD [OF wf okp(1) a(1)]
  have fa: "vframe a \<in> tables (mem s) t" using okp a(1) by (auto simp: tables_def)
  have vs: "vframe (slot a i) = vframe a" by (rule slot_vframe [OF aD(2) okp(2)])
  have far: "mem s' x = mem s x" if "vframe x \<noteq> vframe b" "x \<noteq> slot a i" for x
    using hang(3) that by (simp add: adds_table_def hangs_def)
  have fresh: "vframe b \<notin> used_pages s" using hang(3) by (simp add: adds_table_def)
  have "tables (mem s') t \<subseteq> insert (vframe b) (tables (mem s) t)"
    using adds_table_cases [OF hang(3)] by (fastforce simp: tables_def)
  moreover have "clean_frames s'" if "clean_frames s"
    using that far hang(6) vs aD(3) unfolding clean_frames_def by (metis insertCI)
  moreover have "vm_wf s' t" using adds_table_ext [OF hang(3-6)] by (simp add: vm_ext_def)
  moreover have "mem s' x = mem s x" if "vframe x \<in> used_pages s" "vframe x \<notin> tables (mem s) t" for x
    using far [of x] fresh that fa vs by metis
  ultimately show ?thesis using fresh hang(1,2,6) unfolding tree_step_def by (intro conjI) (blast | simp)+
qed

lemma get_next_level_room:
  assumes wf: "vm_wf s t" and a: "node (mem s) t p = Some a" "ok_path (p @ [i])" and room: "room s (Suc n)"
  obtains b s' where "get_next_level a (of_nat i) True s = Inr (b, s')" "tree_step t s s'" "room s' n" "vm_ext t s s'"
    "node (mem s') t (p @ [i]) = Some b"
proof -
  have okp: "ok_path p" using a(2) by (simp add: ok_path_snoc)
  have nz: "a \<noteq> 0" using vm_wfD(1) [OF wf okp a(1)] by (rule dm_page_nonzero)
  have pwf: "pmm_wf s" using wf by (simp add: vm_wf_def)
  have "\<exists>b s'. get_next_level a (of_nat i) True s = Inr (b, s') \<and> room s' n"
  proof (cases "mem s (a + 8 * of_nat i) AND PTE_PRESENT = 0")
    case False
    then show ?thesis using nz room_less [OF room, of n] by (simp add: get_next_level_def ld_def)
  next
    case True
    obtain e s1 where "palloc 1 s = Inr (e, s1)" "room s1 n" using palloc_room [OF pwf, of 1 n] room unfolding plus_1_eq_Suc by (metis zero_less_one)
    then show ?thesis using True nz
      by (simp add: get_next_level_def ld_def st_def memset_page_def) (simp add: room_def used_pages_def)
  qed
  then show thesis using that get_next_level_step [OF wf a] get_next_level_spec [OF wf a] by blast
qed

lemma va2pte_room:
  assumes wf: "vm_wf s t" and room: "room s (n + 3)"
  obtains a s' where "va2pte t va True s = Inr (slot a (vidx 12 va), s')" "tree_step t s s'" "room s' n" "vm_ext t s s'"
    "node (mem s') t (vpath va) = Some a"
proof -
  have w: "drop_bit sh va AND 0x1ff = of_nat (vidx sh va)" for sh by (simp add: vidx_def)
  have ok: "ok_path ([] @ [vidx 39 va])" "ok_path ([vidx 39 va] @ [vidx 30 va])"
    "ok_path ([vidx 39 va, vidx 30 va] @ [vidx 21 va])"
    by (simp_all add: ok_path_def vidx_less)
  have root: "node (mem s) t [] = Some t" and r: "room s (Suc (Suc (Suc n)))" using room by (simp_all add: eval_nat_numeral)
  obtain b3 s3 where g3: "get_next_level t (of_nat (vidx 39 va)) True s = Inr (b3, s3)" "tree_step t s s3" "room s3 (Suc (Suc n))"
    "vm_ext t s s3" "node (mem s3) t ([] @ [vidx 39 va]) = Some b3" by (rule get_next_level_room [OF wf root ok(1) r])
  have wf3: "vm_wf s3 t" and n3: "node (mem s3) t [vidx 39 va] = Some b3" using g3(4,5) by (simp_all add: vm_ext_def)
  obtain b2 s2 where g2: "get_next_level b3 (of_nat (vidx 30 va)) True s3 = Inr (b2, s2)" "tree_step t s3 s2" "room s2 (Suc n)"
    "vm_ext t s3 s2" "node (mem s2) t ([vidx 39 va] @ [vidx 30 va]) = Some b2" by (rule get_next_level_room [OF wf3 n3 ok(2) g3(3)])
  have wf2: "vm_wf s2 t" and n2: "node (mem s2) t [vidx 39 va, vidx 30 va] = Some b2" using g2(4,5) by (simp_all add: vm_ext_def)
  obtain b1 s1 where g1: "get_next_level b2 (of_nat (vidx 21 va)) True s2 = Inr (b1, s1)" "tree_step t s2 s1" "room s1 n"
    "vm_ext t s2 s1" "node (mem s1) t ([vidx 39 va, vidx 30 va] @ [vidx 21 va]) = Some b1"
    by (rule get_next_level_room [OF wf2 n2 ok(3) g2(3)])
  have "va2pte t va True s = Inr (slot b1 (vidx 12 va), s1)" using g3(1) g2(1) g1(1) by (simp add: va2pte_def w slot_def)
  moreover have "node (mem s1) t (vpath va) = Some b1" using g1(5) by (simp add: vpath_def)
  ultimately show thesis
    using that tree_step_trans [OF tree_step_trans [OF g3(2) g2(2)] g1(2)] vm_ext_trans [OF vm_ext_trans [OF g3(4) g2(4)] g1(4)] g1(3)
    by blast
qed

text \<open>Writing an entry of a table of the tree, at the lowest level.\<close>

lemma write_leaf_step:
  assumes wf: "vm_wf s t" and a: "node (mem s) t (vpath va) = Some a"
  shows "tree_step t s (s\<lparr>mem := (mem s)(slot a (vidx 12 va) := e)\<rparr>)"
proof -
  let ?m = "(mem s)(slot a (vidx 12 va) := e)"
  note aD = vm_wfD [OF wf ok_path_vpath a]
  have vs: "vframe (slot a (vidx 12 va)) = vframe a" by (rule slot_vframe [OF aD(2) vidx_less])
  have fa: "vframe a \<in> tables (mem s) t" using ok_path_vpath a by (auto simp: tables_def)
  have "tables ?m t = tables (mem s) t" unfolding tables_def using write_leaf(1) [OF wf a refl] by metis
  moreover have "clean_frames (s\<lparr>mem := ?m\<rparr>)" if "clean_frames s" using that vs aD(3) by (auto simp: clean_frames_def used_pages_def)
  moreover have "?m x = mem s x" if "vframe x \<notin> tables (mem s) t" for x using that vs fa by auto
  ultimately show ?thesis using write_leaf(2) [OF wf a refl, of e] by (simp add: tree_step_def used_pages_def)
qed

lemma mappage2_room:
  assumes wf: "vm_wf s t" and room: "room s (n + 3)"
  obtains ret s' where "mappage2 t va pa flags s = Inr (ret, s')" "tree_step t s s'" "room s' n"
proof -
  obtain a s1 where v: "va2pte t va True s = Inr (slot a (vidx 12 va), s1)" "tree_step t s s1" "room s1 n"
    and a: "node (mem s1) t (vpath va) = Some a" using va2pte_room [OF assms, of va] by metis
  have wf1: "vm_wf s1 t" using v(2) by (simp add: tree_step_def)
  have "8 * vidx 12 va \<le> 8 * PGSIZE" using vidx_less [of 12 va] by simp
  then have nz: "slot a (vidx 12 va) \<noteq> 0" unfolding slot_def by (rule dm_page_offset_nonzero [OF vm_wfD(1) [OF wf1 ok_path_vpath a]])
  show thesis
  proof (cases "mem s1 (slot a (vidx 12 va)) AND PTE_PRESENT = 0")
    case True
    then show thesis using v nz tree_step_trans [OF v(2) write_leaf_step [OF wf1 a]]
      by (intro that [of 0 "s1\<lparr>mem := (mem s1)(slot a (vidx 12 va) := pa OR flags)\<rparr>"])
        (simp_all add: mappage2_def ld_def st_def, simp add: room_def used_pages_def)
  next
    case False
    then show thesis using v nz by (intro that [of "- EINVAL"]) (auto simp: mappage2_def ld_def)
  qed
qed

lemma mappages_loop_room:
  "vm_wf s t \<Longrightarrow> room s (m + 3 * n) \<Longrightarrow> \<exists>s'. mappages_loop t va pa flags i n s = Inr s' \<and> tree_step t s s' \<and> room s' m"
proof (induction n arbitrary: i s)
  case 0
  then show ?case using tree_step_refl by auto
next
  case (Suc n)
  have "room s (m + 3 * n + 3)" using Suc.prems(2) by (simp add: algebra_simps)
  then obtain r s1 where s1: "mappage2 t (va + of_nat i * 4096) (pa + of_nat i * 4096) flags s = Inr (r, s1)" "tree_step t s s1"
    "room s1 (m + 3 * n)" by (rule mappage2_room [OF Suc.prems(1)])
  then have "vm_wf s1 t" by (simp add: tree_step_def)
  then obtain s' where s': "mappages_loop t va pa flags (Suc i) n s1 = Inr s'" "tree_step t s1 s'" "room s' m"
    using Suc.IH [OF _ s1(3)] by blast
  then have "mappages_loop t va pa flags i (Suc n) s = Inr s'" using s1(1) by simp
  then show ?case using s'(3) tree_step_trans [OF s1(2) s'(2)] by blast
qed

text \<open>\<open>mappages\<close> with room for the tables: it returns, changes only its tree, and maps what was not mapped.\<close>

lemma mappages_room:
  assumes "vm_wf s t" "room s (m + 3 * n)" "flags AND PTE_PRESENT \<noteq> 0" "n \<le> 2 ^ 36"
  obtains s' where "mappages t va pa (of_nat (n * PGSIZE)) flags s = Inr (0, s')" "tree_step t s s'" "room s' m"
    "\<And>k. k < n \<Longrightarrow> walk (mem s) t (va + of_nat k * 4096) = None \<Longrightarrow>
       walk (mem s') t (va + of_nat k * 4096) = Some ((pa + of_nat k * 4096) OR flags)"
    "\<And>vb. (\<forall>k < n. vpage vb \<noteq> vpage (va + of_nat k * 4096)) \<or> walk (mem s) t vb \<noteq> None \<Longrightarrow> walk (mem s') t vb = walk (mem s) t vb"
proof -
  have "unat (of_nat (n * PGSIZE) :: u64) = n * PGSIZE" using assms(4) by (intro unat_of_nat_64) simp
  then have n: "unat (of_nat (n * PGSIZE) div 4096 :: u64) = n" by (simp add: unat_div)
  obtain s' where s': "mappages_loop t va pa flags 0 n s = Inr s'" "tree_step t s s'" "room s' m"
    using mappages_loop_room [OF assms(1,2), of va pa flags 0] by blast
  have le: "0 + n \<le> 2 ^ 36" using assms(4) by simp
  have run: "mappages t va pa (of_nat (n * PGSIZE)) flags s = Inr (0, s')" unfolding mappages_def n Let_def using s'(1) by simp
  show thesis
    by (rule that [OF run s'(2,3)]) (use mappages_loop_spec [OF assms(3,1) s'(1) le] in \<open>auto\<close>)
qed

lemma palloc_step:
  assumes wf: "vm_wf s t" and s1: "s1 = s\<lparr>bitmap := bm', dbg_g := g'\<rparr>" "length bm' = length (bitmap s)" "pmm_wf s1" "used_pages s \<subseteq> used_pages s1"
  shows "tree_step t s s1"
proof -
  have "vm_wf s1 t" using wf s1(3,4) unfolding vm_wf_def by (simp add: s1(1)) blast
  then show ?thesis using s1 by (auto simp: tree_step_def clean_frames_def)
qed

text \<open>Fresh frames, still zero, mapped from \<open>va\<close> on: what loading a segment and setting up a stack have in common.\<close>

lemma map_fresh_run:
  assumes wf: "vm_wf s t" and clean: "clean_frames s" and room: "room s (m + 4 * n)" and n: "0 < n" "n \<le> 2 ^ 36" and fl: "flags AND PTE_PRESENT \<noteq> 0"
    and free: "\<forall>k < n. walk (mem s) t (va + of_nat k * 4096) = None"
  obtains p s1 s' where "palloc n s = Inr (p, s1)" "mem s1 = mem s" "mappages t va p (of_nat (n * PGSIZE)) flags s1 = Inr (0, s')"
    "tree_step t s s'" "room s' m" "unat p mod PGSIZE = 0" "unat p + (n + 7) * PGSIZE < 2 ^ 47" "frames p n \<inter> used_pages s = {}"
    "frames p n \<subseteq> used_pages s'" "frames p n \<inter> tables (mem s') t = {}" "\<forall>x. vframe x \<in> frames p n \<longrightarrow> mem s' x = 0"
    "\<forall>k < n. walk (mem s') t (va + of_nat k * 4096) = Some ((p + of_nat k * 4096) OR flags)"
    "\<forall>vb. (\<forall>k < n. vpage vb \<noteq> vpage (va + of_nat k * 4096)) \<longrightarrow> walk (mem s') t vb = walk (mem s) t vb"
proof -
  have pwf: "pmm_wf s" using wf by (simp add: vm_wf_def)
  have r: "room s (n + (m + 3 * n))" using room by (simp add: algebra_simps)
  obtain p s1 bm' g' where al: "palloc n s = Inr (p, s1)" and s1: "s1 = s\<lparr>bitmap := bm', dbg_g := g'\<rparr>" "length bm' = length (bitmap s)" "pmm_wf s1"
    and r1: "room s1 (m + 3 * n)" and p: "unat p mod PGSIZE = 0" "unat p + (n + 7) * PGSIZE < 2 ^ 47"
    and u1: "used_pages s1 = used_pages s \<union> frames p n" "frames p n \<inter> used_pages s = {}"
    by (rule palloc_room [OF pwf r n(1)])
  have step1: "tree_step t s s1" by (rule palloc_step [OF wf s1]) (use u1(1) in blast)
  have mem1: "mem s1 = mem s" using s1(1) by simp
  obtain s' where mp: "mappages t va p (of_nat (n * PGSIZE)) flags s1 = Inr (0, s')" and step2: "tree_step t s1 s'" and r2: "room s' m"
    and new: "\<And>k. k < n \<Longrightarrow> walk (mem s1) t (va + of_nat k * 4096) = None \<Longrightarrow> walk (mem s') t (va + of_nat k * 4096) = Some ((p + of_nat k * 4096) OR flags)"
    and old: "\<And>vb. (\<forall>k < n. vpage vb \<noteq> vpage (va + of_nat k * 4096)) \<or> walk (mem s1) t vb \<noteq> None \<Longrightarrow> walk (mem s') t vb = walk (mem s1) t vb"
    by (rule mappages_room [where va = va and pa = p, OF tree_stepD(1) [OF step1] r1 fl n(2)]) (rule that; assumption)
  have tab: "frames p n \<inter> tables (mem s') t = {}" using tree_stepD(3) [OF step2] tables_used [OF wf] u1 mem1 by auto
  have "mem s' x = 0" if x: "vframe x \<in> frames p n" for x
  proof -
    have "mem s' x = mem s1 x" using tree_stepD(4) [OF step2, of x] u1 tables_used [OF wf] mem1 x by auto
    then show ?thesis using mem1 clean x u1(2) by (auto simp: clean_frames_def)
  qed
  moreover have "frames p n \<subseteq> used_pages s'" using u1(1) tree_stepD(2) [OF step2] by blast
  ultimately show thesis using that [OF al mem1 mp tree_step_trans [OF step1 step2] r2 p u1(2)] tab new free old mem1 by simp
qed

subsection \<open>New address spaces\<close>

text \<open>In the new tree a path from an upper entry leads to the kernel's table, no other path to anywhere.\<close>

lemma top_copy_node:
  assumes low: "\<And>i. i < 256 \<Longrightarrow> m' (slot tp i) = 0"
    and high: "\<And>i. 256 \<le> i \<Longrightarrow> i < 512 \<Longrightarrow> m' (slot tp i) = m' (slot ktop i)"
    and same: "\<And>q b j. ok_path q \<Longrightarrow> node m ktop q = Some b \<Longrightarrow> j < 512 \<Longrightarrow> m' (slot b j) = m (slot b j)"
    and q: "ok_path q" "node m' tp q = Some b"
  shows "(q = [] \<and> b = tp) \<or> (q \<noteq> [] \<and> node m ktop q = Some b)"
proof (cases q)
  case (Cons i r)
  have i: "i < 512" using q(1) Cons by (simp add: ok_path_def)
  then have hi: "256 \<le> i" using q(2) Cons low [of i] by (cases "i < 256") (auto simp: follow_def)
  have "follow m' tp i = follow m' ktop i" by (simp add: follow_def high [OF hi i])
  then have "node m' ktop q = Some b" using q(2) Cons by simp
  moreover have "node m' ktop q = node m ktop q"
  proof (rule node_cong [where w = "[0, 0, 0, 0]", OF _ q(1)])
    show "m' (slot c j) = m (slot c j)" if "ok_path (p @ [j])" "node m ktop p = Some c" for p c j
      using same [OF _ that(2)] that(1) by (simp add: ok_path_snoc)
  qed (use q(1) in \<open>auto simp: ok_path_def\<close>)
  ultimately show ?thesis using Cons by simp
qed (use q(2) in simp)

text \<open>\<open>newvm_map\<close> with room for the table returns a map with an empty lower half.\<close>

definition fresh_space :: "'a machine_scheme \<Rightarrow> slab_entry list \<Rightarrow> u64 \<Rightarrow> u64 \<Rightarrow> 'a machine_scheme \<Rightarrow> slab_entry list \<Rightarrow> bool" where
  "fresh_space s L ktop vmap s' L' \<longleftrightarrow> slab_wf s' L' \<and> clean_frames s' \<and> slabber_lock s' = 0 \<and> vmap \<in> taken L' \<and>
     machine.more s' = machine.more s \<and> used_pages s \<subseteq> used_pages s' \<and> vm_wf s' (mem s' vmap) \<and>
     tables (mem s') (mem s' vmap) \<inter> vframe ` fst ` set L' = {} \<and> tables (mem s') (mem s' vmap) \<inter> used_pages s \<subseteq> tables (mem s) ktop \<and>
     (\<forall>x \<in> set L'. fst x \<in> fst ` set L \<or> vframe (fst x) \<notin> used_pages s) \<and>
     (\<forall>x. vframe x \<in> used_pages s \<longrightarrow> vframe x \<notin> vframe ` fst ` set L \<longrightarrow> mem s' x = mem s x) \<and>
     (\<forall>va. walk (mem s') (mem s' vmap) va = (if 256 \<le> vidx 39 va then walk (mem s) ktop va else None))"

lemma newvm_map_room:
  fixes s :: "'a vmm_scheme"
  assumes heap: "slab_wf s L" "clean_frames s" "slabber_lock s = 0"
    and km: "kernel_vm_map s \<in> taken L" "mem s (kernel_vm_map s) = ktop"
    and tree: "vm_wf s ktop" "tables (mem s) ktop \<inter> vframe ` fst ` set L = {}"
    and k: "kalloc 16 s = Inr (vmap, s1)" "kalloc_out 16 s L vmap s1 L'" and room: "room s1 (1 + n)"
  obtains s' where "newvm_map s = Inr (vmap, s')" "room s' n" "fresh_space s L ktop vmap s' L'"
proof -
  have pwf1: "pmm_wf s1" using k(2) by (auto simp: kalloc_out_def slab_wf_def)
  obtain p s2 where al: "palloc 1 s1 = Inr (p, s2)" "room s2 n" by (rule palloc_room [OF pwf1 room]) simp
  obtain s' tp where run: "newvm_map s = Inr (vmap, s')" "bitmap s' = bitmap s2" and tp: "mem s' vmap = tp" "dm_page tp"
      "vframe tp \<notin> used_pages s" "vframe tp \<in> used_pages s'"
    and h: "slab_wf s' L'" "clean_frames s'" "slabber_lock s' = 0" "vmap \<in> taken L'" "machine.more s' = machine.more s"
    and L': "\<And>x. x \<in> set L' \<Longrightarrow> vframe (fst x) \<noteq> vframe tp \<and> (fst x \<in> fst ` set L \<or> vframe (fst x) \<notin> used_pages s)"
    and u: "used_pages s \<subseteq> used_pages s'" "\<And>x. vframe x \<in> used_pages s \<Longrightarrow> vframe x \<notin> vframe ` fst ` set L \<Longrightarrow> mem s' x = mem s x"
    and cp: "\<And>i. i < 256 \<Longrightarrow> mem s' (slot tp i) = 0" "\<And>i. 256 \<le> i \<Longrightarrow> i < 512 \<Longrightarrow> mem s' (slot tp i) = mem s' (slot ktop i)"
      "\<And>q b j. ok_path q \<Longrightarrow> node (mem s) ktop q = Some b \<Longrightarrow> j < 512 \<Longrightarrow> mem s' (slot b j) = mem s (slot b j)"
    by (rule newvm_map_steps [OF heap km tree k al(1)]) (rule that; assumption)
  have nodes: "(q = [] \<and> b = tp) \<or> (q \<noteq> [] \<and> node (mem s) ktop q = Some b)" if "ok_path q" "node (mem s') tp q = Some b" for q b
    using cp that by (rule top_copy_node)
  have walks: "walk (mem s') tp va = (if 256 \<le> vidx 39 va then walk (mem s) ktop va else None)" for va
    using cp by (rule top_copy_walk)
  note kD = vm_wfD [OF tree(1)]
  have "vm_wf s' tp"
    unfolding vm_wf_def
  proof (intro conjI allI impI)
    show "pmm_wf s'" using h(1) by (simp add: slab_wf_def)
    show "dm_page a" "vframe a \<in> used_pages s'" if "ok_path p" "node (mem s') tp p = Some a" for p a
      using nodes [OF that] tp(2,4) kD(1,3) [OF that(1)] u(1) by blast+
    show "p = q" if "ok_path p" "ok_path q" "node (mem s') tp p = Some a" "node (mem s') tp q = Some a" for p q a
      using nodes [OF that(1,3)] nodes [OF that(2,4)] kD(3) [OF that(1)] kD(3) [OF that(2)] kD(4) [OF that(2) _ that(1)] tp(3) by metis
  qed
  moreover have "tables (mem s') tp \<subseteq> insert (vframe tp) (tables (mem s) ktop)"
    using nodes unfolding tables_def by blast
  moreover have "tables (mem s) ktop \<inter> vframe ` fst ` set L' = {}"
    using L' tree(2) tables_used [OF tree(1)] by fastforce
  ultimately have "fresh_space s L ktop vmap s' L'"
    unfolding fresh_space_def tp(1) using h u L' tp(3) walks by (intro conjI) blast+
  then show thesis using that run(1) al(2) room_cong [of s' s2] run(2) by blast
qed

end
