(* ===== verification/Word_Bytes.thy ===== *)
theory Word_Bytes
  imports Slab Byte_Memory
begin

section \<open>The machine's memory as bytes\<close>

text \<open>
  The heap, the page tables and the kernel stacks use memory as aligned 64-bit words (\<open>mem\<close>); loading a program and writing its arguments
  uses single bytes.  \<open>bytes_of\<close> shows the words as bytes, lowest first, and \<open>words_of\<close> goes back; cells at other addresses
  than multiples of 8 are not part of the memory.  \<open>store_bytes\<close> writes bytes at any address.
\<close>

definition bytes_of :: "(u64 \<Rightarrow> u64) \<Rightarrow> bytemem" where
  "bytes_of m a = ucast (drop_bit (8 * unat (a AND 7)) (m (a AND NOT 7)))"

definition words_of :: "bytemem \<Rightarrow> (u64 \<Rightarrow> u64) \<Rightarrow> u64 \<Rightarrow> u64" where
  "words_of b m a = (if a AND 7 = 0 then le_word (\<lambda>i. b (a + of_nat i)) 8 else m a)"

definition store_bytes :: "u64 \<Rightarrow> u8 list \<Rightarrow> 'a machine_scheme \<Rightarrow> 'a machine_scheme" where
  "store_bytes a bs s = s\<lparr>mem := words_of (put_mem a bs (bytes_of (mem s))) (mem s)\<rparr>"

subsection \<open>The two views\<close>

lemma seven: "(7 :: u64) = mask 3"
  by (simp add: mask_eq_exp_minus_1)

lemma and_7: "unat (a AND 7 :: u64) = unat a mod 8"
  by (simp add: seven take_bit_eq_mask [symmetric] take_bit_eq_mod unat_mod)

lemma split_addr: "(a AND NOT k) + (a AND k) = (a :: u64)"
proof -
  have "(a AND NOT k) + (a AND k) = (a AND NOT k) OR (a AND k)" by (rule disjunctive_add_eq_or) (simp add: bit_eq_iff bit_simps)
  also have "\<dots> = a" by (auto simp: bit_eq_iff bit_simps)
  finally show ?thesis .
qed

lemma byte_addr: "(a AND NOT k) + of_nat (unat (a AND k)) = (a :: u64)"
  using split_addr by simp

lemma and_not_and: "(a AND NOT k) AND k = (0 :: u64)"
  by (auto simp: bit_eq_iff bit_simps)

lemma aligned_offset:
  assumes "a AND 7 = 0" "i < 8"
  shows "(a + of_nat i) AND 7 = (of_nat i :: u64)" "(a + of_nat i) AND NOT 7 = (a :: u64)"
proof -
  have i: "unat (of_nat i :: u64) = i" using assms(2) by (simp add: unat_of_nat)
  have "unat ((a + of_nat i) AND 7) = (unat a mod 8 + i) mod 8"
    unfolding and_7 by (simp add: unat_word_ariths i mod_simps mod_mod_cancel)
  also have "\<dots> = i" using assms and_7 [of a] by simp
  finally show e: "(a + of_nat i) AND 7 = (of_nat i :: u64)" using i by (metis word_unat_eq_iff)
  show "(a + of_nat i) AND NOT 7 = a" using split_addr [of "a + of_nat i" 7] unfolding e by (rule add_right_imp_eq)
qed

lemma words_of_bytes_of [simp]: "words_of (bytes_of m) m = m"
proof
  fix a
  show "words_of (bytes_of m) m a = m a"
  proof (cases "a AND 7 = 0")
    case True
    have "le_word (\<lambda>i. bytes_of m (a + of_nat i)) 8 = m a"
    proof (rule bit_word_eqI)
      fix n assume "n < LENGTH(64)"
      then have n: "n div 8 < 8" "n < 64" by auto
      show "bit (le_word (\<lambda>i. bytes_of m (a + of_nat i)) 8) n \<longleftrightarrow> bit (m a) n"
        using n aligned_offset [OF True n(1)] by (simp add: bit_le_word bytes_of_def unat_of_nat bit_simps)
    qed
    then show ?thesis using True by (simp add: words_of_def)
  qed (simp add: words_of_def)
qed

lemma bytes_of_words_of [simp]: "bytes_of (words_of b m) = b"
proof
  fix a :: u64
  let ?k = "a AND NOT 7" and ?i = "unat (a AND 7)"
  have i: "?i < 8" by (simp add: and_7)
  have al: "?k AND 7 = 0" by (rule and_not_and)
  have a: "?k + of_nat ?i = a" by (rule byte_addr)
  show "bytes_of (words_of b m) a = b a"
  proof (rule bit_word_eqI)
    fix n assume n: "n < LENGTH(8)"
    then have "8 * ?i + n < 64" "(8 * ?i + n) div 8 = ?i" "(8 * ?i + n) mod 8 = n" using i by auto
    then show "bit (bytes_of (words_of b m) a) n \<longleftrightarrow> bit (b a) n"
      using n al a by (simp add: bytes_of_def words_of_def bit_simps bit_le_word)
  qed
qed

lemma bytes_of_store [simp]: "bytes_of (mem (store_bytes a bs s)) = put_mem a bs (bytes_of (mem s))"
  by (simp add: store_bytes_def)

lemma words_of_same:
  assumes "\<And>i. i < 8 \<Longrightarrow> b (x + of_nat i) = bytes_of m (x + of_nat i)"
  shows "words_of b m x = m x"
proof -
  have "le_word (\<lambda>i. b (x + of_nat i)) n = le_word (\<lambda>i. bytes_of m (x + of_nat i)) n" if "n \<le> 8" for n
    using that assms by (induction n) auto
  then have "words_of b m x = words_of (bytes_of m) m x" by (simp only: words_of_def le_refl)
  then show ?thesis by simp
qed

subsection \<open>Bytes in frames\<close>

text \<open>The bytes of an aligned word lie in the frame of the word.\<close>

lemma vframe_mod8: "unat (V2P a) mod 8 = unat a mod 8"
proof -
  have "V2P a = a + 0x800000000000" by (simp add: V2P_def HHDM_OFFSET_def)
  then have "unat (V2P a) = (unat a + 0x800000000000) mod 2 ^ 64" by (simp add: unat_word_ariths)
  then have "unat (V2P a) mod 8 = (unat a + 0x800000000000) mod 8" by (simp add: mod_mod_cancel)
  also have "\<dots> = unat a mod 8" by presburger
  finally show ?thesis .
qed

lemma vframe_byte:
  assumes "x AND 7 = 0" "i < 8"
  shows "vframe (x + of_nat i) = vframe x"
proof -
  have "unat (x AND 7) = 0" using assms(1) by simp
  then have "unat (V2P x) mod 8 = 0" by (simp add: vframe_mod8 and_7)
  then obtain k where k: "unat (V2P x) = 8 * k" by (auto simp: mod_eq_0_iff_dvd)
  have "unat (V2P x) < 2 ^ 64" using unsigned_less [of "V2P x", where ?'a = nat] by simp
  then have lt: "8 * k + i < 2 ^ 64" using k assms(2) by simp
  have "unat (of_nat i :: u64) = i" using assms(2) by (simp add: unat_of_nat)
  then have "unat (V2P (x + of_nat i)) = 8 * k + i" using k lt by (simp add: V2P_plus unat_add_no_wrap)
  moreover have "(8 * k + i) div (8 * 512) = 8 * k div (8 * 512)" using assms(2) by (simp add: div_mult2_eq)
  ultimately show ?thesis using k by (simp add: vframe_def)
qed

lemma bytes_of_frame: "(\<And>y. vframe y = vframe x \<Longrightarrow> m' y = m y) \<Longrightarrow> bytes_of m' x = bytes_of m x"
proof -
  assume same: "\<And>y. vframe y = vframe x \<Longrightarrow> m' y = m y"
  have "unat (x AND 7) < 8" by (simp add: and_7)
  then have "vframe (x AND NOT 7) = vframe x" using vframe_byte [OF and_not_and, of "unat (x AND 7)" x] unfolding byte_addr by simp
  then show ?thesis using same by (simp add: bytes_of_def)
qed

text \<open>Storing bytes in some frames changes no word of another frame.\<close>

lemma store_bytes_frames:
  assumes "unat p mod PGSIZE = 0" "unat p + n * PGSIZE < 2 ^ 47" "unat d + length bs \<le> n * PGSIZE"
    and x: "vframe x \<notin> frames p n"
  shows "mem (store_bytes (P2V p + d) bs s) x = mem s x"
proof (cases "x AND 7 = 0")
  case True
  have "put_mem (P2V p + d) bs (bytes_of (mem s)) (x + of_nat i) = bytes_of (mem s) (x + of_nat i)" if i: "i < 8" for i
  proof -
    let ?y = "x + of_nat i"
    have "\<not> unat (?y - (P2V p + d)) < length bs"
    proof
      assume lt: "unat (?y - (P2V p + d)) < length bs"
      let ?e = "?y - (P2V p + d)"
      have de: "unat (d + ?e) = unat d + unat ?e" using lt assms(2,3) by (intro unat_add_no_wrap) simp
      have "V2P ?y = p + (d + ?e)" by (simp add: V2P_def P2V_def)
      moreover have "unat (p + (d + ?e)) = unat p + (unat d + unat ?e)" using lt assms(2,3) de by (subst unat_add_no_wrap) simp_all
      ultimately have "vframe ?y = (unat p + (unat d + unat ?e)) div PGSIZE" by (simp add: vframe_def)
      moreover have "(unat p + k) div PGSIZE = unat p div PGSIZE + k div PGSIZE" for k using assms(1) by (simp add: div_add1_eq)
      moreover have "(unat d + unat ?e) div PGSIZE < n" using lt assms(3) by (intro div_less_iff_less_mult [THEN iffD2]) auto
      ultimately have "vframe ?y \<in> frames p n" by (simp add: frames_def)
      with x vframe_byte [OF True i] show False by simp
    qed
    moreover have "length bs \<le> 2 ^ 64" using assms(2,3) by simp
    ultimately show ?thesis by (simp add: put_mem_nth)
  qed
  then show ?thesis by (simp add: store_bytes_def words_of_same)
qed (simp add: store_bytes_def words_of_def)

lemma store_bytes_sel [simp]:
  "bitmap (store_bytes a bs s) = bitmap s" "slabber_first (store_bytes a bs s) = slabber_first s"
  "slabber_lock (store_bytes a bs s) = slabber_lock s" "machine.more (store_bytes a bs s) = machine.more s"
  "used_pages (store_bytes a bs s) = used_pages s"
  by (simp_all add: store_bytes_def used_pages_def)

end
