(* ===== verification/Elf_Load.thy ===== *)
theory Elf_Load
  imports Address_Space Word_Bytes Exec_Args Initramfs
begin

section \<open>Loading a program (loadelf of kernel/proc.c)\<close>

text \<open>
  \<open>loadelf\<close> reads the header of a file and its program headers through the file system, allocates frames for each loadable segment,
  maps them into an address space and reads the segment into them through the direct map.  The file system and the machine
  are two parts of the state.  The two structures read from the file are the bytes read, the members are found at the offsets of
  the ELF format.
\<close>

subsection \<open>The function\<close>

definition u16_at :: "u8 list \<Rightarrow> nat \<Rightarrow> u16" where
  "u16_at bs i = ucast (le_word (\<lambda>k. bs ! (i + k)) 2)"

definition u32_at :: "u8 list \<Rightarrow> nat \<Rightarrow> u32" where
  "u32_at bs i = ucast (le_word (\<lambda>k. bs ! (i + k)) 4)"

definition u64_at :: "u8 list \<Rightarrow> nat \<Rightarrow> u64" where
  "u64_at bs i = le_word (\<lambda>k. bs ! (i + k)) 8"

definition sizeof_Elf64_Ehdr :: nat where "sizeof_Elf64_Ehdr = 64"
definition e_entry :: "u8 list \<Rightarrow> u64" where "e_entry elf = u64_at elf 24"
definition e_phoff :: "u8 list \<Rightarrow> u64" where "e_phoff elf = u64_at elf 32"
definition e_phentsize :: "u8 list \<Rightarrow> u16" where "e_phentsize elf = u16_at elf 54"
definition e_phnum :: "u8 list \<Rightarrow> u16" where "e_phnum elf = u16_at elf 56"

definition sizeof_Elf64_Phdr :: nat where "sizeof_Elf64_Phdr = 56"
definition p_type :: "u8 list \<Rightarrow> u32" where "p_type phdr = u32_at phdr 0"
definition p_flags :: "u8 list \<Rightarrow> u32" where "p_flags phdr = u32_at phdr 4"
definition p_offset :: "u8 list \<Rightarrow> u64" where "p_offset phdr = u64_at phdr 8"
definition p_vaddr :: "u8 list \<Rightarrow> u64" where "p_vaddr phdr = u64_at phdr 16"
definition p_filesz :: "u8 list \<Rightarrow> u64" where "p_filesz phdr = u64_at phdr 32"
definition p_memsz :: "u8 list \<Rightarrow> u64" where "p_memsz phdr = u64_at phdr 40"

definition PT_LOAD :: u32 where "PT_LOAD = 1"
definition PT_PHDR :: u32 where "PT_PHDR = 6"
definition PF_X :: u32 where "PF_X = 1"
definition PF_W :: u32 where "PF_W = 2"

definition seg_flags :: "u32 \<Rightarrow> u64" where
  "seg_flags fl =
     (let flags = PTE_PRESENT OR PTE_USER;
          flags = (if fl AND PF_W \<noteq> 0 then flags OR PTE_RW else flags) in
      if fl AND PF_X = 0 then flags OR PTE_NX else flags)"

text \<open>
  The \<open>switch\<close> over the type of a program header.  The results of \<open>mappages\<close> and \<open>vfs_read\<close> are ignored; a read that fails leaves
  the buffer, here the bytes of the frames, as it was.
\<close>

definition load_seg :: "ptr \<Rightarrow> u8 list \<Rightarrow> u64 \<Rightarrow> auxval \<Rightarrow> fs \<Rightarrow> 'a machine_scheme \<Rightarrow> (auxval \<times> fs \<times> 'a machine_scheme) result" where
  "load_seg vn phdr vmap aux f s =
     (if p_type phdr = PT_LOAD
      then let pagecount = DIV_ROUNDUP (p_memsz phdr) 4096 in
           ebind (palloc (unat pagecount) s) (\<lambda>(paddr, s).
           let flags = seg_flags (p_flags phdr) in
           ebind (ld vmap 0 s) (\<lambda>top_level.
           ebind (mappages top_level (p_vaddr phdr) paddr (pagecount * 4096) flags s) (\<lambda>(_, s).
           ebind (vfs_read vn (bytes_at (bytes_of (mem s)) (P2V paddr) (unat (p_filesz phdr))) (p_offset phdr) (p_filesz phdr) f)
             (\<lambda>(_, buf, f). Inr (aux, f, store_bytes (P2V paddr) buf s)))))
      else if p_type phdr = PT_PHDR then Inr (aux\<lparr>at_phdr := p_vaddr phdr\<rparr>, f, s)
      else Inr (aux, f, s))"

fun load_segs :: "ptr \<Rightarrow> u64 \<Rightarrow> nat \<Rightarrow> nat \<Rightarrow> u8 list \<Rightarrow> u64 \<Rightarrow> auxval \<Rightarrow> fs \<Rightarrow> 'a machine_scheme \<Rightarrow>
    (auxval \<times> fs \<times> 'a machine_scheme) result" where
  "load_segs vn phoff i 0 phdr vmap aux f s = Inr (aux, f, s)"
| "load_segs vn phoff i (Suc n) phdr vmap aux f s =
     ebind (vfs_read vn phdr (phoff + of_nat i * of_nat sizeof_Elf64_Phdr) (of_nat sizeof_Elf64_Phdr) f) (\<lambda>(_, phdr, f).
     ebind (load_seg vn phdr vmap aux f s) (\<lambda>(aux, f, s).
     load_segs vn phoff (Suc i) n phdr vmap aux f s))"

text \<open>When the file cannot be opened, \<open>vn\<close> is an uninitialised variable and reading through it is an error.\<close>

definition loadelf :: "u8 list \<Rightarrow> u64 \<Rightarrow> auxval \<Rightarrow> fs \<Rightarrow> 'a machine_scheme \<Rightarrow> (auxval \<times> fs \<times> 'a machine_scheme) result" where
  "loadelf name vmap aux f s =
     ebind (vfs_open name VNON 0 f) (\<lambda>(_, vpp, f).
     case vpp of None \<Rightarrow> Inl BadAccess
     | Some vn \<Rightarrow>
         ebind (vfs_read vn (junk_bytes f sizeof_Elf64_Ehdr) 0 (of_nat sizeof_Elf64_Ehdr) f) (\<lambda>(_, elf, f).
         ebind (load_segs vn (e_phoff elf) 0 (unat (e_phnum elf)) (junk_bytes f sizeof_Elf64_Phdr) vmap aux f s) (\<lambda>(aux, f, s).
         Inr (aux\<lparr>at_entry := e_entry elf, at_phent := ucast (e_phentsize elf), at_phnum := ucast (e_phnum elf)\<rparr>, f, s))))"

subsection \<open>What a program sees\<close>

text \<open>The byte at an address of an address space, as the processor finds it: walk the tables, then add the offset in the page.\<close>

definition user_byte :: "(u64 \<Rightarrow> u64) \<Rightarrow> u64 \<Rightarrow> u64 \<Rightarrow> u8 option" where
  "user_byte m t va = (case walk m t va of None \<Rightarrow> None | Some e \<Rightarrow> Some (bytes_of m (P2V (PTE_GET_ADDR e) + (va AND 0xfff))))"

definition seg_pages :: "u8 list \<Rightarrow> nat" where
  "seg_pages ph = (unat (p_memsz ph) + 4095) div PGSIZE"

text \<open>A loadable segment lies inside its file and in the lower half of the address space, and its memory is not smaller than its part of the file.\<close>

definition seg_ok :: "u8 list \<Rightarrow> u8 list \<Rightarrow> bool" where
  "seg_ok d ph \<longleftrightarrow> 0 < unat (p_memsz ph) \<and> p_filesz ph \<le> p_memsz ph \<and> unat (p_offset ph) + unat (p_filesz ph) \<le> length d \<and>
     unat (p_vaddr ph) + unat (p_memsz ph) + PGSIZE \<le> 2 ^ 47"

definition seg_va :: "u8 list \<Rightarrow> nat \<Rightarrow> u64" where
  "seg_va ph k = p_vaddr ph + of_nat k * 4096"

text \<open>The segment lies in the frames from \<open>paddr\<close> on and is mapped page by page.\<close>

definition seg_at :: "(u64 \<Rightarrow> u64) \<Rightarrow> u64 \<Rightarrow> u8 list \<Rightarrow> u8 list \<Rightarrow> u64 \<Rightarrow> bool" where
  "seg_at m t d ph paddr \<longleftrightarrow> unat paddr mod PGSIZE = 0 \<and> unat paddr + seg_pages ph * PGSIZE < 2 ^ 47 \<and>
     (\<forall>k < seg_pages ph. walk m t (seg_va ph k) = Some ((paddr + of_nat k * 4096) OR seg_flags (p_flags ph))) \<and>
     (\<forall>i < seg_pages ph * PGSIZE. bytes_of m (P2V paddr + of_nat i) = (if i < unat (p_filesz ph) then d ! (unat (p_offset ph) + i) else 0))"

text \<open>The frames are allocated, no tables, and none of the frames \<open>U\<close>.\<close>

definition seg_in :: "nat set \<Rightarrow> 'a machine_scheme \<Rightarrow> u64 \<Rightarrow> u8 list \<Rightarrow> u8 list \<Rightarrow> bool" where
  "seg_in U s t d ph \<longleftrightarrow> (\<exists>paddr. seg_at (mem s) t d ph paddr \<and> frames paddr (seg_pages ph) \<subseteq> used_pages s \<and>
     frames paddr (seg_pages ph) \<inter> tables (mem s) t = {} \<and> frames paddr (seg_pages ph) \<inter> U = {})"

lemma seg_flags_present: "seg_flags fl AND PTE_PRESENT \<noteq> 0" "seg_flags fl AND PTE_ADDR_MASK = 0"
  by (simp_all add: seg_flags_def PTE_PRESENT_def PTE_USER_def PTE_RW_def PTE_NX_def PTE_ADDR_MASK_def Let_def)

lemma seg_pages_roundup:
  assumes "seg_ok d ph"
  shows "unat (DIV_ROUNDUP (p_memsz ph) 4096) = seg_pages ph" "0 < seg_pages ph" "seg_pages ph * PGSIZE < unat (p_memsz ph) + PGSIZE"
    "unat (p_memsz ph) \<le> seg_pages ph * PGSIZE" "DIV_ROUNDUP (p_memsz ph) 4096 * 4096 = of_nat (seg_pages ph * PGSIZE)"
proof -
  have "unat (p_memsz ph) + unat (4096 :: u64) \<le> 2 ^ 64" "0 < unat (p_memsz ph)" using assms by (simp_all add: seg_ok_def)
  from unat_DIV_ROUNDUP [OF _ this(1)] this(2) show d: "unat (DIV_ROUNDUP (p_memsz ph) 4096) = seg_pages ph"
    by (simp add: seg_pages_def)
  show "0 < seg_pages ph" using \<open>0 < unat (p_memsz ph)\<close> by (simp add: seg_pages_def div_greater_zero_iff)
  show "seg_pages ph * PGSIZE < unat (p_memsz ph) + PGSIZE" "unat (p_memsz ph) \<le> seg_pages ph * PGSIZE"
    unfolding seg_pages_def
    using div_mult_mod_eq [of "unat (p_memsz ph) + 4095" PGSIZE] mod_less_divisor [of PGSIZE "unat (p_memsz ph) + 4095"] by linarith+
  have "DIV_ROUNDUP (p_memsz ph) 4096 = of_nat (seg_pages ph)" unfolding d [symmetric] by simp
  then show "DIV_ROUNDUP (p_memsz ph) 4096 * 4096 = of_nat (seg_pages ph * PGSIZE)" by simp
qed

subsection \<open>Loading one segment\<close>

text \<open>Storing into frames that were free before a step and are no tables after it.\<close>

lemma walk_same_frames:
  assumes "vm_wf s t" and "\<And>x. vframe x \<in> tables (mem s) t \<Longrightarrow> m' x = mem s x"
  shows "walk m' t va = walk (mem s) t va" "ok_path p \<Longrightarrow> node m' t p = node (mem s) t p"
proof -
  have same: "m' (slot b j) = mem s (slot b j)" if "ok_path q" "node (mem s) t q = Some b" "j < 512" for q b j
  proof -
    have "vframe (slot b j) \<in> tables (mem s) t"
      using that slot_vframe [OF vm_wfD(2) [OF assms(1) that(1,2)] that(3)] by (auto simp: tables_def)
    then show ?thesis by (rule assms(2))
  qed
  then show "walk m' t va = walk (mem s) t va" by (rule node_same_memory)
  show "node m' t p = node (mem s) t p" if p: "ok_path p"
  proof (rule node_cong [where w = "[0, 0, 0, 0]", OF _ p])
    show "m' (slot b j) = mem s (slot b j)" if "ok_path (q @ [j])" "node (mem s) t q = Some b" for q b j
      using same [OF _ that(2)] that(1) by (simp add: ok_path_snoc)
  qed (use p in \<open>auto simp: ok_path_def\<close>)
qed

lemma store_bytes_step:
  assumes step: "tree_step t s s1" and p: "unat p mod PGSIZE = 0" "unat p + n * PGSIZE < 2 ^ 47" "unat d + length bs \<le> n * PGSIZE"
    and fr: "frames p n \<inter> used_pages s = {}" "frames p n \<inter> tables (mem s1) t = {}" "frames p n \<subseteq> used_pages s1"
  shows "tree_step t s (store_bytes (P2V p + d) bs s1)" "walk (mem (store_bytes (P2V p + d) bs s1)) t va = walk (mem s1) t va"
    "tables (mem (store_bytes (P2V p + d) bs s1)) t = tables (mem s1) t"
proof -
  let ?s = "store_bytes (P2V p + d) bs s1"
  have wf: "vm_wf s1 t" using step by (simp add: tree_step_def)
  have far: "mem ?s x = mem s1 x" if "vframe x \<notin> frames p n" for x by (rule store_bytes_frames [OF p that])
  then have tab: "mem ?s x = mem s1 x" if "vframe x \<in> tables (mem s1) t" for x using fr(2) that by blast
  note same = walk_same_frames [OF wf tab]
  show "walk (mem ?s) t va = walk (mem s1) t va" by (rule same(1))
  show tb: "tables (mem ?s) t = tables (mem s1) t" unfolding tables_def using same(2) by metis
  have "vm_wf ?s t" using wf same(2) by (simp add: vm_wf_def pmm_wf_def)
  moreover have "mem ?s x = mem s x" if "vframe x \<in> used_pages s" "vframe x \<notin> tables (mem s) t" for x
    using tree_stepD(4) [OF step that] far [of x] fr(1) that by auto
  moreover have "clean_frames ?s" if "clean_frames s"
    using tree_stepD(5) [OF step that] far fr(3) unfolding clean_frames_def store_bytes_sel by (metis subsetD)
  moreover have "?s = s\<lparr>bitmap := bitmap ?s, dbg_g := dbg_g ?s, mem := mem ?s\<rparr>"
  proof -
    have "?s = s1\<lparr>mem := mem ?s\<rparr>" by (simp add: store_bytes_def)
    also have "\<dots> = s\<lparr>bitmap := bitmap s1, dbg_g := dbg_g s1, mem := mem ?s\<rparr>" by (subst tree_stepD(6) [OF step]) simp
    finally show ?thesis by (simp add: store_bytes_def)
  qed
  ultimately show "tree_step t s ?s" unfolding tree_step_def using tree_stepD(2,3,7) [OF step] tb by (intro conjI) simp_all
qed

lemma vframe_range:
  assumes "unat p mod PGSIZE = 0" "unat p + n * PGSIZE < 2 ^ 47" "i < n * PGSIZE"
  shows "vframe (P2V p + of_nat i) \<in> frames p n"
proof -
  have "unat (of_nat i :: u64) = i" using assms(2,3) by (intro unat_of_nat_64) simp
  then have "vframe (P2V p + of_nat i) = (unat p + i) div PGSIZE"
    using assms(2,3) by (simp add: vframe_def V2P_plus unat_add_no_wrap)
  moreover have "(unat p + i) div PGSIZE = unat p div PGSIZE + i div PGSIZE" using assms(1) by (simp add: div_add1_eq)
  moreover have "i div PGSIZE < n" using assms(3) by (simp add: div_less_iff_less_mult)
  ultimately show ?thesis by (simp add: frames_def)
qed

lemma load_seg_load:
  assumes wf: "vm_wf s t" and clean: "clean_frames s"
    and vm: "mem s vmap = t" "vmap \<noteq> 0"
    and ph: "p_type ph = PT_LOAD" "seg_ok d ph" and rd: "reads_as f vn d" and room: "room s (m + 4 * seg_pages ph)"
    and free: "\<forall>k < seg_pages ph. walk (mem s) t (seg_va ph k) = None"
  obtains s' where "load_seg vn ph vmap aux f s = Inr (aux, f, s')" "tree_step t s s'" "room s' m" "seg_in (used_pages s) s' t d ph"
    "\<forall>va. (\<forall>k < seg_pages ph. vpage va \<noteq> vpage (seg_va ph k)) \<longrightarrow> walk (mem s') t va = walk (mem s) t va"
proof -
  let ?n = "seg_pages ph" and ?fl = "seg_flags (p_flags ph)" and ?fsz = "unat (p_filesz ph)" and ?off = "unat (p_offset ph)"
  note sz = seg_pages_roundup [OF ph(2)]
  have n36: "?n \<le> 2 ^ 36" using sz(3) ph(2) by (simp add: seg_ok_def)
  obtain p s1 s2 where al: "palloc ?n s = Inr (p, s1)" and mem1: "mem s1 = mem s" and mp: "mappages t (p_vaddr ph) p (of_nat (?n * PGSIZE)) ?fl s1 = Inr (0, s2)"
    and step: "tree_step t s s2" and r2: "room s2 m" and p: "unat p mod PGSIZE = 0" "unat p + (?n + 7) * PGSIZE < 2 ^ 47"
    and u: "frames p ?n \<inter> used_pages s = {}" "frames p ?n \<subseteq> used_pages s2" and tab: "frames p ?n \<inter> tables (mem s2) t = {}"
    and z: "\<forall>x. vframe x \<in> frames p ?n \<longrightarrow> mem s2 x = 0" and new: "\<forall>k < ?n. walk (mem s2) t (seg_va ph k) = Some ((p + of_nat k * 4096) OR ?fl)"
    and old: "\<forall>vb. (\<forall>k < ?n. vpage vb \<noteq> vpage (seg_va ph k)) \<longrightarrow> walk (mem s2) t vb = walk (mem s) t vb"
    by (rule map_fresh_run [where va = "p_vaddr ph", OF wf clean room sz(2) n36 seg_flags_present(1) [of "p_flags ph"] free [unfolded seg_va_def], folded seg_va_def])
      (rule that; assumption)
  let ?bs = "take ?fsz (drop ?off d)"
  define s' where "s' = store_bytes (P2V p) ?bs s2"
  have fsz: "?off + ?fsz \<le> length d" "?fsz \<le> unat (p_memsz ph)" using ph(2) by (simp_all add: seg_ok_def word_le_nat_alt)
  have len: "length ?bs = ?fsz" using fsz(1) by simp
  have read: "vfs_read vn (bytes_at (bytes_of (mem s2)) (P2V p) ?fsz) (p_offset ph) (p_filesz ph) f = Inr (int ?fsz, ?bs, f)"
    using reads_asD [OF rd fsz(1), of "bytes_at (bytes_of (mem s2)) (P2V p) ?fsz"] by simp
  have run: "load_seg vn ph vmap aux f s = Inr (aux, f, s')"
    using ph(1) al vm mp read sz(1,5) by (simp add: load_seg_def Let_def ld_def mem1 s'_def)
  have fr: "unat p + ?n * PGSIZE < 2 ^ 47" "unat (0 :: u64) + length ?bs \<le> ?n * PGSIZE" using p(2) len fsz(2) sz(4) by auto
  note st = store_bytes_step [OF step p(1) fr(1,2) u(1) tab u(2), unfolded add_0_right, folded s'_def]
  have zero: "bytes_of (mem s2) (P2V p + of_nat i) = 0" if i: "i < ?n * PGSIZE" for i
  proof -
    have "bytes_of (mem s2) (P2V p + of_nat i) = bytes_of (\<lambda>_. 0) (P2V p + of_nat i)"
      by (rule bytes_of_frame) (use z vframe_range [OF p(1) fr(1) i] in simp)
    then show ?thesis by (simp add: bytes_of_def)
  qed
  have "seg_at (mem s') t d ph p"
    unfolding seg_at_def
  proof (intro conjI allI impI)
    show "walk (mem s') t (seg_va ph k) = Some ((p + of_nat k * 4096) OR ?fl)" if "k < ?n" for k
      using new that st(2) by simp
    show "bytes_of (mem s') (P2V p + of_nat i) = (if i < ?fsz then d ! (?off + i) else 0)" if i: "i < ?n * PGSIZE" for i
    proof -
      have "length ?bs \<le> 2 ^ 64" "i < 2 ^ 64" using i fr(1,2) by simp_all
      from put_mem_at [OF this, of "P2V p" "bytes_of (mem s2)"] show ?thesis unfolding s'_def bytes_of_store using zero [OF i] fsz(1) len by simp
    qed
  qed (use p fr(1) in auto)
  then have "seg_in (used_pages s) s' t d ph" unfolding seg_in_def using u tab st(3) by (intro exI [of _ p]) (simp add: s'_def)
  moreover have "walk (mem s') t va = walk (mem s) t va" if "\<forall>k < ?n. vpage va \<noteq> vpage (seg_va ph k)" for va
    using old that st(2) by simp
  moreover have "room s' m" using r2 room_cong [of s' s2] by (simp add: s'_def)
  ultimately show thesis using that run st(1) by blast
qed

text \<open>A loaded segment stays where it is while other pages are mapped.\<close>

lemma seg_at_kept:
  assumes "vm_wf s t" "seg_at (mem s) t d ph p" and "\<And>x. vframe x \<in> frames p (seg_pages ph) \<Longrightarrow> m' x = mem s x"
    and "\<forall>k < seg_pages ph. walk m' t (seg_va ph k) = walk (mem s) t (seg_va ph k)"
  shows "seg_at m' t d ph p"
proof -
  have "bytes_of m' (P2V p + of_nat i) = bytes_of (mem s) (P2V p + of_nat i)" if i: "i < seg_pages ph * PGSIZE" for i
  proof (rule bytes_of_frame)
    fix y assume "vframe y = vframe (P2V p + of_nat i)"
    then have "vframe y \<in> frames p (seg_pages ph)" using vframe_range [of p "seg_pages ph" i] assms(2) i by (simp add: seg_at_def)
    then show "m' y = mem s y" by (rule assms(3))
  qed
  then show ?thesis using assms(2,4) by (simp add: seg_at_def)
qed

lemma seg_in_kept:
  assumes wf: "vm_wf s t" and "seg_in U s t d ph" and step: "tree_step t s s'"
    and same: "\<forall>k < seg_pages ph. walk (mem s') t (seg_va ph k) = walk (mem s) t (seg_va ph k)"
  shows "seg_in U s' t d ph"
proof -
  obtain p where p: "seg_at (mem s) t d ph p" "frames p (seg_pages ph) \<subseteq> used_pages s" "frames p (seg_pages ph) \<inter> tables (mem s) t = {}"
    "frames p (seg_pages ph) \<inter> U = {}" using assms(2) by (auto simp: seg_in_def)
  have "mem s' y = mem s y" if "vframe y \<in> frames p (seg_pages ph)" for y using that tree_stepD(4) [OF step, of y] p(2,3) by auto
  then have "seg_at (mem s') t d ph p" using same by (rule seg_at_kept [OF wf p(1)])
  moreover have "frames p (seg_pages ph) \<inter> tables (mem s') t = {}" using tree_stepD(3) [OF step] p(2,3) by auto
  ultimately show ?thesis unfolding seg_in_def using p(2,4) tree_stepD(2) [OF step] by blast
qed

subsection \<open>All segments\<close>

definition phdr_at :: "u8 list \<Rightarrow> nat \<Rightarrow> u8 list" where
  "phdr_at d i = take sizeof_Elf64_Phdr (drop (unat (e_phoff (take sizeof_Elf64_Ehdr d)) + sizeof_Elf64_Phdr * i) d)"

definition phdrs :: "u8 list \<Rightarrow> u8 list list" where
  "phdrs d = map (phdr_at d) [0..<unat (e_phnum (take sizeof_Elf64_Ehdr d))]"

abbreviation loads :: "u8 list list \<Rightarrow> u8 list list" where
  "loads phs \<equiv> filter (\<lambda>ph. p_type ph = PT_LOAD) phs"

definition seg_vpages :: "u8 list list \<Rightarrow> nat list" where
  "seg_vpages phs = concat (map (\<lambda>ph. map (\<lambda>k. vpage (seg_va ph k)) [0..<seg_pages ph]) phs)"

definition elf_pages :: "u8 list list \<Rightarrow> nat" where
  "elf_pages phs = sum_list (map seg_pages phs)"

definition aux_phdr :: "u8 list list \<Rightarrow> auxval \<Rightarrow> auxval" where
  "aux_phdr phs aux = fold (\<lambda>ph aux. if p_type ph = PT_PHDR then aux\<lparr>at_phdr := p_vaddr ph\<rparr> else aux) phs aux"

text \<open>An executable file: the headers lie inside it, and so do the segments, which share no page.\<close>

definition elf_ok :: "u8 list \<Rightarrow> bool" where
  "elf_ok d \<longleftrightarrow> sizeof_Elf64_Ehdr \<le> length d \<and> length d < 2 ^ 63 \<and>
     unat (e_phoff (take sizeof_Elf64_Ehdr d)) + sizeof_Elf64_Phdr * unat (e_phnum (take sizeof_Elf64_Ehdr d)) \<le> length d \<and>
     (\<forall>ph \<in> set (loads (phdrs d)). seg_ok d ph) \<and> distinct (seg_vpages (loads (phdrs d)))"

text \<open>What loading starts from: a tree whose map is in memory outside it, with the pages of the segments not mapped.\<close>

definition load_pre :: "'a machine_scheme \<Rightarrow> u64 \<Rightarrow> u64 \<Rightarrow> u8 list list \<Rightarrow> nat \<Rightarrow> bool" where
  "load_pre s vmap t phs m \<longleftrightarrow> vm_wf s t \<and> clean_frames s \<and> mem s vmap = t \<and> vmap \<noteq> 0 \<and> vframe vmap \<in> used_pages s \<and>
     vframe vmap \<notin> tables (mem s) t \<and> room s (m + 4 * elf_pages phs) \<and> (\<forall>ph \<in> set phs. \<forall>k < seg_pages ph. walk (mem s) t (seg_va ph k) = None)"

definition load_post :: "'a machine_scheme \<Rightarrow> u64 \<Rightarrow> u8 list \<Rightarrow> u8 list list \<Rightarrow> nat \<Rightarrow> 'a machine_scheme \<Rightarrow> bool" where
  "load_post s t d phs m s' \<longleftrightarrow> tree_step t s s' \<and> room s' m \<and> (\<forall>ph \<in> set phs. seg_in (used_pages s) s' t d ph) \<and>
     (\<forall>va. vpage va \<notin> set (seg_vpages phs) \<longrightarrow> walk (mem s') t va = walk (mem s) t va)"

lemma seg_vpages_simps [simp]:
  "seg_vpages [] = []" "seg_vpages (ph # phs) = map (\<lambda>k. vpage (seg_va ph k)) [0..<seg_pages ph] @ seg_vpages phs"
  by (simp_all add: seg_vpages_def)

lemma elf_pages_simps [simp]: "elf_pages [] = 0" "elf_pages (ph # phs) = seg_pages ph + elf_pages phs"
  by (simp_all add: elf_pages_def)

lemma vpage_in_seg_vpages: "ph \<in> set phs \<Longrightarrow> k < seg_pages ph \<Longrightarrow> vpage (seg_va ph k) \<in> set (seg_vpages phs)"
  by (force simp: seg_vpages_def)

lemma seg_vpages_apart:
  assumes "distinct (seg_vpages (ph # phs))" "k < seg_pages ph"
  shows "vpage (seg_va ph k) \<notin> set (seg_vpages phs)"
proof -
  have "vpage (seg_va ph k) \<in> set (map (\<lambda>k. vpage (seg_va ph k)) [0..<seg_pages ph])" using assms(2) by simp
  then show ?thesis using assms(1) unfolding seg_vpages_simps distinct_append by blast
qed

lemma load_pre_step:
  assumes pre: "load_pre s vmap t (ph # phs) m" and d: "distinct (seg_vpages (ph # phs))" and step: "tree_step t s s1"
    and r: "room s1 (m + 4 * elf_pages phs)" and old: "\<forall>va. (\<forall>k < seg_pages ph. vpage va \<noteq> vpage (seg_va ph k)) \<longrightarrow> walk (mem s1) t va = walk (mem s) t va"
  shows "load_pre s1 vmap t phs m"
proof -
  have "walk (mem s1) t (seg_va q k) = None" if "q \<in> set phs" "k < seg_pages q" for q k
  proof -
    have "vpage (seg_va q k) \<in> set (seg_vpages phs)" using that by (rule vpage_in_seg_vpages)
    then have "\<forall>j < seg_pages ph. vpage (seg_va q k) \<noteq> vpage (seg_va ph j)" using seg_vpages_apart [OF d] by auto
    then show ?thesis using old that pre by (simp add: load_pre_def)
  qed
  moreover have "mem s1 vmap = t" "vframe vmap \<notin> tables (mem s1) t"
    using tree_stepD(3) [OF step] tree_stepD(4) [OF step, of vmap] pre by (auto simp: load_pre_def)
  ultimately show ?thesis using tree_stepD(1,2) [OF step] tree_stepD(5) [OF step] r pre by (auto simp: load_pre_def)
qed

lemma load_post_Cons:
  assumes d: "distinct (seg_vpages (ph # phs))" and s1: "tree_step t s s1" "seg_in (used_pages s) s1 t d' ph"
    "\<forall>va. (\<forall>k < seg_pages ph. vpage va \<noteq> vpage (seg_va ph k)) \<longrightarrow> walk (mem s1) t va = walk (mem s) t va"
    and s': "load_post s1 t d' phs m s'"
  shows "load_post s t d' (ph # phs) m s'"
proof -
  have "seg_in (used_pages s) s' t d' ph"
    using s' seg_vpages_apart [OF d] by (intro seg_in_kept [OF tree_stepD(1) [OF s1(1)] s1(2)]) (auto simp: load_post_def)
  moreover have "seg_in (used_pages s) s' t d' q" if "seg_in (used_pages s1) s' t d' q" for q
    using that tree_stepD(2) [OF s1(1)] unfolding seg_in_def by blast
  moreover have "walk (mem s') t va = walk (mem s) t va" if "vpage va \<notin> set (seg_vpages (ph # phs))" for va
  proof -
    have "\<forall>k < seg_pages ph. vpage va \<noteq> vpage (seg_va ph k)" using that by auto
    then show ?thesis using s1(3) s' that by (simp add: load_post_def)
  qed
  ultimately show ?thesis using s' tree_step_trans [OF s1(1)] by (auto simp: load_post_def)
qed

lemma load_segs_spec:
  fixes s :: "'a machine_scheme"
  assumes rd: "reads_as f vn d" and phoff: "phoff = e_phoff (take sizeof_Elf64_Ehdr d)"
    and len: "unat phoff + sizeof_Elf64_Phdr * N \<le> length d" "length d < 2 ^ 63"
  shows "i + n \<le> N \<Longrightarrow> length phdr = sizeof_Elf64_Phdr \<Longrightarrow> load_pre s vmap t (loads (map (phdr_at d) [i..<i + n])) m \<Longrightarrow>
    (\<forall>ph \<in> set (loads (map (phdr_at d) [i..<i + n])). seg_ok d ph) \<Longrightarrow> distinct (seg_vpages (loads (map (phdr_at d) [i..<i + n]))) \<Longrightarrow>
    \<exists>s'. load_segs vn phoff i n phdr vmap aux f s = Inr (aux_phdr (map (phdr_at d) [i..<i + n]) aux, f, s') \<and>
      load_post s t d (loads (map (phdr_at d) [i..<i + n])) m s'"
proof (induction n arbitrary: i phdr aux s)
  case 0
  then show ?case by (auto simp: aux_phdr_def load_pre_def load_post_def tree_step_refl)
next
  case (Suc n)
  let ?ph = "phdr_at d i" and ?phs = "map (phdr_at d) [Suc i..<Suc i + n]"
  have hs: "map (phdr_at d) [i..<i + Suc n] = ?ph # ?phs" by (simp add: upt_conv_Cons del: upt_Suc)
  note prems = Suc.prems [unfolded hs]
  have "i < N" using prems(1) by simp
  then have le: "sizeof_Elf64_Phdr * i + sizeof_Elf64_Phdr \<le> sizeof_Elf64_Phdr * N" by (metis Suc_leI mult_Suc_right add.commute mult_le_mono2)
  have off: "unat (phoff + of_nat i * of_nat sizeof_Elf64_Phdr) = unat phoff + sizeof_Elf64_Phdr * i"
    using le len by (simp add: unat_word_ariths unat_of_nat sizeof_Elf64_Phdr_def mult.commute)
  have sz: "unat (of_nat sizeof_Elf64_Phdr :: u64) = sizeof_Elf64_Phdr" by (simp add: sizeof_Elf64_Phdr_def)
  have rng: "unat (phoff + of_nat i * of_nat sizeof_Elf64_Phdr) + unat (of_nat sizeof_Elf64_Phdr :: u64) \<le> length d" using off sz le len(1) by simp
  have read: "vfs_read vn phdr (phoff + of_nat i * of_nat sizeof_Elf64_Phdr) (of_nat sizeof_Elf64_Phdr) f = Inr (int sizeof_Elf64_Phdr, ?ph, f)"
    using reads_asD [OF rd rng, of phdr] prems(2) sz off phoff by (simp add: phdr_at_def)
  have lph: "length ?ph = sizeof_Elf64_Phdr" using le len(1) by (simp add: phdr_at_def phoff [symmetric])
  have ih: "\<exists>s'. load_segs vn phoff (Suc i) n ?ph vmap aux1 f s1 = Inr (aux_phdr ?phs aux1, f, s') \<and> load_post s1 t d (loads ?phs) m s'"
    if "load_pre s1 vmap t (loads ?phs) m" for aux1 and s1 :: "'a machine_scheme"
    by (rule Suc.IH) (use prems lph that in \<open>auto split: if_splits\<close>)
  show ?case
  proof (cases "p_type ?ph = PT_LOAD")
    case True
    note pr = prems(3-5) [unfolded filter.simps if_P [OF True]]
    have "room s (m + 4 * elf_pages (loads ?phs) + 4 * seg_pages ?ph)" using pr(1) by (simp add: load_pre_def algebra_simps)
    then obtain s1 where s1: "load_seg vn ?ph vmap aux f s = Inr (aux, f, s1)" "tree_step t s s1" "room s1 (m + 4 * elf_pages (loads ?phs))"
      "seg_in (used_pages s) s1 t d ?ph" "\<forall>va. (\<forall>k < seg_pages ?ph. vpage va \<noteq> vpage (seg_va ?ph k)) \<longrightarrow> walk (mem s1) t va = walk (mem s) t va"
      using load_seg_load [where aux = aux, OF _ _ _ _ True _ rd] pr(1,2) unfolding load_pre_def by (metis list.set_intros(1))
    obtain s' where s': "load_segs vn phoff (Suc i) n ?ph vmap aux f s1 = Inr (aux_phdr ?phs aux, f, s')" "load_post s1 t d (loads ?phs) m s'"
      using ih [OF load_pre_step [OF pr(1,3) s1(2,3,5)]] by blast
    have "load_post s t d (?ph # loads ?phs) m s'" by (rule load_post_Cons [OF pr(3) s1(2,4,5) s'(2)])
    moreover have "aux_phdr (?ph # ?phs) aux = aux_phdr ?phs aux" using True by (simp add: aux_phdr_def PT_LOAD_def PT_PHDR_def)
    ultimately show ?thesis unfolding hs using read s1(1) s'(1) True by simp
  next
    case False
    let ?aux = "if p_type ?ph = PT_PHDR then aux\<lparr>at_phdr := p_vaddr ?ph\<rparr> else aux"
    have "load_seg vn ?ph vmap aux f s = Inr (?aux, f, s)" using False by (simp add: load_seg_def)
    moreover have "load_pre s vmap t (loads ?phs) m" using prems(3) False by simp
    then obtain s' where "load_segs vn phoff (Suc i) n ?ph vmap ?aux f s = Inr (aux_phdr ?phs ?aux, f, s')" "load_post s t d (loads ?phs) m s'"
      using ih by blast
    ultimately show ?thesis unfolding hs using read False by (simp add: aux_phdr_def)
  qed
qed

definition elf_aux :: "u8 list \<Rightarrow> auxval \<Rightarrow> auxval" where
  "elf_aux d aux = (let elf = take sizeof_Elf64_Ehdr d in
     (aux_phdr (phdrs d) aux)\<lparr>at_entry := e_entry elf, at_phent := ucast (e_phentsize elf), at_phnum := ucast (e_phnum elf)\<rparr>)"

lemma loadelf_spec:
  assumes opn: "vfs_open name VNON 0 f = Inr (0, Some vn, f1)" and rd: "reads_as f1 vn d" and junk: "\<forall>k. length (junk_bytes f1 k) = k"
    and ok: "elf_ok d" and pre: "load_pre s vmap t (loads (phdrs d)) m"
  shows "\<exists>s'. loadelf name vmap aux f s = Inr (elf_aux d aux, f1, s') \<and> load_post s t d (loads (phdrs d)) m s'"
proof -
  let ?elf = "take sizeof_Elf64_Ehdr d"
  have sz: "unat (of_nat sizeof_Elf64_Ehdr :: u64) = sizeof_Elf64_Ehdr" by (simp add: sizeof_Elf64_Ehdr_def)
  have rng: "unat (0 :: u64) + unat (of_nat sizeof_Elf64_Ehdr :: u64) \<le> length d" using ok sz by (simp add: elf_ok_def)
  have read: "vfs_read vn (junk_bytes f1 sizeof_Elf64_Ehdr) 0 (of_nat sizeof_Elf64_Ehdr) f1 = Inr (int sizeof_Elf64_Ehdr, ?elf, f1)"
    using reads_asD [OF rd rng, of "junk_bytes f1 sizeof_Elf64_Ehdr"] junk sz by simp
  have "unat (e_phoff ?elf) + sizeof_Elf64_Phdr * unat (e_phnum ?elf) \<le> length d" "length d < 2 ^ 63" using ok by (simp_all add: elf_ok_def)
  from load_segs_spec [OF rd refl this, of 0 "unat (e_phnum ?elf)" "junk_bytes f1 sizeof_Elf64_Phdr" s vmap t m aux]
  obtain s' where "load_segs vn (e_phoff ?elf) 0 (unat (e_phnum ?elf)) (junk_bytes f1 sizeof_Elf64_Phdr) vmap aux f1 s = Inr (aux_phdr (phdrs d) aux, f1, s')"
    "load_post s t d (loads (phdrs d)) m s'"
    using ok pre junk by (auto simp: elf_ok_def phdrs_def)
  then show ?thesis using opn read by (simp add: loadelf_def elf_aux_def Let_def)
qed

subsection \<open>The segments as the program sees them\<close>

lemma pte_addr:
  assumes "unat a mod PGSIZE = 0" "unat a < 2 ^ 47" "fl AND PTE_ADDR_MASK = 0"
  shows "PTE_GET_ADDR (a OR fl) = a"
proof -
  have d: "(x OR y) AND PTE_ADDR_MASK = x AND PTE_ADDR_MASK" if "y AND PTE_ADDR_MASK = 0" for x y
    using that by (simp add: bit.conj_disj_distrib2)
  have "(PTE_PRESENT OR PTE_RW OR PTE_USER) AND PTE_ADDR_MASK = 0"
    by (simp add: PTE_PRESENT_def PTE_RW_def PTE_USER_def PTE_ADDR_MASK_def)
  from d [OF this, of a] d [OF assms(3), of a] pte_table(1) [OF assms(1,2)] show ?thesis by (simp add: PTE_GET_ADDR_def)
qed

lemma fff: "(0xfff :: u64) = mask 12"
  by (simp add: mask_eq_exp_minus_1)

lemma unat_and_fff: "unat (a AND 0xfff :: u64) = unat a mod PGSIZE"
  by (simp add: fff take_bit_eq_mask [symmetric] take_bit_eq_mod unat_mod)

text \<open>The bytes of a page range: byte \<open>i\<close> counted from the start of the first page lies in page \<open>i div 4096\<close>.\<close>

lemma page_byte:
  assumes "unat va + n * PGSIZE \<le> 2 ^ 47" "i < n * PGSIZE"
  shows "vpage ((va AND NOT 0xfff) + of_nat i) = vpage (va + of_nat (i div PGSIZE) * 4096)"
    "unat (((va AND NOT 0xfff) + of_nat i) AND 0xfff) = i mod PGSIZE"
proof -
  let ?b = "va AND NOT 0xfff"
  have "?b = va - (va AND 0xfff)" using split_addr [of va "0xfff"] by (metis add_diff_cancel_right')
  moreover have "(va AND 0xfff) \<le> va" unfolding word_le_nat_alt unat_and_fff by simp
  ultimately have "unat ?b = unat va - unat va mod PGSIZE" by (simp add: unat_sub unat_and_fff)
  then have b: "unat va = unat ?b + unat va mod PGSIZE" "unat ?b mod PGSIZE = 0"
    by (simp_all add: minus_mod_eq_mult_div)
  have i: "unat (of_nat i :: u64) = i" using assms by (intro unat_of_nat_64) simp
  have bi: "unat (?b + of_nat i) = unat ?b + i" using b(1) assms i by (subst unat_add_no_wrap) simp_all
  have k: "i div PGSIZE * PGSIZE \<le> i" by simp
  have "unat (va + of_nat (i div PGSIZE) * 4096) = unat va + i div PGSIZE * PGSIZE"
    using k assms page_number_of_addr [of "i div PGSIZE"] by (subst unat_add_no_wrap) simp_all
  moreover have "(unat ?b + i) div PGSIZE = unat ?b div PGSIZE + i div PGSIZE" using b(2) by (simp add: div_add1_eq)
  moreover have "unat va div PGSIZE = unat ?b div PGSIZE" by (subst b(1)) (use b(2) in \<open>simp add: div_add1_eq\<close>)
  ultimately show "vpage (?b + of_nat i) = vpage (va + of_nat (i div PGSIZE) * 4096)" unfolding vpage_def bi by (simp add: add.commute)
  show "unat ((?b + of_nat i) AND 0xfff) = i mod PGSIZE" unfolding unat_and_fff bi using b(2) by (simp add: mod_add_eq [symmetric])
qed

text \<open>Frames mapped one after the other at \<open>va\<close> show the bytes of the frames in order.\<close>

lemma mapped_bytes:
  assumes map: "\<forall>k < n. walk m t (va + of_nat k * 4096) = Some ((p + of_nat k * 4096) OR fl)"
    and p: "unat p mod PGSIZE = 0" "unat p + n * PGSIZE < 2 ^ 47" and fl: "fl AND PTE_ADDR_MASK = 0"
    and va: "unat va + n * PGSIZE \<le> 2 ^ 47" and i: "i < n * PGSIZE"
  shows "user_byte m t ((va AND NOT 0xfff) + of_nat i) = Some (bytes_of m (P2V p + of_nat i))"
proof -
  let ?k = "i div PGSIZE" and ?va = "(va AND NOT 0xfff) + of_nat i"
  have k: "?k < n" using i by (simp add: div_less_iff_less_mult)
  have kp: "unat (of_nat ?k * 4096 :: u64) = ?k * PGSIZE" using i p(2) page_number_of_addr [of ?k] by simp
  have "?k * PGSIZE < n * PGSIZE" using k by simp
  then have a: "unat (p + of_nat ?k * 4096) = unat p + ?k * PGSIZE" using p(2) kp by (subst unat_add_no_wrap) simp_all
  have "walk m t ?va = walk m t (va + of_nat ?k * 4096)" by (rule walk_vpage) (rule page_byte(1) [OF va i])
  then have w: "walk m t ?va = Some ((p + of_nat ?k * 4096) OR fl)" using map k by simp
  have addr: "PTE_GET_ADDR ((p + of_nat ?k * 4096) OR fl) = p + of_nat ?k * 4096"
    by (rule pte_addr [OF _ _ fl]) (use a p k \<open>?k * PGSIZE < n * PGSIZE\<close> in auto)
  have off: "?va AND 0xfff = of_nat (i mod PGSIZE)"
    using page_byte(2) [OF va i] by (metis of_nat_unat ucast_id)
  have "of_nat ?k * 4096 + of_nat (i mod PGSIZE) = (of_nat i :: u64)"
  proof -
    have "(of_nat (?k * PGSIZE + i mod PGSIZE) :: u64) = of_nat i" by (simp only: div_mult_mod_eq)
    then show ?thesis unfolding of_nat_add of_nat_mult by simp
  qed
  then have "P2V (p + of_nat ?k * 4096) + of_nat (i mod PGSIZE) = P2V p + of_nat i" by (simp add: P2V_def algebra_simps)
  then show ?thesis unfolding user_byte_def w addr option.case off by simp
qed

lemma seg_at_bytes:
  assumes "seg_at m t d ph p" "seg_ok d ph" "i < seg_pages ph * PGSIZE"
  shows "user_byte m t ((p_vaddr ph AND NOT 0xfff) + of_nat i) = Some (if i < unat (p_filesz ph) then d ! (unat (p_offset ph) + i) else 0)"
proof -
  have at: "unat p mod PGSIZE = 0" "unat p + seg_pages ph * PGSIZE < 2 ^ 47"
    "\<forall>k < seg_pages ph. walk m t (p_vaddr ph + of_nat k * 4096) = Some ((p + of_nat k * 4096) OR seg_flags (p_flags ph))"
    using assms(1) by (simp_all add: seg_at_def seg_va_def)
  have "unat (p_vaddr ph) + seg_pages ph * PGSIZE \<le> 2 ^ 47" using assms(2) seg_pages_roundup(3) [OF assms(2)] by (simp add: seg_ok_def)
  from mapped_bytes [OF at(3,1,2) seg_flags_present(2) this assms(3)] show ?thesis using assms(1,3) by (simp add: seg_at_def)
qed

text \<open>The permission bits of the entry: writable and executable as the header says, and always a page of the program.\<close>

lemma seg_at_flags:
  assumes p: "seg_at m t d ph p" and "k < seg_pages ph"
  shows "\<exists>e. walk m t (seg_va ph k) = Some e \<and> e AND PTE_USER \<noteq> 0 \<and> (e AND PTE_RW \<noteq> 0 \<longleftrightarrow> p_flags ph AND PF_W \<noteq> 0) \<and>
    (e AND PTE_NX \<noteq> 0 \<longleftrightarrow> p_flags ph AND PF_X = 0)"
proof -
  let ?a = "p + of_nat k * 4096"
  have "k * PGSIZE < seg_pages ph * PGSIZE" using assms(2) by simp
  then have "unat ?a = unat p + k * PGSIZE"
    using p page_number_of_addr [of k] by (subst unat_add_no_wrap) (simp_all add: seg_at_def)
  then have a: "unat ?a mod PGSIZE = 0" "unat ?a < 2 ^ 47" using p \<open>k * PGSIZE < seg_pages ph * PGSIZE\<close> by (simp_all add: seg_at_def)
  have "?a = ?a AND PTE_ADDR_MASK" using pte_addr [OF a, of 0] by (simp add: PTE_GET_ADDR_def)
  then have z: "?a AND b = 0" if "PTE_ADDR_MASK AND b = 0" for b using that by (metis and.assoc and_zero_eq)
  have "?a AND PTE_USER = 0" "?a AND PTE_RW = 0" "?a AND PTE_NX = 0"
    by (rule z, simp add: PTE_ADDR_MASK_def PTE_USER_def PTE_RW_def PTE_NX_def)+
  then show ?thesis using p assms(2)
    by (simp add: seg_at_def bit.conj_disj_distrib2 seg_flags_def Let_def PTE_PRESENT_def PTE_USER_def PTE_RW_def PTE_NX_def)
qed

text \<open>
  What a program finds of a segment in the address space of the tree at \<open>t\<close>: from the start of the page of \<open>p_vaddr\<close> on the bytes of the file, then
  zeros to the end of the last page, and the pages with the permissions of the header.
\<close>

definition seg_shown :: "(u64 \<Rightarrow> u64) \<Rightarrow> u64 \<Rightarrow> u8 list \<Rightarrow> u8 list \<Rightarrow> bool" where
  "seg_shown m t d ph \<longleftrightarrow>
     (\<forall>i < seg_pages ph * PGSIZE. user_byte m t ((p_vaddr ph AND NOT 0xfff) + of_nat i) =
        Some (if i < unat (p_filesz ph) then d ! (unat (p_offset ph) + i) else 0)) \<and>
     (\<forall>k < seg_pages ph. \<exists>e. walk m t (seg_va ph k) = Some e \<and> e AND PTE_USER \<noteq> 0 \<and>
        (e AND PTE_RW \<noteq> 0 \<longleftrightarrow> p_flags ph AND PF_W \<noteq> 0) \<and> (e AND PTE_NX \<noteq> 0 \<longleftrightarrow> p_flags ph AND PF_X = 0))"

lemma seg_at_shown: "seg_at m t d ph p \<Longrightarrow> seg_ok d ph \<Longrightarrow> seg_shown m t d ph"
  unfolding seg_shown_def using seg_at_bytes seg_at_flags by blast

text \<open>
  C3 (loading a program).  Let the file have well-formed ELF headers whose segments lie inside it and share no page, and let memory have room,
  with frames that come zeroed.  Then \<open>loadelf\<close> returns the entry point and the auxiliary values of the headers, and in the new address
  space the pages of each loadable segment show the bytes of the file followed by zeros, with the permissions of the header; all other
  translations are as before and the tree stays well-formed.  The first byte of a segment is at the start of the page of \<open>p_vaddr\<close>, which is where it
  belongs only if \<open>p_vaddr\<close> is the start of a page.
\<close>

theorem loadelf_loads:
  assumes "vfs_open name VNON 0 f = Inr (0, Some vn, f1)" "reads_as f1 vn d" "\<forall>k. length (junk_bytes f1 k) = k"
    and "elf_ok d" "load_pre s vmap t (loads (phdrs d)) m"
  shows "\<exists>s'. loadelf name vmap aux f s = Inr (elf_aux d aux, f1, s') \<and> vm_wf s' t \<and> (\<forall>ph \<in> set (loads (phdrs d)). seg_shown (mem s') t d ph) \<and>
    (\<forall>va. vpage va \<notin> set (seg_vpages (loads (phdrs d))) \<longrightarrow> walk (mem s') t va = walk (mem s) t va)"
proof -
  obtain s' where s': "loadelf name vmap aux f s = Inr (elf_aux d aux, f1, s')" "load_post s t d (loads (phdrs d)) m s'"
    using loadelf_spec [OF assms] by blast
  have "seg_shown (mem s') t d ph" if "ph \<in> set (loads (phdrs d))" for ph
    using s'(2) assms(4) that seg_at_shown [of "mem s'" t d ph] by (auto simp: load_post_def elf_ok_def seg_in_def)
  then show ?thesis using s' tree_stepD(1) [of t s s'] by (auto simp: load_post_def)
qed

text \<open>
  A file with one segment of two bytes of code at the start of page \<open>0x400\<close>, and a machine with an empty tree at frame 0 and its map in
  frame 1.
\<close>

definition demo_elf :: "u8 list" where
  "demo_elf = [0x7f, 0x45, 0x4c, 0x46] @ replicate 20 0 @ le64 0x400001 @ le64 64 @ replicate 14 0 @ [56, 0, 1, 0] @ replicate 6 0 @
     [1, 0, 0, 0, 5, 0, 0, 0] @ le64 120 @ le64 0x400000 @ le64 0 @ le64 2 @ le64 3 @ le64 0 @ [0x90, 0xc3]"

definition demo_space :: vmm where
  "demo_space = boot_vmm\<lparr>bitmap := [3], mem := (\<lambda>_. 0)(P2V 0x1000 := P2V 0)\<rparr>"

lemma demo_elf_bytes:
  "demo_elf = [0x7f, 0x45, 0x4c, 0x46, 0, 0, 0, 0, 0, 0, 0, 0, 0, 0, 0, 0, 0, 0, 0, 0, 0, 0, 0, 0,
    1, 0, 0x40, 0, 0, 0, 0, 0, 64, 0, 0, 0, 0, 0, 0, 0, 0, 0, 0, 0, 0, 0, 0, 0, 0, 0, 0, 0, 0, 0, 56, 0, 1, 0, 0, 0, 0, 0, 0, 0,
    1, 0, 0, 0, 5, 0, 0, 0, 120, 0, 0, 0, 0, 0, 0, 0, 0, 0, 0x40, 0, 0, 0, 0, 0, 0, 0, 0, 0, 0, 0, 0, 0,
    2, 0, 0, 0, 0, 0, 0, 0, 3, 0, 0, 0, 0, 0, 0, 0, 0, 0, 0, 0, 0, 0, 0, 0, 0x90, 0xc3]"
  by code_simp

abbreviation demo_ph :: "u8 list" where
  "demo_ph \<equiv> take 56 (drop 64 demo_elf)"

lemma demo_elf_words:
  "e_phoff (take 64 demo_elf) = 64" "e_phnum (take 64 demo_elf) = 1" "e_entry (take 64 demo_elf) = 0x400001"
  "p_type demo_ph = PT_LOAD" "p_vaddr demo_ph = 0x400000" "p_filesz demo_ph = 2" "p_offset demo_ph = 120" "p_memsz demo_ph = 3"
  by code_simp+

lemma demo_elf_segs:
  "length demo_elf = 122" "phdrs demo_elf = [demo_ph]" "loads (phdrs demo_elf) = [demo_ph]" "seg_pages demo_ph = 1"
proof -
  show "length demo_elf = 122" by (simp add: demo_elf_bytes)
  show "phdrs demo_elf = [demo_ph]"
    by (simp add: phdrs_def phdr_at_def sizeof_Elf64_Ehdr_def sizeof_Elf64_Phdr_def demo_elf_words)
  then show "loads (phdrs demo_elf) = [demo_ph]" by (simp add: demo_elf_words)
  show "seg_pages demo_ph = 1" by (simp add: seg_pages_def demo_elf_words)
qed

lemma demo_elf_ok: "elf_ok demo_elf"
  unfolding elf_ok_def demo_elf_segs
  by (simp add: sizeof_Elf64_Ehdr_def sizeof_Elf64_Phdr_def demo_elf_words demo_elf_segs seg_ok_def)

lemma demo_space_pre: "load_pre demo_space (P2V 0x1000) (P2V 0) (loads (phdrs demo_elf)) 0"
proof -
  have used: "used_pages demo_space = {0, 1}"
  proof -
    have "bit (3 :: u8) n \<longleftrightarrow> n = 0 \<or> n = 1" if "n < 8" for n using that by (auto simp: less_Suc_eq numeral_eq_Suc)
    then show ?thesis unfolding used_pages_def page_used_def set_eq_iff by (auto simp: demo_space_def)
  qed
  have z: "mem demo_space (slot (P2V 0) i) = 0" if "i < 512" for i
  proof -
    have "vframe (slot (P2V 0) i) = 0" using slot_vframe [of "P2V 0" i] that by simp
    then have "slot (P2V 0) i \<noteq> P2V 0x1000" by auto
    then show ?thesis by (simp add: demo_space_def)
  qed
  have "vm_wf demo_space (P2V 0)"
    by (rule vm_wf_empty) (use z in \<open>simp_all add: used dm_page_P2V pmm_wf_def\<close>, simp add: demo_space_def)
  moreover have tab: "tables (mem demo_space) (P2V 0) = {0}"
  proof -
    have "p = [] \<and> a = P2V 0" if "ok_path p" "node (mem demo_space) (P2V 0) p = Some a" for p a
      using that z by (cases p) (auto simp: follow_def ok_path_def)
    moreover have "ok_path []" "node (mem demo_space) (P2V 0) [] = Some (P2V 0)" by (simp_all add: ok_path_def)
    ultimately have "(\<exists>p a. x = vframe a \<and> ok_path p \<and> node (mem demo_space) (P2V 0) p = Some a) \<longleftrightarrow> x = vframe (P2V 0)" for x by blast
    then show ?thesis unfolding tables_def by simp
  qed
  moreover have "walk (mem demo_space) (P2V 0) va = None" for va using z [OF vidx_less] by (simp add: walk_def vpath_def follow_def)
  moreover have "room demo_space 4" unfolding room_def by (intro exI [of _ 2]) (simp add: used, simp add: demo_space_def)
  moreover have "clean_frames demo_space" unfolding clean_frames_def used by (auto simp: demo_space_def)
  ultimately show ?thesis using P2V_nonzero [of "0x1000"]
    by (simp add: load_pre_def used demo_elf_segs demo_elf_words) (simp add: demo_space_def)
qed

text \<open>The file can be on the ramdisk.\<close>

lemma demo_elf_on_disk:
  "\<exists>f vn f1. vfs_open (cstr (47 # bytes ''exe'')) VNON 0 f = Inr (0, Some vn, f1) \<and> reads_as f1 vn demo_elf \<and> (\<forall>k. length (junk_bytes f1 k) = k)"
proof -
  let ?es = "[(bytes ''exe'', demo_elf)]"
  have a: "archive (tar_of ?es) ?es" by (rule archive_tar_of) (simp add: bytes_def demo_elf_segs)
  have p: "\<forall>(t, d) \<in> set ?es. plain t \<and> first_match root_fs 2 t = None" "apart ?es" "length ?es < 2"
    by (simp_all add: root_fs_ready(2) plain_def apart_def bytes_def)
  have l: "length (tar_of ?es) < 2 ^ 63" by (simp add: tar_header_def padded_def bytes_def demo_elf_segs)
  from initramfs_run [OF root_fs_wf(5) root_fs_ready(1) a l p, of "[]"] obtain f vn f1 where f: "ramfs_inv f"
    "vfs_open (cstr (47 # bytes ''exe'')) VNON 0 f = Inr (0, Some vn, f1)" "reads_as f1 vn demo_elf" "junk_bytes f1 = junk_bytes f" by auto
  then have "\<forall>k. length (junk_bytes f1 k) = k" by (auto simp: ramfs_inv_def kalloc_ok_def)
  with f show ?thesis by blast
qed

lemma demo_elf_shown:
  assumes "\<forall>ph \<in> set (loads (phdrs demo_elf)). seg_shown m t demo_elf ph"
  shows "user_byte m t 0x400001 = Some 0xc3" "user_byte m t 0x400002 = Some 0"
proof -
  have "demo_ph \<in> set (loads (phdrs demo_elf))" by (simp add: demo_elf_segs demo_elf_words)
  from bspec [OF assms this] have b: "user_byte m t (0x400000 + of_nat i) = Some (if i < 2 then demo_elf ! (120 + i) else 0)"
    if "i < 4096" for i using that by (simp add: seg_shown_def demo_elf_segs demo_elf_words)
  have "demo_elf ! 121 = 0xc3" by (simp add: demo_elf_bytes)
  with b [of 1] b [of 2] show "user_byte m t 0x400001 = Some 0xc3" "user_byte m t 0x400002 = Some 0" by simp_all
qed

theorem loadelf_loads_witness:
  "\<exists>f f1 aux s'. loadelf (cstr (47 # bytes ''exe'')) (P2V 0x1000) \<lparr>at_entry = 0, at_phdr = 0, at_phent = 0, at_phnum = 0\<rparr> f demo_space = Inr (aux, f1, s') \<and>
     user_byte (mem s') (P2V 0) 0x400001 = Some 0xc3 \<and> user_byte (mem s') (P2V 0) 0x400002 = Some 0"
proof -
  obtain f vn f1 where f: "vfs_open (cstr (47 # bytes ''exe'')) VNON 0 f = Inr (0, Some vn, f1)" "reads_as f1 vn demo_elf" "\<forall>k. length (junk_bytes f1 k) = k"
    using demo_elf_on_disk by blast
  let ?aux = "\<lparr>at_entry = 0, at_phdr = 0, at_phent = 0, at_phnum = 0\<rparr>" 
  obtain s' where run: "loadelf (cstr (47 # bytes ''exe'')) (P2V 0x1000) ?aux f demo_space = Inr (elf_aux demo_elf ?aux, f1, s')"
    and all: "\<forall>ph \<in> set (loads (phdrs demo_elf)). seg_shown (mem s') (P2V 0) demo_elf ph"
    using loadelf_loads [OF f demo_elf_ok demo_space_pre, of ?aux] by blast
  from demo_elf_shown [OF all] run show ?thesis by blast
qed

end
