(* ===== verification/Exec.thy ===== *)
theory Exec
  imports Elf_Load Proc Descriptors
begin

section \<open>Starting a program (exec of kernel/proc.c)\<close>

text \<open>
  \<open>exec\<close> makes an address space, loads the program into it, gives it a stack with its arguments, sets the registers that the return to
  user mode takes from the kernel stack, and starts the process.  It works on the process table and the machine (\<open>kproc\<close>), the file system, and
  the segment table; the local variable \<open>aux\<close> starts with the unknown contents \<open>aux\<close>.
\<close>

subsection \<open>The function\<close>

definition STACKSIZE :: u64 where "STACKSIZE = 0x40000"
definition stackva :: u64 where "stackva = 0x70000000000"
definition regs_ss :: u64 where "regs_ss = 120"
definition sizeof_tss :: u64 where "sizeof_tss = 12"
definition tss_rsp0 :: u64 where "tss_rsp0 = 4"

text \<open>The address space with the program and the stack.\<close>

definition exec_space :: "u8 list \<Rightarrow> auxval \<Rightarrow> fs \<Rightarrow> kproc \<Rightarrow> (u64 \<times> auxval \<times> u64 \<times> fs \<times> kproc) result" where
  "exec_space name aux f s =
     ebind (newvm_map s) (\<lambda>(vmap, s).
     ebind (loadelf name vmap aux f s) (\<lambda>(aux, f, s).
     ebind (palloc (unat (STACKSIZE div 4096)) s) (\<lambda>(stack, s).
     ebind (ld vmap 0 s) (\<lambda>top_level.
     ebind (mappages top_level stackva stack STACKSIZE (PTE_PRESENT OR PTE_RW OR PTE_USER) s) (\<lambda>(_, s).
     Inr (vmap, aux, stack, f, s))))))"

text \<open>The registers for the return to user mode, the arguments on the stack, and the stack pointer below them.\<close>

definition exec_frame :: "nat \<Rightarrow> u64 \<Rightarrow> auxval \<Rightarrow> u64 \<Rightarrow> u8 list list \<Rightarrow> kproc \<Rightarrow> kproc result" where
  "exec_frame p vmap aux stack argv s =
     (let regs = p_regs (ptable s p) in
      ebind (st regs regs_rsp (stackva + STACKSIZE) s) (\<lambda>s.
      ebind (st regs regs_rip (at_entry aux) s) (\<lambda>s.
      ebind (st regs regs_cs 0x43 s) (\<lambda>s.
      ebind (st regs regs_ss 0x3b s) (\<lambda>s.
      ebind (st regs regs_eflags 0x202 s) (\<lambda>s.
      let s = set_proc p (\<lambda>x. x\<lparr>p_vmap := vmap\<rparr>) s; stack = P2V (stack + STACKSIZE); stacktop = stack in
      ebind (copyargs stack argv aux (bytes_of (mem s))) (\<lambda>(stack, b).
      let s = s\<lparr>mem := words_of b (mem s)\<rparr> in
      ebind (ld regs regs_rsp s) (\<lambda>rsp.
      st regs regs_rsp (rsp - (stacktop - stack)) s))))))))"

definition exec :: "u8 list \<Rightarrow> u8 list list \<Rightarrow> auxval \<Rightarrow> fs \<Rightarrow> gdt_state \<Rightarrow> kproc \<Rightarrow> (fs \<times> gdt_state \<times> kproc) result" where
  "exec name argv aux f g s =
     ebind (get_current_proc s) (\<lambda>p.
     ebind (exec_space name aux f s) (\<lambda>(vmap, aux, stack, f, s).
     ebind (exec_frame p vmap aux stack argv s) (\<lambda>s.
     ebind (kalloc sizeof_tss s) (\<lambda>(tss, s).
     ebind (switchvm vmap s) (\<lambda>s.
     ebind (palloc 1 s) (\<lambda>(frame, s).
     if tss = 0 then Inl NullDeref
     else let s = store_bytes (tss + tss_rsp0) (le64 (P2V (frame + 4096))) s;
              g = g\<lparr>gdt := load_tss tss (gdt g), tr := push_bit 3 9\<rparr> in
          ebind (startproc p s) (\<lambda>s. Inr (f, g, s))))))))"

subsection \<open>What it starts from\<close>

text \<open>
  The heap has two free blocks of 16 bytes in its first slab of that size, the second not reaching over the end of the page (see \<open>newslab\<close>); the kernel's
  map is one of the blocks handed out, and its tables are outside the heap.
\<close>

definition exec_heap :: "kproc \<Rightarrow> slab_entry list \<Rightarrow> u64 \<Rightarrow> u64 \<Rightarrow> u64 \<Rightarrow> u64 list \<Rightarrow> slab_entry list \<Rightarrow> u64 \<Rightarrow> bool" where
  "exec_heap s A a b c bs B ktop \<longleftrightarrow> slab_wf s (A @ (a, 16, b # c # bs) # B) \<and> clean_frames s \<and> slabber_lock s = 0 \<and>
     (\<forall>(a', k, fl) \<in> set A. k = 16 \<longrightarrow> fl = []) \<and> unat (c - a) + 16 \<le> PGSIZE \<and>
     kernel_vm_map s \<in> taken (A @ (a, 16, b # c # bs) # B) \<and> mem s (kernel_vm_map s) = ktop \<and> vm_wf s ktop \<and>
     tables (mem s) ktop \<inter> vframe ` fst ` set (A @ (a, 16, b # c # bs) # B) = {}"

text \<open>
  The current process \<open>p\<close> runs on its kernel stack in the page at \<open>base\<close>, below the frame that \<open>allocproc\<close> left at its top, and has not been
  switched away from yet.
\<close>

definition exec_proc :: "kproc \<Rightarrow> nat \<Rightarrow> u64 \<Rightarrow> bool" where
  "exec_proc s p base \<longleftrightarrow> msr_gs s = Some p \<and> p_regs (ptable s p) = base + 3968 \<and> p_stack (ptable s p) = base + 3912 \<and>
     dm_page base \<and> vframe base \<in> used_pages s \<and> (\<exists>off. c_rsp (cpu s) = base + of_nat off \<and> 56 \<le> off \<and> off \<le> 3912)"

definition exec_file :: "u8 list \<Rightarrow> fs \<Rightarrow> u8 list \<Rightarrow> fs \<Rightarrow> bool" where
  "exec_file name f d f1 \<longleftrightarrow> (\<exists>vn. vfs_open name VNON 0 f = Inr (0, Some vn, f1) \<and> reads_as f1 vn d) \<and> (\<forall>k. length (junk_bytes f1 k) = k) \<and>
     elf_ok d \<and> (\<forall>k < 64. vpage (stackva + of_nat k * 4096) \<notin> set (seg_vpages (loads (phdrs d))))"

abbreviation stack_flags :: u64 where
  "stack_flags \<equiv> PTE_PRESENT OR PTE_RW OR PTE_USER"

subsection \<open>The address space\<close>

lemma low_half: "unat va < 2 ^ 47 \<Longrightarrow> \<not> 256 \<le> vidx 39 va"
proof -
  assume "unat va < 2 ^ 47"
  then have "unat va div 2 ^ 39 < 256" by (simp add: div_less_iff_less_mult)
  then show ?thesis by (simp add: vidx_div)
qed

lemma seg_va_low:
  assumes "seg_ok d ph" "k < seg_pages ph"
  shows "unat (seg_va ph k) < 2 ^ 47"
proof -
  have "k * PGSIZE < seg_pages ph * PGSIZE" using assms(2) by simp
  then have lt: "unat (p_vaddr ph) + k * PGSIZE < 2 ^ 47" using seg_pages_roundup(3) [OF assms(1)] assms(1) by (simp add: seg_ok_def)
  then have "unat (of_nat k * 4096 :: u64) = k * PGSIZE" using page_number_of_addr [of k] by simp
  then show ?thesis using lt by (simp add: seg_va_def unat_add_no_wrap)
qed

lemma stack_va_low: "k < 64 \<Longrightarrow> unat (stackva + of_nat k * 4096) < 2 ^ 47"
  using page_number_of_addr [of k] by (simp add: stackva_def unat_add_no_wrap)

text \<open>
  The frames \<open>F\<close> hold the tables and the segments: memory that agrees on them shows the same program and maps the stack the same way.
\<close>

definition image_in :: "nat set \<Rightarrow> (u64 \<Rightarrow> u64) \<Rightarrow> u64 \<Rightarrow> u8 list \<Rightarrow> u64 \<Rightarrow> bool" where
  "image_in F m t d stack \<longleftrightarrow> (\<forall>m'. (\<forall>x. vframe x \<in> F \<longrightarrow> m' x = m x) \<longrightarrow>
     (\<forall>ph \<in> set (loads (phdrs d)). seg_shown m' t d ph) \<and>
     (\<forall>k < 64. walk m' t (stackva + of_nat k * 4096) = Some ((stack + of_nat k * 4096) OR stack_flags)))"

lemma image_inI:
  assumes wf: "vm_wf s t" and segs: "\<forall>ph \<in> set (loads (phdrs d)). seg_in U s t d ph \<and> seg_ok d ph"
    and stack: "\<forall>k < 64. walk (mem s) t (stackva + of_nat k * 4096) = Some ((stack + of_nat k * 4096) OR stack_flags)"
  obtains F where "image_in F (mem s) t d stack" "F \<inter> U \<subseteq> tables (mem s) t" "F \<subseteq> used_pages s"
proof -
  obtain P where P: "\<And>ph. ph \<in> set (loads (phdrs d)) \<Longrightarrow> seg_at (mem s) t d ph (P ph) \<and> frames (P ph) (seg_pages ph) \<subseteq> used_pages s \<and>
      frames (P ph) (seg_pages ph) \<inter> U = {} \<and> seg_ok d ph"
    using segs unfolding seg_in_def by metis
  define F where "F = tables (mem s) t \<union> (\<Union>ph \<in> set (loads (phdrs d)). frames (P ph) (seg_pages ph))"
  have "image_in F (mem s) t d stack"
    unfolding image_in_def
  proof (intro allI impI conjI ballI)
    fix m' assume same: "\<forall>x. vframe x \<in> F \<longrightarrow> m' x = mem s x"
    have w: "walk m' t va = walk (mem s) t va" for va by (rule walk_same_frames(1) [OF wf]) (use same in \<open>simp add: F_def\<close>)
    show "walk m' t (stackva + of_nat k * 4096) = Some ((stack + of_nat k * 4096) OR stack_flags)" if "k < 64" for k using w stack that by simp
    fix ph assume ph: "ph \<in> set (loads (phdrs d))"
    have "seg_at m' t d ph (P ph)"
      by (rule seg_at_kept [OF wf]) (use P [OF ph] same ph w in \<open>auto simp: F_def\<close>)
    then show "seg_shown m' t d ph" using P [OF ph] seg_at_shown by blast
  qed
  moreover have "F \<inter> U \<subseteq> tables (mem s) t" "F \<subseteq> used_pages s" using P tables_used [OF wf] by (auto simp: F_def)
  ultimately show thesis by (rule that)
qed

lemma class_16:
  "ucast (roundup (ucast (if (16 :: u64) < 8 then 8 else (16 :: u64)))) = (of_nat 16 :: u64)"
    "ucast (roundup (ucast (if sizeof_tss < 8 then 8 else sizeof_tss))) = (of_nat 16 :: u64)"
  "size_class 16" "size_class m \<Longrightarrow> 12 \<le> m \<Longrightarrow> 16 \<le> m"
proof -
  show "ucast (roundup (ucast (if (16 :: u64) < 8 then 8 else (16 :: u64)))) = (of_nat 16 :: u64)"
    "ucast (roundup (ucast (if sizeof_tss < 8 then 8 else sizeof_tss))) = (of_nat 16 :: u64)"
    by (simp_all add: roundup_def sizeof_tss_def Let_def)
  show "size_class 16" unfolding size_class_def by (intro exI [of _ 4]) simp
  assume m: "size_class m" "12 \<le> m"
  then obtain e where e: "m = 2 ^ e" by (auto simp: size_class_def)
  have "\<not> e \<le> 3"
  proof
    assume "e \<le> 3"
    then have "(2 :: nat) ^ e \<le> 2 ^ 3" by (intro power_increasing) simp_all
    then show False using m(2) e by simp
  qed
  then have "(2 :: nat) ^ 4 \<le> 2 ^ e" by (intro power_increasing) simp_all
  then show "16 \<le> m" using e by simp
qed

lemma taken_frame:
  assumes "slab_wf s L" "b \<in> taken L"
  shows "vframe b \<in> vframe ` fst ` set L"
proof -
  obtain a n fl where a: "(a, n, fl) \<in> set L" "b \<in> blocks a n" using assms(2) by (auto simp: taken_def)
  have "entry_ok (a, n, fl)" using assms(1) a(1) unfolding slab_wf_def by blast
  then have "vframe b = vframe a" using blocks_vframe [OF _ a(2)] by (simp add: entry_ok_def)
  then show ?thesis using a(1) by force
qed

lemma slab_frames_used: "slab_wf s L \<Longrightarrow> vframe ` fst ` set L \<subseteq> used_pages s"
  unfolding slab_wf_def by blast

lemma fresh_space_load_pre:
  assumes fs: "fresh_space s L ktop vmap s' L'" and ok: "elf_ok d" and room: "room s' (m + 4 * elf_pages (loads (phdrs d)))"
  shows "load_pre s' vmap (mem s' vmap) (loads (phdrs d)) m"
proof -
  have sw: "slab_wf s' L'" "vmap \<in> taken L'" using fs by (simp_all add: fresh_space_def)
  have "vframe vmap \<notin> tables (mem s') (mem s' vmap)" using fs taken_frame [OF sw] unfolding fresh_space_def by blast
  moreover have "walk (mem s') (mem s' vmap) (seg_va ph k) = None" if "ph \<in> set (loads (phdrs d))" "k < seg_pages ph" for ph k
    using fs low_half [OF seg_va_low [of d ph k]] ok that by (simp add: fresh_space_def elf_ok_def)
  ultimately show ?thesis using fs taken_in_slab(1,2) [OF sw] room by (simp add: load_pre_def fresh_space_def)
qed

text \<open>The stack: 64 fresh frames, still zero, mapped from \<open>stackva\<close> on.\<close>

lemma stack_run:
  assumes wf: "vm_wf s t" and clean: "clean_frames s" and room: "room s (n + 256)"
    and free: "\<forall>k < 64. walk (mem s) t (stackva + of_nat k * 4096) = None"
  obtains stack s1 s' where "palloc 64 s = Inr (stack, s1)" "mem s1 = mem s"
    "mappages t stackva stack STACKSIZE stack_flags s1 = Inr (0, s')" "tree_step t s s'" "room s' n"
    "unat stack mod PGSIZE = 0" "unat stack + 71 * PGSIZE < 2 ^ 47" "frames stack 64 \<inter> used_pages s = {}" "frames stack 64 \<subseteq> used_pages s'"
    "frames stack 64 \<inter> tables (mem s') t = {}" "\<forall>x. vframe x \<in> frames stack 64 \<longrightarrow> mem s' x = 0"
    "\<forall>k < 64. walk (mem s') t (stackva + of_nat k * 4096) = Some ((stack + of_nat k * 4096) OR stack_flags)"
    "\<forall>va. (\<forall>k < 64. vpage va \<noteq> vpage (stackva + of_nat k * 4096)) \<longrightarrow> walk (mem s') t va = walk (mem s) t va"
proof -
  have fl: "stack_flags AND PTE_PRESENT \<noteq> 0" by (simp add: PTE_PRESENT_def PTE_RW_def PTE_USER_def)
  have sz: "of_nat (64 * PGSIZE) = STACKSIZE" by (simp add: STACKSIZE_def)
  have r: "room s (n + 4 * 64)" using room by simp
  have n: "(0 :: nat) < 64" "(64 :: nat) \<le> 2 ^ 36" by simp_all
  show thesis by (rule map_fresh_run [OF wf clean r n fl free, unfolded sz]) (rule that; (assumption | simp))
qed

text \<open>
  What the steps up to the stack leave: the heap with one block taken, the tree and the segments in frames \<open>F\<close>, the stack, and everything that was
  allocated before as it was, except for the heap.
\<close>

definition space_ready :: "kproc \<Rightarrow> slab_entry list \<Rightarrow> u64 \<Rightarrow> kproc \<Rightarrow> slab_entry list \<Rightarrow> u64 \<Rightarrow> u64 \<Rightarrow> u8 list \<Rightarrow> u64 \<Rightarrow> nat \<Rightarrow> nat set \<Rightarrow> bool" where
  "space_ready s L ktop s' L' b t d stack n F \<longleftrightarrow> slab_wf s' L' \<and> clean_frames s' \<and> slabber_lock s' = 0 \<and> machine.more s' = machine.more s \<and>
     used_pages s \<subseteq> used_pages s' \<and> b \<in> taken L' \<and> mem s' b = t \<and> room s' n \<and>
     image_in F (mem s') t d stack \<and> F \<subseteq> used_pages s' \<and> F \<inter> used_pages s \<subseteq> tables (mem s) ktop \<and> F \<inter> vframe ` fst ` set L' = {} \<and>
     frames stack 64 \<subseteq> used_pages s' \<and> frames stack 64 \<inter> (F \<union> used_pages s \<union> vframe ` fst ` set L') = {} \<and>
     unat stack mod PGSIZE = 0 \<and> unat stack + 71 * PGSIZE < 2 ^ 47 \<and> (\<forall>x. vframe x \<in> frames stack 64 \<longrightarrow> mem s' x = 0) \<and>
     (\<forall>x. vframe x \<in> used_pages s \<longrightarrow> vframe x \<notin> vframe ` fst ` set L \<longrightarrow> vframe x \<notin> tables (mem s) ktop \<longrightarrow> mem s' x = mem s x)"

lemma space_ready_apart:
  assumes "space_ready s L ktop s' L' b t d stack n F"
  shows "F \<inter> vframe ` fst ` set L' = {} \<and> frames stack 64 \<inter> (F \<union> used_pages s \<union> vframe ` fst ` set L') = {} \<and> F \<inter> used_pages s \<subseteq> tables (mem s) ktop"
  using assms unfolding space_ready_def by (elim conjE) (intro conjI)

lemma seg_in_more: "seg_in U s t d ph \<Longrightarrow> V \<inter> used_pages s = {} \<Longrightarrow> seg_in (U \<union> V) s t d ph"
  unfolding seg_in_def by blast

lemma slab_cells_kept:
  assumes "tree_step t s1 s2" "slab_wf s1 L" "tables (mem s1) t \<inter> vframe ` fst ` set L = {}" "vframe x \<in> vframe ` fst ` set L"
  shows "mem s2 x = mem s1 x"
  by (rule tree_stepD(4) [OF assms(1)]) (use assms(3,4) slab_frames_used [OF assms(2)] in blast)+

lemma space_readyI:
  assumes fs: "fresh_space s L ktop b s1 L'" and t: "t = mem s1 b" and step: "tree_step t s1 s'" and room: "room s' n"
    and F: "image_in F (mem s') t d stack" "F \<inter> (used_pages s1 \<union> frames stack 64) \<subseteq> tables (mem s') t" "F \<subseteq> used_pages s'"
    and sk: "unat stack mod PGSIZE = 0" "unat stack + 71 * PGSIZE < 2 ^ 47" "frames stack 64 \<inter> used_pages s1 = {}" "frames stack 64 \<subseteq> used_pages s'"
      "frames stack 64 \<inter> tables (mem s') t = {}" "\<forall>x. vframe x \<in> frames stack 64 \<longrightarrow> mem s' x = 0"
  shows "space_ready s L ktop s' L' b t d stack n F"
proof -
  note f = fs [unfolded fresh_space_def, folded t]
  have wf1: "slab_wf s1 L'" "b \<in> taken L'" and sep: "tables (mem s1) t \<inter> vframe ` fst ` set L' = {}" using f by simp_all
  have kept: "mem s' x = mem s1 x" if "vframe x \<in> vframe ` fst ` set L'" for x by (rule slab_cells_kept [OF step wf1(1) sep that])
  have sub: "used_pages s \<subseteq> used_pages s1" "used_pages s1 \<subseteq> used_pages s'" using f tree_stepD(2) [OF step] by blast+
  have "slab_wf s' L'"
    by (rule slab_wf_kept [OF wf1(1)])
     (use kept tree_stepD(1,2) [OF step] in \<open>auto simp: vm_wf_def\<close>, subst tree_stepD(6) [OF step], simp)
  moreover have "machine.more s' = machine.more s" "slabber_lock s' = 0" using f by (subst tree_stepD(6) [OF step], simp)+
  moreover have F2: "F \<inter> used_pages s1 \<subseteq> tables (mem s1) t" "F \<inter> frames stack 64 = {}" using F(2) tree_stepD(3) [OF step] sk(5) by blast+
  moreover have "F \<inter> used_pages s \<subseteq> tables (mem s) ktop" using F2(1) sub(1) f by blast
  moreover have "F \<inter> vframe ` fst ` set L' = {}" using F2(1) sep slab_frames_used [OF wf1(1)] by blast
  moreover have "frames stack 64 \<inter> (F \<union> used_pages s \<union> vframe ` fst ` set L') = {}"
    using F2(2) sk(3) sub(1) slab_frames_used [OF wf1(1)] by blast
  moreover have "\<forall>x. vframe x \<in> used_pages s \<longrightarrow> vframe x \<notin> vframe ` fst ` set L \<longrightarrow> vframe x \<notin> tables (mem s) ktop \<longrightarrow> mem s' x = mem s x"
  proof (intro allI impI)
    fix x assume x: "vframe x \<in> used_pages s" "vframe x \<notin> vframe ` fst ` set L" "vframe x \<notin> tables (mem s) ktop"
    have "vframe x \<in> used_pages s1" "vframe x \<notin> tables (mem s1) t" "mem s1 x = mem s x" using x sub(1) f by blast+
    then show "mem s' x = mem s x" using tree_stepD(4) [OF step] by simp
  qed
  moreover have "mem s' b = t" using kept taken_frame [OF wf1] t by simp
  moreover have "clean_frames s'" using tree_stepD(5) [OF step] f by blast
  ultimately show ?thesis
    unfolding space_ready_def using F(1,3) sk(1,2,4,6) room subset_trans [OF sub] wf1(2) by (intro conjI)
qed

lemma exec_space_run:
  assumes heap: "exec_heap s A a b c bs B ktop" and fl: "exec_file name f d f1"
    and room: "room s (1 + (n + 256 + 4 * elf_pages (loads (phdrs d))))"
  obtains stack t s' F where "exec_space name aux f s = Inr (b, elf_aux d aux, stack, f1, s')"
    "space_ready s (A @ (a, 16, b # c # bs) # B) ktop s' (A @ (a, 16, c # bs) # B) b t d stack n F"
proof -
  let ?L = "A @ (a, 16, b # c # bs) # B" and ?L' = "A @ (a, 16, c # bs) # B" and ?phs = "loads (phdrs d)"
  note h = heap [unfolded exec_heap_def]
  obtain vn where vn: "vfs_open name VNON 0 f = Inr (0, Some vn, f1)" "reads_as f1 vn d" and junk: "\<forall>k. length (junk_bytes f1 k) = k"
    and ok: "elf_ok d" and far: "\<forall>k < 64. vpage (stackva + of_nat k * 4096) \<notin> set (seg_vpages ?phs)"
    using fl unfolding exec_file_def by blast
  have sz: "unat (16 :: u64) \<le> PGSIZE" "unat (16 :: u64) \<le> 16" "\<forall>m. size_class m \<longrightarrow> unat (16 :: u64) \<le> m \<longrightarrow> 16 \<le> m" by simp_all
  obtain m0 where k: "kalloc 16 s = Inr (b, s\<lparr>mem := m0\<rparr>)" "kalloc_out 16 s ?L b (s\<lparr>mem := m0\<rparr>) ?L'"
    by (rule kalloc_first [of s ?L 16 16 A a b "c # bs" B]) (use h sz class_16 in \<open>simp_all\<close>)
  have r0: "room (s\<lparr>mem := m0\<rparr>) (1 + (n + 256 + 4 * elf_pages ?phs))" using room room_cong [of "s\<lparr>mem := m0\<rparr>" s] by simp
  obtain s1 where s1: "newvm_map s = Inr (b, s1)" "room s1 (n + 256 + 4 * elf_pages ?phs)" "fresh_space s ?L ktop b s1 ?L'"
    by (rule newvm_map_room [OF _ _ _ _ _ _ _ k r0, of ktop]) (use h in \<open>simp_all\<close>)
  define t where "t = mem s1 b"
  note fs = s1(3) [unfolded fresh_space_def, folded t_def]
  have wf1: "vm_wf s1 t" "slab_wf s1 ?L'" "b \<in> taken ?L'" using fs by simp_all
  have sep: "tables (mem s1) t \<inter> vframe ` fst ` set ?L' = {}" using fs by (elim conjE)
  obtain s2 where ld: "loadelf name b aux f s1 = Inr (elf_aux d aux, f1, s2)" and post: "load_post s1 t d ?phs (n + 256) s2"
    using loadelf_spec [OF vn junk ok fresh_space_load_pre [OF s1(3) ok s1(2)]] unfolding t_def by blast
  have st2: "tree_step t s1 s2" "room s2 (n + 256)" "\<And>ph. ph \<in> set ?phs \<Longrightarrow> seg_in (used_pages s1) s2 t d ph"
    "\<And>va. vpage va \<notin> set (seg_vpages ?phs) \<Longrightarrow> walk (mem s2) t va = walk (mem s1) t va" using post by (auto simp: load_post_def)
  note wf2 = tree_stepD(1) [OF st2(1)]
  have "walk (mem s2) t (stackva + of_nat k * 4096) = None" if "k < 64" for k
    using st2(4) far that fs low_half [OF stack_va_low [OF that]] by simp
  then have none: "\<forall>k < 64. walk (mem s2) t (stackva + of_nat k * 4096) = None" by blast
  have clean2: "clean_frames s2" using tree_stepD(5) [OF st2(1)] fs by blast
  obtain stack s3 s4 where al: "palloc 64 s2 = Inr (stack, s3)" "mem s3 = mem s2" and mp: "mappages t stackva stack STACKSIZE stack_flags s3 = Inr (0, s4)"
    and st4: "tree_step t s2 s4" "room s4 n" and sk: "unat stack mod PGSIZE = 0" "unat stack + 71 * PGSIZE < 2 ^ 47"
      "frames stack 64 \<inter> used_pages s2 = {}" "frames stack 64 \<subseteq> used_pages s4" "frames stack 64 \<inter> tables (mem s4) t = {}"
      "\<forall>x. vframe x \<in> frames stack 64 \<longrightarrow> mem s4 x = 0"
      "\<forall>k < 64. walk (mem s4) t (stackva + of_nat k * 4096) = Some ((stack + of_nat k * 4096) OR stack_flags)"
      "\<forall>va. (\<forall>k < 64. vpage va \<noteq> vpage (stackva + of_nat k * 4096)) \<longrightarrow> walk (mem s4) t va = walk (mem s2) t va"
    by (rule stack_run [OF wf2 clean2 st2(2) none]) (rule that; assumption)
  have step: "tree_step t s1 s4" by (rule tree_step_trans [OF st2(1) st4(1)])
  have bf: "vframe b \<in> vframe ` fst ` set ?L'" "b \<noteq> 0" using taken_frame [OF wf1(2,3)] taken_in_slab(2) [OF wf1(2,3)] by blast+
  have "ld b 0 s3 = Inr t" using bf slab_cells_kept [OF st2(1) wf1(2) sep bf(1)] al(2) by (simp add: ld_def t_def)
  then have run: "exec_space name aux f s = Inr (b, elf_aux d aux, stack, f1, s4)"
    using s1(1) ld al(1) mp by (simp add: exec_space_def) (simp add: STACKSIZE_def)
  have sub: "used_pages s \<subseteq> used_pages s1" "used_pages s1 \<subseteq> used_pages s2" "used_pages s2 \<subseteq> used_pages s4"
    using fs tree_stepD(2) [OF st2(1)] tree_stepD(2) [OF st4(1)] by blast+
  have segs: "\<forall>ph \<in> set ?phs. seg_in (used_pages s1 \<union> frames stack 64) s4 t d ph \<and> seg_ok d ph"
  proof
    fix ph assume ph: "ph \<in> set ?phs"
    have "walk (mem s4) t (seg_va ph k) = walk (mem s2) t (seg_va ph k)" if "k < seg_pages ph" for k
      using sk(8) far vpage_in_seg_vpages [OF ph that] by metis
    then have "seg_in (used_pages s1 \<union> frames stack 64) s4 t d ph"
      using seg_in_kept [OF wf2 seg_in_more [OF st2(3) [OF ph] sk(3)] st4(1)] by blast
    then show "seg_in (used_pages s1 \<union> frames stack 64) s4 t d ph \<and> seg_ok d ph" using ok ph by (simp add: elf_ok_def)
  qed
  obtain F where F: "image_in F (mem s4) t d stack" "F \<inter> (used_pages s1 \<union> frames stack 64) \<subseteq> tables (mem s4) t" "F \<subseteq> used_pages s4"
    by (rule image_inI [OF tree_stepD(1) [OF step] segs sk(7)])
  have "frames stack 64 \<inter> used_pages s1 = {}" using sk(3) sub(2) by blast
  from space_readyI [OF s1(3) t_def step st4(2) F sk(1,2) this sk(4-6)] have "space_ready s ?L ktop s4 ?L' b t d stack n F" .
  with run show thesis by (rule that)
qed

subsection \<open>The registers and the arguments\<close>

text \<open>What the program finds on its stack.  The pointers to the arguments are addresses of the kernel's direct map.\<close>

definition exec_image :: "auxval \<Rightarrow> u64 \<Rightarrow> u8 list list \<Rightarrow> u8 list" where
  "exec_image aux stack ss = stack_image (ptrs (P2V (stack + STACKSIZE)) ss) aux (replicate 8 0) @ strings ss"

lemma length_exec_image [simp]: "length (exec_image aux stack ss) = length (strings ss) + 8 * length ss + 96"
  by (simp add: exec_image_def)

lemma stack_top_minus: "k \<le> 64 * PGSIZE \<Longrightarrow> P2V (stack + STACKSIZE) - of_nat k = P2V stack + of_nat (64 * PGSIZE - k)"
  by (simp add: P2V_def STACKSIZE_def of_nat_diff)

lemma copyargs_stack:
  assumes ss: "\<forall>s \<in> set ss. arg_ok s" "length (exec_image aux stack ss) \<le> 64 * PGSIZE"
    and p: "unat stack mod PGSIZE = 0" "unat stack + 64 * PGSIZE < 2 ^ 47" and zero: "\<forall>x. vframe x \<in> frames stack 64 \<longrightarrow> m x = 0"
  shows "copyargs (P2V (stack + STACKSIZE)) (map cstr ss) aux (bytes_of m) =
    Inr (P2V (stack + STACKSIZE) - of_nat (length (exec_image aux stack ss)),
         put_mem (P2V (stack + STACKSIZE) - of_nat (length (exec_image aux stack ss))) (exec_image aux stack ss) (bytes_of m))"
proof -
  let ?top = "P2V (stack + STACKSIZE)" and ?N = "length (strings ss)"
  have len: "?N + 8 * length ss + 96 \<le> 2 ^ 64" using ss(2) by simp
  obtain a m' where run: "copyargs ?top (map cstr ss) aux (bytes_of m) = Inr (a, m')"
    and psh: "pushed (bytes_of m) ?top m' a (stack_image (ptrs ?top ss) aux (bytes_at (bytes_of m) (?top - of_nat (?N + 16)) 8) @ strings ss)"
    by (rule copyargs_pushed [OF ss(1) len])
  have "bytes_at (bytes_of m) (?top - of_nat (?N + 16)) 8 = replicate 8 0"
  proof (rule nth_equalityI)
    fix i assume "i < length (bytes_at (bytes_of m) (?top - of_nat (?N + 16)) 8)"
    then have i: "i < 8" by simp
    let ?j = "64 * PGSIZE - (?N + 16) + i"
    have x: "?top - of_nat (?N + 16) + of_nat i = P2V stack + of_nat ?j" using ss(2) by (subst stack_top_minus) simp_all
    have "vframe (P2V stack + of_nat ?j) \<in> frames stack 64" by (rule vframe_range [OF p]) (use ss(2) i in simp)
    then have "bytes_of m (P2V stack + of_nat ?j) = bytes_of (\<lambda>_. 0) (P2V stack + of_nat ?j)" by (intro bytes_of_frame) (use zero in simp)
    then have "bytes_of m (?top - of_nat (?N + 16) + of_nat i) = 0" unfolding x by (simp add: bytes_of_def)
    then show "bytes_at (bytes_of m) (?top - of_nat (?N + 16)) 8 ! i = replicate 8 0 ! i" using i by simp
  qed simp
  then have psh: "pushed (bytes_of m) ?top m' a (exec_image aux stack ss)" using psh by (simp add: exec_image_def)
  then have "a = ?top - of_nat (length (exec_image aux stack ss))" by (simp add: pushed_def)
  with run pushed_put_mem [OF psh] len show ?thesis by simp
qed

definition entry_frame :: "u64 \<Rightarrow> auxval \<Rightarrow> u64 \<Rightarrow> (u64 \<Rightarrow> u64) \<Rightarrow> u64 \<Rightarrow> u64" where
  "entry_frame base aux rsp m = m(base + 4056 := at_entry aux, base + 4064 := 0x43, base + 4072 := 0x202, base + 4080 := rsp, base + 4088 := 0x3b)"

lemma entry_frame_other:
  assumes "dm_page base" "vframe x \<noteq> vframe base"
  shows "entry_frame base aux rsp m x = m x"
proof -
  have "x \<noteq> base + d" if "unat d < PGSIZE" for d using assms(2) field_vframe [OF assms(1) that] by metis
  from this [of 4056] this [of 4064] this [of 4072] this [of 4080] this [of 4088] show ?thesis by (simp add: entry_frame_def)
qed

lemma exec_frame_run:
  assumes pr: "p_regs (ptable s p) = base + 3968" "dm_page base" "vframe base \<notin> frames stack 64"
    and ss: "\<forall>s \<in> set ss. arg_ok s" "length (exec_image aux stack ss) \<le> 64 * PGSIZE"
    and k: "unat stack mod PGSIZE = 0" "unat stack + 64 * PGSIZE < 2 ^ 47" and zero: "\<forall>x. vframe x \<in> frames stack 64 \<longrightarrow> mem s x = 0"
  obtains m' where "exec_frame p vmap aux stack (map cstr ss) s = Inr (s\<lparr>mem := m', ptable := (ptable s)(p := (ptable s p)\<lparr>p_vmap := vmap\<rparr>)\<rparr>)"
    "\<forall>x. vframe x \<notin> frames stack 64 \<longrightarrow> m' x = entry_frame base aux (stackva + STACKSIZE - of_nat (length (exec_image aux stack ss))) (mem s) x"
    "\<forall>i < length (exec_image aux stack ss).
       bytes_of m' (P2V stack + of_nat (64 * PGSIZE - length (exec_image aux stack ss)) + of_nat i) = exec_image aux stack ss ! i"
proof -
  let ?img = "exec_image aux stack ss" and ?top = "P2V (stack + STACKSIZE)"
  let ?m1 = "entry_frame base aux (stackva + STACKSIZE) (mem s)"
  let ?a = "P2V stack + of_nat (64 * PGSIZE - length ?img)"
  define m2 where "m2 = words_of (put_mem ?a ?img (bytes_of ?m1)) ?m1"
  define m' where "m' = m2(base + 4080 := stackva + STACKSIZE - of_nat (length ?img))"
  have fr: "vframe (base + 4080) = vframe base" using field_vframe [OF pr(2), of 4080] by simp
  have z1: "\<forall>x. vframe x \<in> frames stack 64 \<longrightarrow> ?m1 x = 0" using zero pr(3) entry_frame_other [OF pr(2)] by metis
  have "m2 = mem (store_bytes ?a ?img (s\<lparr>mem := ?m1\<rparr>))" by (simp add: m2_def store_bytes_def)
  moreover have "unat (of_nat (64 * PGSIZE - length ?img) :: u64) = 64 * PGSIZE - length ?img" by (intro unat_of_nat_64) simp
  ultimately have m2: "m2 x = ?m1 x" if "vframe x \<notin> frames stack 64" for x
    using store_bytes_frames [OF k _ that, of "of_nat (64 * PGSIZE - length ?img)" ?img "s\<lparr>mem := ?m1\<rparr>"] ss(2) by (simp del: length_exec_image)
  have nz: "base + 3968 \<noteq> 0" using dm_page_offset_nonzero [OF pr(2), of 3968] by simp
  have rsp: "m2 (base + 4080) = stackva + STACKSIZE" using m2 pr(3) fr by (simp add: entry_frame_def)
  have "exec_frame p vmap aux stack (map cstr ss) s = Inr (s\<lparr>mem := m', ptable := (ptable s)(p := (ptable s p)\<lparr>p_vmap := vmap\<rparr>)\<rparr>)"
  proof -
    have "copyargs ?top (map cstr ss) aux (bytes_of ?m1) = Inr (?a, put_mem ?a ?img (bytes_of ?m1))"
      using copyargs_stack [OF ss k z1] stack_top_minus [OF ss(2)] by simp
    moreover have "?top - ?a = of_nat (length ?img)" using stack_top_minus [OF ss(2), of stack] by (simp add: algebra_simps del: length_exec_image)
    moreover have "?m1 = (mem s)(base + 3968 + regs_rsp := stackva + STACKSIZE, base + 3968 + regs_rip := at_entry aux,
        base + 3968 + regs_cs := 0x43, base + 3968 + regs_ss := 0x3b, base + 3968 + regs_eflags := 0x202)"
      by (auto simp: entry_frame_def regs_rsp_def regs_rip_def regs_cs_def regs_ss_def regs_eflags_def fun_eq_iff add.assoc)
    ultimately show ?thesis
      using rsp pr(1) nz unfolding exec_frame_def st_def ld_def Let_def
      by (simp add: set_proc_def m2_def m'_def regs_rsp_def add.assoc del: length_exec_image)
  qed
  moreover have "m' x = entry_frame base aux (stackva + STACKSIZE - of_nat (length ?img)) (mem s) x" if "vframe x \<notin> frames stack 64" for x
    using m2 [OF that] by (auto simp: m'_def entry_frame_def)
  moreover have "bytes_of m' (?a + of_nat i) = ?img ! i" if i: "i < length ?img" for i
  proof -
    have e: "?a + of_nat i = P2V stack + of_nat (64 * PGSIZE - length ?img + i)" by simp
    have "vframe (?a + of_nat i) \<in> frames stack 64" unfolding e by (rule vframe_range [OF k]) (use i ss(2) in simp)
    then have "bytes_of m' (?a + of_nat i) = bytes_of m2 (?a + of_nat i)"
      using pr(3) fr by (intro bytes_of_frame) (auto simp: m'_def)
    then show ?thesis using put_mem_at [of ?img i ?a "bytes_of ?m1"] i ss(2) by (simp add: m2_def)
  qed
  ultimately show thesis using that by blast
qed

subsection \<open>Entering the program\<close>

lemma store_in_page:
  assumes "dm_page a" "unat (c - a) + length bs \<le> PGSIZE" "vframe x \<noteq> vframe a"
  shows "mem (store_bytes c bs s) x = mem s x"
proof -
  have "unat a = unat (V2P a) + 0xffff800000000000"
    using assms(1) by (simp add: V2P_def HHDM_OFFSET_def dm_page_def unat_sub word_le_nat_alt)
  then have "unat (V2P a) + 1 * PGSIZE < 2 ^ 47" using assms(1) by (simp add: dm_page_def)
  moreover have "unat (V2P a) mod PGSIZE = 0" using assms(1) by (simp add: dm_page_def page_base_def)
  moreover have "vframe x \<notin> frames (V2P a) 1" using assms(3) by (simp add: frames_def vframe_def)
  ultimately show ?thesis using store_bytes_frames [of "V2P a" 1 "c - a" bs x s] assms(2) by simp
qed

lemma startproc_run:
  assumes "ptable_lock s = 0" "p_stack (ptable s p) = sp"
  shows "startproc p s = Inr (s\<lparr>ptable_lock := 1, msr_gs := Some p, ptable := (ptable s)(p := (ptable s p)\<lparr>p_state := RUNNING\<rparr>),
     mem := save_frame (cpu s) (mem s), cpu := load_frame sp (save_frame (cpu s) (mem s)) (cpu s)\<rparr>)"
  using assms by (simp add: startproc_def acq_free set_current_proc_def set_proc_def switc_eq Let_def)

lemma exec_tail:
  assumes cur: "msr_gs s = Some p" and sp: "exec_space name aux f s = Inr (b, aux', stack, f1, s4)" and fr: "exec_frame p b aux' stack argv s4 = Inr s5"
    and heap: "slab_wf s5 (A @ (a, 16, c # bs) # B)" "clean_frames s5" "slabber_lock s5 = 0" "\<forall>(a', k, fl) \<in> set A. k = 16 \<longrightarrow> fl = []" "unat (c - a) + 16 \<le> PGSIZE"
    and b: "b \<in> taken (A @ (a, 16, c # bs) # B)" "mem s5 b = t" and room: "room s5 1"
  obtains s' where "exec name argv aux f g s = ebind (startproc p s') (\<lambda>s'. Inr (f1, g\<lparr>gdt := load_tss c (gdt g), tr := push_bit 3 9\<rparr>, s'))"
    "cr3 s' = V2P t" "ptable_lock s' = ptable_lock s5" "ptable s' = ptable s5" "cpu s' = cpu s5" "\<forall>x. vframe x \<noteq> vframe a \<longrightarrow> mem s' x = mem s5 x"
proof -
  let ?L = "A @ (a, 16, c # bs) # B"
  have dma: "dm_page a" using heap(1) by (auto simp: slab_wf_def entry_ok_def)
  have sz: "unat sizeof_tss \<le> PGSIZE" "unat sizeof_tss \<le> 16" "\<forall>m. size_class m \<longrightarrow> unat sizeof_tss \<le> m \<longrightarrow> 16 \<le> m"
    using class_16(4) by (simp_all add: sizeof_tss_def)
  obtain m6 where k: "kalloc sizeof_tss s5 = Inr (c, s5\<lparr>mem := m6\<rparr>)" "kalloc_out sizeof_tss s5 ?L c (s5\<lparr>mem := m6\<rparr>) (A @ (a, 16, bs) # B)"
    and m6: "\<forall>y. y \<noteq> a + 16 \<longrightarrow> y \<noteq> a + 32 \<longrightarrow> m6 y = mem s5 y"
    by (rule kalloc_first [of s5 ?L sizeof_tss 16 A a c bs B]) (use heap sz class_16 in \<open>simp_all\<close>)
  have k6: "slab_wf (s5\<lparr>mem := m6\<rparr>) (A @ (a, 16, bs) # B)" "c \<in> taken (A @ (a, 16, bs) # B)" using k(2) by (auto simp: kalloc_out_def)
  have "(a, 16, c # bs) \<in> set ?L" by simp
  then have "b \<noteq> a + 16" "b \<noteq> a + 32" "b \<noteq> 0" using taken_in_slab(2,3) [OF heap(1) b(1)] by fastforce+
  then have sv: "switchvm b (s5\<lparr>mem := m6\<rparr>) = Inr (s5\<lparr>mem := m6, cr3 := V2P t\<rparr>)" using m6 b(2) by (simp add: switchvm_def ld_def)
  let ?s7 = "s5\<lparr>mem := m6, cr3 := V2P t\<rparr>"
  have pw: "pmm_wf ?s7" using k6(1) by (simp add: slab_wf_def pmm_wf_def)
  have r7: "room ?s7 (1 + 0)" using room room_cong [of ?s7 s5] by simp
  obtain fra s8 bm gg where al: "palloc 1 ?s7 = Inr (fra, s8)" "s8 = ?s7\<lparr>bitmap := bm, dbg_g := gg\<rparr>"
    by (rule palloc_room [OF pw r7]) auto
  let ?s9 = "store_bytes (c + tss_rsp0) (le64 (P2V (fra + 4096))) s8"
  have "unat (c + tss_rsp0 - a) + length (le64 (P2V (fra + 4096))) \<le> PGSIZE"
  proof -
    have "unat (c - a + 4) = unat (c - a) + 4" using heap(5) by (subst unat_add_no_wrap) simp_all
    then show ?thesis using heap(5) by (simp add: tss_rsp0_def algebra_simps)
  qed
  then have "mem ?s9 x = mem s8 x" if "vframe x \<noteq> vframe a" for x using that by (rule store_in_page [OF dma])
  moreover have "mem s8 x = mem s5 x" if "vframe x \<noteq> vframe a" for x
  proof -
    have "x \<noteq> a + 16" "x \<noteq> a + 32" using that field_vframe [OF dma, of 16] field_vframe [OF dma, of 32] by auto
    then show ?thesis using al(2) m6 by simp
  qed
  ultimately have m9: "mem ?s9 x = mem s5 x" if "vframe x \<noteq> vframe a" for x using that by metis
  have "exec name argv aux f g s = ebind (startproc p ?s9) (\<lambda>s'. Inr (f1, g\<lparr>gdt := load_tss c (gdt g), tr := push_bit 3 9\<rparr>, s'))"
    using cur sp fr k(1) sv al(1) taken_in_slab(2) [OF k6] by (simp add: exec_def get_current_proc_def Let_def)
  then show thesis by (rule that) (use m9 in \<open>auto simp: al(2) store_bytes_def\<close>)
qed

lemma frame_slots_vframe:
  assumes "dm_page base" "56 \<le> off" "off \<le> 3912" "y \<in> frame_slots (base + of_nat off - 56)"
  shows "vframe y = vframe base" "y = base + of_nat k \<Longrightarrow> k < PGSIZE \<Longrightarrow> k < 3912"
proof -
  obtain j where j: "y = base + of_nat j" "j < 3912"
  proof -
    have "\<exists>i \<in> {0, 8, 16, 24, 32, 40, 48}. y = base + of_nat off - 56 + of_nat i" using assms(4) by (simp add: frame_slots_def)
    then obtain i :: nat where "i \<in> {0, 8, 16, 24, 32, 40, 48}" "y = base + of_nat off - 56 + of_nat i" by blast
    then have i: "i \<le> 48" "y = base + of_nat off - 56 + of_nat i" by auto
    then have "y = base + of_nat (off - 56 + i)" using assms(2) by (simp add: of_nat_diff)
    then show thesis by (rule that) (use i(1) assms(2,3) in simp)
  qed
  have "unat (of_nat j :: u64) < PGSIZE" using j(2) by (simp add: unat_of_nat)
  then show "vframe y = vframe base" using j(1) field_vframe [OF assms(1)] by simp
  assume "y = base + of_nat k" "k < PGSIZE"
  then have "(of_nat k :: u64) = of_nat j" "k < 2 ^ 64" "j < 2 ^ 64" using j by simp_all
  then have "k = j" by (metis unat_of_nat_64)
  then show "k < 3912" using j(2) by simp
qed

text \<open>The heap, the base page and the image after the registers and the arguments are written.\<close>

lemma space_ready_kept:
  assumes rd: "space_ready s L ktop s4 L' b t d stack n F" and base: "vframe base \<in> used_pages s" "vframe base \<notin> vframe ` fst ` set L'"
    and s5: "\<forall>x. vframe x \<notin> frames stack 64 \<longrightarrow> vframe x \<noteq> vframe base \<longrightarrow> mem s5 x = mem s4 x"
      "slabber_first s5 = slabber_first s4" "bitmap s5 = bitmap s4" "slabber_lock s5 = slabber_lock s4"
  shows "slab_wf s5 L'" "clean_frames s5" "slabber_lock s5 = 0" "b \<in> taken L'" "mem s5 b = t" "room s5 n"
proof -
  note r = rd [unfolded space_ready_def]
  have u: "used_pages s5 = used_pages s4" using s5(3) by (simp add: used_pages_def)
  have sl: "mem s5 y = mem s4 y" if "vframe y \<in> vframe ` fst ` set L'" for y
    by (rule s5(1) [rule_format]) (use r that base(2) in blast, use that base(2) in metis)
  have sw: "slab_wf s4 L'" "b \<in> taken L'" "mem s4 b = t" using r by simp_all
  show "slab_wf s5 L'"
    by (rule slab_wf_kept [OF sw(1)]) (use sl sw(1) s5(2,3) u in \<open>auto simp: slab_wf_def pmm_wf_def\<close>)
  show "b \<in> taken L'" by (rule sw(2))
  show "mem s5 b = t" using sl [OF taken_frame [OF sw(1,2)]] sw(3) by simp
  show "slabber_lock s5 = 0" using r s5(4) by simp
  show "room s5 n" using r room_cong [OF s5(3)] by simp
  show "clean_frames s5"
    unfolding clean_frames_def u
  proof (intro allI impI)
    fix x assume x: "vframe x \<notin> used_pages s4"
    have "mem s5 x = mem s4 x" by (rule s5(1) [rule_format]) (use r x base(1) in \<open>blast, metis subsetD\<close>)
    then show "mem s5 x = 0" using r x by (simp add: clean_frames_def)
  qed
qed

lemma kproc_more:
  fixes s s' :: kproc
  assumes "machine.more s' = machine.more s"
  shows "ptable s' = ptable s" "ptable_lock s' = ptable_lock s" "cpu s' = cpu s" "msr_gs s' = msr_gs s"
  using assms by (cases s, cases s', simp)+

text \<open>In memory that agrees with \<open>m\<close> on the frames of the image and on the stack the program sees its stack.\<close>

lemma stack_shown:
  assumes im: "image_in F m t d stack" and same: "\<forall>x. vframe x \<in> F \<longrightarrow> m' x = m x"
    and k: "unat stack mod PGSIZE = 0" "unat stack + 64 * PGSIZE < 2 ^ 47" and len: "length img \<le> 64 * PGSIZE" "i < length img"
    and at: "bytes_of m' (P2V stack + of_nat (64 * PGSIZE - length img) + of_nat i) = img ! i"
  shows "user_byte m' t (stackva + STACKSIZE - of_nat (length img) + of_nat i) = Some (img ! i)"
proof -
  let ?j = "64 * PGSIZE - length img + i"
  have w: "\<forall>k < 64. walk m' t (stackva + of_nat k * 4096) = Some ((stack + of_nat k * 4096) OR stack_flags)"
    using im same unfolding image_in_def by blast
  have fl: "stack_flags AND PTE_ADDR_MASK = 0" by (simp add: PTE_PRESENT_def PTE_RW_def PTE_USER_def PTE_ADDR_MASK_def)
  have sv: "unat stackva + 64 * PGSIZE \<le> 2 ^ 47" "stackva AND NOT 0xfff = stackva" by (simp_all add: stackva_def)
  have "?j < 64 * PGSIZE" using len by simp
  then have "user_byte m' t (stackva + of_nat ?j) = Some (bytes_of m' (P2V stack + of_nat ?j))"
    using mapped_bytes [OF w k fl sv(1), of ?j] unfolding sv(2) by blast
  moreover have "stackva + STACKSIZE - of_nat (length img) + of_nat i = stackva + of_nat ?j" using len(1) by (simp add: STACKSIZE_def of_nat_diff)
  moreover have "P2V stack + of_nat (64 * PGSIZE - length img) + of_nat i = P2V stack + of_nat ?j" by simp
  ultimately show ?thesis using at by (simp only:)
qed

text \<open>
  The memory in the end: \<open>m5\<close> is the memory after the registers and the arguments are written, \<open>m'\<close> differs from it in the page of the slab \<open>a\<close> and in the
  words the last switch saves.
\<close>

lemma exec_memory:
  assumes rd: "space_ready s L ktop s4 L' b t d stack n F" and base: "dm_page base" "vframe base \<in> used_pages s" and off: "56 \<le> off" "off \<le> 3912"
    and apart: "vframe base \<notin> tables (mem s) ktop" "vframe base \<notin> vframe ` fst ` set L" and nL: "vframe base \<notin> vframe ` fst ` set L'" "vframe a \<in> vframe ` fst ` set L'"
    and m5: "\<forall>x. vframe x \<notin> frames stack 64 \<longrightarrow> m5 x = entry_frame base aux rsp (mem s4) x"
    and m': "\<forall>x. vframe x \<noteq> vframe a \<longrightarrow> x \<notin> frame_slots (base + of_nat off - 56) \<longrightarrow> m' x = m5 x"
    and len: "length img \<le> 64 * PGSIZE" and img: "\<forall>i < length img. bytes_of m5 (P2V stack + of_nat (64 * PGSIZE - length img) + of_nat i) = img ! i"
  shows "\<forall>x. vframe x \<in> F \<longrightarrow> m' x = mem s4 x"
    "\<forall>k. 3912 \<le> k \<longrightarrow> k < PGSIZE \<longrightarrow> m' (base + of_nat k) = entry_frame base aux rsp (mem s) (base + of_nat k)"
    "\<forall>i < length img. bytes_of m' (P2V stack + of_nat (64 * PGSIZE - length img) + of_nat i) = img ! i"
proof -
  have sep: "F \<inter> vframe ` fst ` set L' = {}" "frames stack 64 \<inter> (F \<union> used_pages s \<union> vframe ` fst ` set L') = {}" "F \<inter> used_pages s \<subseteq> tables (mem s) ktop"
    using space_ready_apart [OF rd] by blast+
  have bst: "vframe base \<notin> frames stack 64" "vframe base \<notin> F" using sep base(2) apart(1) by blast+
  have slots: "y \<notin> frame_slots (base + of_nat off - 56)" if "vframe y \<noteq> vframe base \<or> (\<exists>k. y = base + of_nat k \<and> 3912 \<le> k \<and> k < PGSIZE)" for y
    using that frame_slots_vframe [OF base(1) off, of y] by fastforce
  have far: "m' x = m5 x" if "vframe x \<noteq> vframe a" "vframe x \<noteq> vframe base" for x using m' slots that by blast
  show "\<forall>x. vframe x \<in> F \<longrightarrow> m' x = mem s4 x"
  proof (intro allI impI)
    fix x assume x: "vframe x \<in> F"
    have "vframe x \<notin> vframe ` fst ` set L'" "vframe x \<notin> frames stack 64" using sep(1,2) x by blast+
    moreover have "vframe x \<noteq> vframe a" "vframe x \<noteq> vframe base" using calculation(1) x nL(2) bst(2) by metis+
    ultimately show "m' x = mem s4 x" using far m5 entry_frame_other [OF base(1)] by simp
  qed
  show "\<forall>k. 3912 \<le> k \<longrightarrow> k < PGSIZE \<longrightarrow> m' (base + of_nat k) = entry_frame base aux rsp (mem s) (base + of_nat k)"
  proof (intro allI impI)
    fix k assume k: "3912 \<le> k" "k < PGSIZE"
    then have "unat (of_nat k :: u64) < PGSIZE" by (simp add: unat_of_nat)
    then have v: "vframe (base + of_nat k) = vframe base" by (rule field_vframe [OF base(1)])
    then have "m' (base + of_nat k) = m5 (base + of_nat k)" using m' slots k nL by metis
    moreover have "mem s4 (base + of_nat k) = mem s (base + of_nat k)" using rd base(2) apart v by (simp add: space_ready_def)
    ultimately show "m' (base + of_nat k) = entry_frame base aux rsp (mem s) (base + of_nat k)" using m5 bst(1) v by (simp add: entry_frame_def)
  qed
  have k: "unat stack mod PGSIZE = 0" "unat stack + 64 * PGSIZE < 2 ^ 47" using rd by (simp_all add: space_ready_def)
  show "\<forall>i < length img. bytes_of m' (P2V stack + of_nat (64 * PGSIZE - length img) + of_nat i) = img ! i"
  proof (intro allI impI)
    fix i assume i: "i < length img"
    let ?x = "P2V stack + of_nat (64 * PGSIZE - length img) + of_nat i"
    have e: "?x = P2V stack + of_nat (64 * PGSIZE - length img + i)" by simp
    have v: "vframe ?x \<in> frames stack 64" unfolding e by (rule vframe_range [OF k]) (use i len in simp)
    have "bytes_of m' ?x = bytes_of m5 ?x"
      by (rule bytes_of_frame, rule far) (use v sep nL bst in \<open>metis Int_iff UnCI empty_iff\<close>)+
    then show "bytes_of m' ?x = img ! i" using img i by simp
  qed
qed

lemma exec_to_start:
  assumes heap: "exec_heap s A a b c bs B ktop" and cur: "exec_proc s p base"
    and apart: "vframe base \<notin> tables (mem s) ktop" "vframe base \<notin> vframe ` fst ` set (A @ (a, 16, b # c # bs) # B)"
    and prog: "exec_file name f d f1" and room: "room s (258 + 4 * elf_pages (loads (phdrs d)))"
    and args: "\<forall>x \<in> set ss. arg_ok x" "length (strings ss) + 8 * length ss + 96 \<le> unat STACKSIZE"
  obtains stack t s4 F s9 m5 where "exec name (map cstr ss) aux f g s = ebind (startproc p s9) (\<lambda>s'. Inr (f1, g\<lparr>gdt := load_tss c (gdt g), tr := push_bit 3 9\<rparr>, s'))"
    "space_ready s (A @ (a, 16, b # c # bs) # B) ktop s4 (A @ (a, 16, c # bs) # B) b t d stack 1 F" "cr3 s9 = V2P t" "ptable_lock s9 = ptable_lock s"
    "ptable s9 = (ptable s)(p := (ptable s p)\<lparr>p_vmap := b\<rparr>)" "cpu s9 = cpu s" "\<forall>x. vframe x \<noteq> vframe a \<longrightarrow> mem s9 x = m5 x"
    "\<forall>x. vframe x \<notin> frames stack 64 \<longrightarrow>
       m5 x = entry_frame base (elf_aux d aux) (stackva + STACKSIZE - of_nat (length (exec_image (elf_aux d aux) stack ss))) (mem s4) x"
    "\<forall>i < length (exec_image (elf_aux d aux) stack ss).
       bytes_of m5 (P2V stack + of_nat (64 * PGSIZE - length (exec_image (elf_aux d aux) stack ss)) + of_nat i) = exec_image (elf_aux d aux) stack ss ! i"
proof -
  let ?L = "A @ (a, 16, b # c # bs) # B" and ?L' = "A @ (a, 16, c # bs) # B"
  obtain off where c: "msr_gs s = Some p" "p_regs (ptable s p) = base + 3968" "p_stack (ptable s p) = base + 3912" "dm_page base"
    "vframe base \<in> used_pages s" "c_rsp (cpu s) = base + of_nat off" "56 \<le> off" "off \<le> 3912" using cur unfolding exec_proc_def by blast
  have r: "room s (1 + (1 + 256 + 4 * elf_pages (loads (phdrs d))))" using room by (simp add: add.commute)
  obtain stack t s4 F where sp: "exec_space name aux f s = Inr (b, elf_aux d aux, stack, f1, s4)" and rd: "space_ready s ?L ktop s4 ?L' b t d stack 1 F"
    by (rule exec_space_run [OF heap prog r])
  note q = rd [unfolded space_ready_def]
  have k: "unat stack mod PGSIZE = 0" "unat stack + 64 * PGSIZE < 2 ^ 47" "\<forall>x. vframe x \<in> frames stack 64 \<longrightarrow> mem s4 x = 0" using q by simp_all
  let ?img = "exec_image (elf_aux d aux) stack ss"
  have len: "length ?img \<le> 64 * PGSIZE" using args(2) by (simp add: STACKSIZE_def)
  have more: "machine.more s4 = machine.more s" using q by simp
  note m4 = kproc_more [OF more]
  have bst: "vframe base \<notin> frames stack 64" using space_ready_apart [OF rd] c(5) by blast
  have regs: "p_regs (ptable s4 p) = base + 3968" using m4 c(2) by simp
  obtain m5 where fr: "exec_frame p b (elf_aux d aux) stack (map cstr ss) s4 = Inr (s4\<lparr>mem := m5, ptable := (ptable s4)(p := (ptable s4 p)\<lparr>p_vmap := b\<rparr>)\<rparr>)"
    and m5: "\<forall>x. vframe x \<notin> frames stack 64 \<longrightarrow> m5 x = entry_frame base (elf_aux d aux) (stackva + STACKSIZE - of_nat (length ?img)) (mem s4) x"
    and img: "\<forall>i < length ?img. bytes_of m5 (P2V stack + of_nat (64 * PGSIZE - length ?img) + of_nat i) = ?img ! i"
    by (rule exec_frame_run [OF regs c(4) bst args(1) len k])
  define s5 where "s5 = s4\<lparr>mem := m5, ptable := (ptable s4)(p := (ptable s4 p)\<lparr>p_vmap := b\<rparr>)\<rparr>"
  have sel: "mem s5 = m5" "bitmap s5 = bitmap s4" "slabber_first s5 = slabber_first s4" "slabber_lock s5 = slabber_lock s4" "cpu s5 = cpu s"
    "ptable s5 = (ptable s)(p := (ptable s p)\<lparr>p_vmap := b\<rparr>)" "ptable_lock s5 = ptable_lock s"
    using m4 by (simp_all add: s5_def)
  have nL: "vframe base \<notin> vframe ` fst ` set ?L'" "vframe a \<in> vframe ` fst ` set ?L'" using apart(2) by simp_all
  have "\<forall>x. vframe x \<notin> frames stack 64 \<longrightarrow> vframe x \<noteq> vframe base \<longrightarrow> mem s5 x = mem s4 x"
    using m5 entry_frame_other [OF c(4)] sel(1) by simp
  note kp = space_ready_kept [where ?s5.0 = s5, OF rd c(5) nL(1) this sel(3,2,4)]
  have hA: "\<forall>(a', k, fl) \<in> set A. k = 16 \<longrightarrow> fl = []" "unat (c - a) + 16 \<le> PGSIZE" using heap by (simp_all add: exec_heap_def)
  obtain s9 where s9: "exec name (map cstr ss) aux f g s = ebind (startproc p s9) (\<lambda>s'. Inr (f1, g\<lparr>gdt := load_tss c (gdt g), tr := push_bit 3 9\<rparr>, s'))"
    "cr3 s9 = V2P t" "ptable_lock s9 = ptable_lock s5" "ptable s9 = ptable s5" "cpu s9 = cpu s5" "\<forall>x. vframe x \<noteq> vframe a \<longrightarrow> mem s9 x = mem s5 x"
    by (rule exec_tail [OF c(1) sp fr [folded s5_def] kp(1-3) hA kp(4-6), where g = g])
  show thesis by (rule that [OF s9(1) rd s9(2) _ _ _ _ m5 img]) (use s9 sel in simp_all)
qed

lemma exec_run:
  assumes heap: "exec_heap s A a b c bs B ktop" and cur: "exec_proc s p base"
    and apart: "vframe base \<notin> tables (mem s) ktop" "vframe base \<notin> vframe ` fst ` set (A @ (a, 16, b # c # bs) # B)"
    and prog: "exec_file name f d f1" and room: "room s (258 + 4 * elf_pages (loads (phdrs d)))"
    and args: "\<forall>x \<in> set ss. arg_ok x" "length (strings ss) + 8 * length ss + 96 \<le> unat STACKSIZE" and lock: "ptable_lock s = 0"
  obtains stack t s' F m where "exec name (map cstr ss) aux f g s = Inr (f1, g\<lparr>gdt := load_tss c (gdt g), tr := push_bit 3 9\<rparr>, s')"
    "cr3 s' = V2P t" "ptable_lock s' = 1" "msr_gs s' = Some p" "ptable s' = (ptable s)(p := (ptable s p)\<lparr>p_vmap := b, p_state := RUNNING\<rparr>)"
    "cpu s' = load_frame (base + 3912) (mem s') (cpu s)" "unat stack mod PGSIZE = 0" "unat stack + 64 * PGSIZE < 2 ^ 47"
    "image_in F m t d stack" "\<forall>x. vframe x \<in> F \<longrightarrow> mem s' x = m x"
    "\<forall>k. 3912 \<le> k \<longrightarrow> k < PGSIZE \<longrightarrow> mem s' (base + of_nat k) =
       entry_frame base (elf_aux d aux) (stackva + STACKSIZE - of_nat (length (exec_image (elf_aux d aux) stack ss))) (mem s) (base + of_nat k)"
    "\<forall>i < length (exec_image (elf_aux d aux) stack ss).
       bytes_of (mem s') (P2V stack + of_nat (64 * PGSIZE - length (exec_image (elf_aux d aux) stack ss)) + of_nat i) = exec_image (elf_aux d aux) stack ss ! i"
proof -
  let ?L' = "A @ (a, 16, c # bs) # B"
  obtain off where c: "p_stack (ptable s p) = base + 3912" "dm_page base" "vframe base \<in> used_pages s" "c_rsp (cpu s) = base + of_nat off" "56 \<le> off" "off \<le> 3912"
    using cur unfolding exec_proc_def by blast
  obtain stack t s4 F s9 m5 where run: "exec name (map cstr ss) aux f g s = ebind (startproc p s9) (\<lambda>s'. Inr (f1, g\<lparr>gdt := load_tss c (gdt g), tr := push_bit 3 9\<rparr>, s'))"
    and rd: "space_ready s (A @ (a, 16, b # c # bs) # B) ktop s4 ?L' b t d stack 1 F"
    and s9: "cr3 s9 = V2P t" "ptable_lock s9 = ptable_lock s" "ptable s9 = (ptable s)(p := (ptable s p)\<lparr>p_vmap := b\<rparr>)" "cpu s9 = cpu s"
      "\<forall>x. vframe x \<noteq> vframe a \<longrightarrow> mem s9 x = m5 x"
    and m5: "\<forall>x. vframe x \<notin> frames stack 64 \<longrightarrow>
       m5 x = entry_frame base (elf_aux d aux) (stackva + STACKSIZE - of_nat (length (exec_image (elf_aux d aux) stack ss))) (mem s4) x"
    and img: "\<forall>i < length (exec_image (elf_aux d aux) stack ss).
       bytes_of m5 (P2V stack + of_nat (64 * PGSIZE - length (exec_image (elf_aux d aux) stack ss)) + of_nat i) = exec_image (elf_aux d aux) stack ss ! i"
    by (rule exec_to_start [OF heap cur apart prog room args])
  have l: "ptable_lock s9 = 0" "p_stack (ptable s9 p) = base + 3912" using s9(2,3) lock c(1) by simp_all
  let ?s' = "s9\<lparr>ptable_lock := 1, msr_gs := Some p, ptable := (ptable s9)(p := (ptable s9 p)\<lparr>p_state := RUNNING\<rparr>),
     mem := save_frame (cpu s9) (mem s9), cpu := load_frame (base + 3912) (save_frame (cpu s9) (mem s9)) (cpu s9)\<rparr>"
  have run': "exec name (map cstr ss) aux f g s = Inr (f1, g\<lparr>gdt := load_tss c (gdt g), tr := push_bit 3 9\<rparr>, ?s')"
    using run startproc_run [OF l] by simp
  have nL: "vframe base \<notin> vframe ` fst ` set ?L'" "vframe a \<in> vframe ` fst ` set ?L'" using apart(2) by simp_all
  have len: "length (exec_image (elf_aux d aux) stack ss) \<le> 64 * PGSIZE" using args(2) by (simp add: STACKSIZE_def)
  have m': "\<forall>x. vframe x \<noteq> vframe a \<longrightarrow> x \<notin> frame_slots (base + of_nat off - 56) \<longrightarrow> mem ?s' x = m5 x"
    using s9(4,5) save_frame_other [of _ "cpu s9" "mem s9"] c(4) by simp
  note mm = exec_memory [OF rd c(2,3,5,6) apart nL m5 m' len img]
  have k: "unat stack mod PGSIZE = 0" "unat stack + 64 * PGSIZE < 2 ^ 47" "image_in F (mem s4) t d stack" using rd by (simp_all add: space_ready_def)
  show thesis
    by (rule that [OF run' _ _ _ _ _ k mm]) (use s9 in simp_all)
qed

text \<open>With the lock held, as it is in a process that has not released it since it was started, the process waits for itself after all this.\<close>

lemma exec_under_lock:
  assumes heap: "exec_heap s A a b c bs B ktop" and cur: "exec_proc s p base"
    and apart: "vframe base \<notin> tables (mem s) ktop" "vframe base \<notin> vframe ` fst ` set (A @ (a, 16, b # c # bs) # B)"
    and prog: "exec_file name f d f1" and room: "room s (258 + 4 * elf_pages (loads (phdrs d)))"
    and args: "\<forall>x \<in> set ss. arg_ok x" "length (strings ss) + 8 * length ss + 96 \<le> unat STACKSIZE" and lock: "ptable_lock s \<noteq> 0"
  shows "exec name (map cstr ss) aux f g s = Inl Deadlock"
proof -
  obtain s9 where "exec name (map cstr ss) aux f g s = ebind (startproc p s9) (\<lambda>s'. Inr (f1, g\<lparr>gdt := load_tss c (gdt g), tr := push_bit 3 9\<rparr>, s'))"
    "ptable_lock s9 = ptable_lock s"
    by (rule exec_to_start [OF heap cur apart prog room args])
  then show ?thesis using lock by (simp add: startproc_def acq_def acquire_def atomic_exchange_def)
qed

text \<open>
  C2 (a program is entered).  Let the lock of the process table be free, the heap have two free blocks of 16 bytes, memory have room, and the file be a
  well-formed program that leaves the pages of the stack alone.  Then \<open>exec\<close> builds the address space and starts the process: the
  switch returns to the label on the process's kernel stack with the saved registers on top, and from there the CPU enters the program at its entry point, in
  user mode with interrupts enabled, in an address space that shows all segments, with the stack pointer at the argument count, the argument
  pointers, the auxiliary values and the strings.  The lock of the process table is still held then, so the next timer interrupt never returns.
\<close>

theorem exec_enters_program:
  assumes heap: "exec_heap s A a b c bs B ktop" and cur: "exec_proc s p base"
    and apart: "vframe base \<notin> tables (mem s) ktop" "vframe base \<notin> vframe ` fst ` set (A @ (a, 16, b # c # bs) # B)"
    and prog: "exec_file name f d f1" and room: "room s (258 + 4 * elf_pages (loads (phdrs d)))"
    and args: "\<forall>x \<in> set ss. arg_ok x" "length (strings ss) + 8 * length ss + 96 \<le> unat STACKSIZE" and lock: "ptable_lock s = 0"
  shows "\<exists>stack s'. exec name (map cstr ss) aux f g s = Inr (f1, g\<lparr>gdt := load_tss c (gdt g), tr := push_bit 3 9\<rparr>, s') \<and>
    c_rip (cpu s') = mem s (base + 3960) \<and> c_rsp (cpu s') = base + 3968 \<and>
    (let u = cpu (ret_to_proc s'); t = P2V (cr3 s'); img = exec_image (elf_aux d aux) stack ss in
       c_rip u = e_entry (take sizeof_Elf64_Ehdr d) \<and> c_cs u = 0x43 \<and> c_eflags u = 0x202 \<and> c_rsp u = stackva + STACKSIZE - of_nat (length img) \<and>
       (\<forall>ph \<in> set (loads (phdrs d)). seg_shown (mem s') t d ph) \<and>
       (\<forall>i < length img. user_byte (mem s') t (c_rsp u + of_nat i) = Some (img ! i))) \<and>
    msr_gs s' = Some p \<and> p_state (ptable s' p) = RUNNING \<and> p_vmap (ptable s' p) = b \<and> ptable_lock s' = 1 \<and> apic_timer s' = Inl Deadlock"
proof -
  obtain stack t s' F m where run: "exec name (map cstr ss) aux f g s = Inr (f1, g\<lparr>gdt := load_tss c (gdt g), tr := push_bit 3 9\<rparr>, s')"
    and s': "cr3 s' = V2P t" "ptable_lock s' = 1" "msr_gs s' = Some p" "ptable s' = (ptable s)(p := (ptable s p)\<lparr>p_vmap := b, p_state := RUNNING\<rparr>)"
      "cpu s' = load_frame (base + 3912) (mem s') (cpu s)"
    and k: "unat stack mod PGSIZE = 0" "unat stack + 64 * PGSIZE < 2 ^ 47" and im: "image_in F m t d stack" "\<forall>x. vframe x \<in> F \<longrightarrow> mem s' x = m x"
    and mB: "\<forall>k. 3912 \<le> k \<longrightarrow> k < PGSIZE \<longrightarrow> mem s' (base + of_nat k) =
       entry_frame base (elf_aux d aux) (stackva + STACKSIZE - of_nat (length (exec_image (elf_aux d aux) stack ss))) (mem s) (base + of_nat k)"
    and mS: "\<forall>i < length (exec_image (elf_aux d aux) stack ss).
       bytes_of (mem s') (P2V stack + of_nat (64 * PGSIZE - length (exec_image (elf_aux d aux) stack ss)) + of_nat i) = exec_image (elf_aux d aux) stack ss ! i"
    by (rule exec_run [OF assms]) (rule that; assumption)
  let ?img = "exec_image (elf_aux d aux) stack ss"
  have len: "length ?img \<le> 64 * PGSIZE" using args(2) by (simp add: STACKSIZE_def)
  have B: "mem s' (base + 3960) = mem s (base + 3960)" "mem s' (base + 4056) = e_entry (take sizeof_Elf64_Ehdr d)" "mem s' (base + 4064) = 0x43"
    "mem s' (base + 4072) = 0x202" "mem s' (base + 4080) = stackva + STACKSIZE - of_nat (length ?img)"
    using mB [rule_format, of 3960] mB [rule_format, of 4056] mB [rule_format, of 4064] mB [rule_format, of 4072] mB [rule_format, of 4080]
    by (simp_all add: entry_frame_def elf_aux_def Let_def del: length_exec_image)
  have "apic_timer s' = Inl Deadlock" using s'(2) by (simp add: apic_timer_def acq_def acquire_def atomic_exchange_def)
  moreover have "\<forall>ph \<in> set (loads (phdrs d)). seg_shown (mem s') (P2V (cr3 s')) d ph" using im s'(1) by (simp add: image_in_def)
  moreover have "\<forall>i < length ?img. user_byte (mem s') (P2V (cr3 s')) (stackva + STACKSIZE - of_nat (length ?img) + of_nat i) = Some (?img ! i)"
    using stack_shown [OF im k len] mS s'(1) by simp
  ultimately show ?thesis
    using run s'(2-5) B by (intro exI [of _ stack] exI [of _ s']) (simp add: ret_to_proc_def load_frame_def Let_def add.assoc del: length_exec_image)
qed

subsection \<open>A machine to run it on\<close>

text \<open>
  Frame 1 is a slab of 16-byte blocks, the first of which is the kernel's map; frame 2 is the kernel's top-level table; frame 3 holds the kernel stack of
  process 2, which runs there; 1021 frames are free.
\<close>

definition demo_exec :: kproc where
  "demo_exec = \<lparr>bitmap = 14 # replicate 127 0, bitmap_addr = 0, spinlock = 0, dbg_g = 10,
     mem = (\<lambda>_. 0)(P2V 0x1008 := 16, P2V 0x1010 := 1, P2V 0x1020 := P2V 0x1038, P2V 0x1028 := P2V 0x2000, P2V 0x1038 := P2V 0x1048, P2V 0x3f78 := 0x9000),
     slabber_first = P2V 0x1000, slabber_lock = 0, slab_id = 1, kernel_vm_map = P2V 0x1028, cr3 = 0x2000, ptable_lock = 0,
     ptable = (\<lambda>_. \<lparr>p_regs = P2V 0x3f80, p_stack = P2V 0x3f48, p_state = RUNNING, p_pid = 1, p_vmap = 0\<rparr>),
     msr_gs = Some 2, nextpid = 1, sched_i = 2,
     cpu = \<lparr>c_rsp = P2V 0x3d00, c_rbp = 1, c_rbx = 2, c_r12 = 3, c_r13 = 4, c_r14 = 5, c_r15 = 6, c_rip = 0x1234, c_cs = 0x28, c_eflags = 2\<rparr>\<rparr>"

abbreviation demo_slabs :: "slab_entry list" where
  "demo_slabs \<equiv> [(P2V 0x1000, 16, [P2V 0x1038, P2V 0x1048])]"

lemma demo_exec_used: "used_pages demo_exec = {1, 2, 3}"
proof -
  have "bit (14 :: u8) n \<longleftrightarrow> n = 1 \<or> n = 2 \<or> n = 3" if "n < 8" for n
    using that by (auto simp: less_Suc_eq numeral_eq_Suc)
  then have "page_used (bitmap demo_exec) n \<longleftrightarrow> n = 1 \<or> n = 2 \<or> n = 3" for n
    by (cases "n < 8") (auto simp: page_used_def demo_exec_def nth_Cons')
  then show ?thesis unfolding used_pages_def by (auto simp: demo_exec_def)
qed

lemma demo_exec_slabs: "slab_wf demo_exec demo_slabs" "P2V 0x1028 \<in> taken demo_slabs"
proof -
  have sc: "size_class 16" by (rule class_16(3))
  have b: "P2V 0x1038 = blk (P2V 0x1000) 16 1" "P2V 0x1028 = blk (P2V 0x1000) 16 0" "P2V 0x1048 = blk (P2V 0x1000) 16 2"
    by (simp_all add: blk_def P2V_def)
  show "slab_wf demo_exec demo_slabs"
    using sc by (auto simp: slab_wf_def entry_ok_def demo_exec_used dm_page_P2V b(1,3) blocks_def blk_inj)
      (simp_all add: demo_exec_def pmm_wf_def P2V_def HHDM_OFFSET_def blk_def)
  show "P2V 0x1028 \<in> taken demo_slabs"
    by (auto simp: taken_def b blocks_def blk_inj dm_page_P2V)
qed

lemma demo_exec_frames: "mem demo_exec x = 0" if "vframe x \<noteq> 1" "vframe x \<noteq> 3"
proof -
  have "x \<noteq> P2V a" if "unat a div PGSIZE = 1 \<or> unat a div PGSIZE = 3" for a using that \<open>vframe x \<noteq> 1\<close> \<open>vframe x \<noteq> 3\<close> by auto
  then show ?thesis by (simp add: demo_exec_def)
qed

lemma demo_exec_tree:
  "vm_wf demo_exec (P2V 0x2000)" "tables (mem demo_exec) (P2V 0x2000) = {2}" "clean_frames demo_exec"
proof -
  have z: "mem demo_exec (slot (P2V 0x2000) i) = 0" if "i < 512" for i
    using slot_vframe [of "P2V 0x2000" i] that by (intro demo_exec_frames) simp_all
  show "vm_wf demo_exec (P2V 0x2000)"
    by (rule vm_wf_empty) (simp_all add: demo_exec_used dm_page_P2V z, simp add: demo_exec_def pmm_wf_def)
  have "p = [] \<and> a = P2V 0x2000" if "ok_path p" "node (mem demo_exec) (P2V 0x2000) p = Some a" for p a
    using that z by (cases p) (auto simp: follow_def ok_path_def)
  moreover have "ok_path []" "node (mem demo_exec) (P2V 0x2000) [] = Some (P2V 0x2000)" by (simp_all add: ok_path_def)
  ultimately have "(\<exists>p a. x = vframe a \<and> ok_path p \<and> node (mem demo_exec) (P2V 0x2000) p = Some a) \<longleftrightarrow> x = vframe (P2V 0x2000)" for x by blast
  then show "tables (mem demo_exec) (P2V 0x2000) = {2}" unfolding tables_def by simp
  show "clean_frames demo_exec" unfolding clean_frames_def demo_exec_used using demo_exec_frames by simp
qed

lemma demo_exec_heap: "exec_heap demo_exec [] (P2V 0x1000) (P2V 0x1038) (P2V 0x1048) [] [] (P2V 0x2000)"
proof -
  have "slabber_lock demo_exec = 0" "kernel_vm_map demo_exec = P2V 0x1028" "mem demo_exec (P2V 0x1028) = P2V 0x2000"
    "unat (P2V 0x1048 - P2V 0x1000) + 16 \<le> PGSIZE"
    by (simp_all add: demo_exec_def P2V_def HHDM_OFFSET_def)
  then show ?thesis using demo_exec_slabs demo_exec_tree unfolding exec_heap_def append_Nil by simp
qed

lemma demo_exec_proc: "exec_proc demo_exec 2 (P2V 0x3000)" "room demo_exec 300" "mem demo_exec (P2V 0x3000 + 3960) = 0x9000"
proof -
  have "P2V 0x3f80 = P2V 0x3000 + 3968" "P2V 0x3f48 = P2V 0x3000 + 3912" "P2V 0x3d00 = P2V 0x3000 + of_nat 3328" by (simp_all add: P2V_def)
  moreover have "msr_gs demo_exec = Some 2" "p_regs (ptable demo_exec 2) = P2V 0x3f80" "p_stack (ptable demo_exec 2) = P2V 0x3f48"
    "c_rsp (cpu demo_exec) = P2V 0x3d00" by (simp_all add: demo_exec_def)
  ultimately show "exec_proc demo_exec 2 (P2V 0x3000)"
    unfolding exec_proc_def by (simp add: demo_exec_used dm_page_P2V) (intro exI [of _ 3328], simp)
  show "room demo_exec 300" unfolding room_def demo_exec_used by (intro exI [of _ 4]) (simp add: demo_exec_def)
  show "mem demo_exec (P2V 0x3000 + 3960) = 0x9000" by (simp add: demo_exec_def P2V_plus)
qed

lemma demo_exec_file: "\<exists>f f1. exec_file (cstr (47 # bytes ''exe'')) f demo_elf f1"
proof -
  obtain f vn f1 where f: "vfs_open (cstr (47 # bytes ''exe'')) VNON 0 f = Inr (0, Some vn, f1)" "reads_as f1 vn demo_elf" "\<forall>k. length (junk_bytes f1 k) = k"
    using demo_elf_on_disk by blast
  have "vpage (stackva + of_nat k * 4096) \<noteq> vpage 0x400000" if "k < 64" for k
  proof -
    have "unat (stackva + of_nat k * 4096) = 0x70000000000 + k * 4096"
      using that page_number_of_addr [of k] by (simp add: stackva_def unat_add_no_wrap)
    then show ?thesis using that by (simp add: vpage_def)
  qed
  then have "\<forall>k < 64. vpage (stackva + of_nat k * 4096) \<notin> set (seg_vpages (loads (phdrs demo_elf)))"
    by (simp add: demo_elf_segs demo_elf_words seg_va_def)
  with f demo_elf_ok show ?thesis unfolding exec_file_def by blast
qed

theorem exec_enters_program_witness:
  "\<exists>f f1 g s'. exec (cstr (47 # bytes ''exe'')) (map cstr [bytes ''/exe'']) \<lparr>at_entry = 0, at_phdr = 0, at_phent = 0, at_phnum = 0\<rparr> f
       \<lparr>gdt = [], gdt_index = 0, tr = 0\<rparr> demo_exec = Inr (f1, g, s') \<and>
     c_rip (cpu s') = 0x9000 \<and> c_rip (cpu (ret_to_proc s')) = 0x400001 \<and> c_rsp (cpu (ret_to_proc s')) = 0x7000003ff93 \<and>
     user_byte (mem s') (P2V (cr3 s')) 0x400001 = Some 0xc3 \<and> user_byte (mem s') (P2V (cr3 s')) 0x7000003ff93 = Some 1 \<and>
     apic_timer s' = Inl Deadlock"
proof -
  let ?aux = "\<lparr>at_entry = 0, at_phdr = 0, at_phent = 0, at_phnum = 0\<rparr>" and ?ss = "[bytes ''/exe'']"
  obtain f f1 where ff: "exec_file (cstr (47 # bytes ''exe'')) f demo_elf f1" using demo_exec_file by blast
  have len: "length (strings ?ss) = 5" by (simp add: cstr_def bytes_def)
  have h: "vframe (P2V 0x3000) \<notin> tables (mem demo_exec) (P2V 0x2000)"
    "vframe (P2V 0x3000) \<notin> vframe ` fst ` set ([] @ (P2V 0x1000, 16 :: nat, P2V 0x1038 # P2V 0x1048 # []) # [])"
    "room demo_exec (258 + 4 * elf_pages (loads (phdrs demo_elf)))" "\<forall>x \<in> set ?ss. arg_ok x" "length (strings ?ss) + 8 * length ?ss + 96 \<le> unat STACKSIZE"
    "ptable_lock demo_exec = 0"
    using demo_exec_tree(2) room_less [OF demo_exec_proc(2)] len
    by (simp_all add: demo_elf_segs demo_elf_words arg_ok_def bytes_def STACKSIZE_def) (simp add: demo_exec_def)
  obtain stack s' g where run: "exec (cstr (47 # bytes ''exe'')) (map cstr ?ss) ?aux f \<lparr>gdt = [], gdt_index = 0, tr = 0\<rparr> demo_exec = Inr (f1, g, s')"
    and rip: "c_rip (cpu s') = 0x9000" "c_rip (cpu (ret_to_proc s')) = 0x400001" "apic_timer s' = Inl Deadlock"
    and segs: "\<forall>ph \<in> set (loads (phdrs demo_elf)). seg_shown (mem s') (P2V (cr3 s')) demo_elf ph"
    and rsp: "c_rsp (cpu (ret_to_proc s')) = stackva + STACKSIZE - of_nat (length (exec_image (elf_aux demo_elf ?aux) stack ?ss))"
    and stk: "\<forall>i < length (exec_image (elf_aux demo_elf ?aux) stack ?ss). user_byte (mem s') (P2V (cr3 s')) (c_rsp (cpu (ret_to_proc s')) + of_nat i) =
      Some (exec_image (elf_aux demo_elf ?aux) stack ?ss ! i)"
    using exec_enters_program [OF demo_exec_heap demo_exec_proc(1) h(1,2) ff h(3-6), of ?aux "\<lparr>gdt = [], gdt_index = 0, tr = 0\<rparr>"]
    unfolding Let_def demo_exec_proc(3) sizeof_Elf64_Ehdr_def demo_elf_words by (elim exE conjE) (rule that)
  have sp: "c_rsp (cpu (ret_to_proc s')) = 0x7000003ff93" using rsp len by (simp add: stackva_def STACKSIZE_def)
  have "exec_image (elf_aux demo_elf ?aux) stack ?ss ! 0 = 1" by (simp add: exec_image_def stack_image_def nth_append) (simp add: le64_def)
  then have "user_byte (mem s') (P2V (cr3 s')) 0x7000003ff93 = Some 1" using stk [rule_format, of 0] sp by simp
  moreover have "user_byte (mem s') (P2V (cr3 s')) 0x400001 = Some 0xc3"
    using segs demo_elf_shown by blast
  ultimately show ?thesis using run rip sp by blast
qed

end
