(* ===== verification/Lapic.thy ===== *)
theory Lapic
  imports Ports
begin

section \<open>The local interrupt controller and its timer (kernel/io.c, apic.c, time.c)\<close>

text \<open>
  The registers of the controller are words in memory that the code only writes, except for the counter of the timer.  The state
  extends that of the ports by the sequence of these writes with their addresses (\<open>reg_log\<close>), the value the counter
  shows when it is read (\<open>cur_count\<close>), and the variables of \<^verbatim>\<open>apic.c\<close>; \<open>ticks\<close> and \<open>configured\<close> are the static variables of \<open>init_timer\<close>.
\<close>

record lapic = ports +
  reg_log :: "(u64 \<times> u32) list"
  cur_count :: u32
  EOI :: u64
  NMI_LINT :: u8
  ticks_100ms :: u32
  configured :: u32

definition EOI_REG :: u32 where "EOI_REG = 0xB0"
definition SPURIOUS_VECTOR :: u32 where "SPURIOUS_VECTOR = 0xF0"
definition TPR_REG :: u32 where "TPR_REG = 0x80"
definition TIMER_REG :: u32 where "TIMER_REG = 0x320"
definition DIVIDE_REG :: u32 where "DIVIDE_REG = 0x3E0"
definition INITCOUNT :: u32 where "INITCOUNT = 0x380"
definition CURRENTCOUNT :: u32 where "CURRENTCOUNT = 0x390"
definition LINT0 :: u32 where "LINT0 = 0x350"
definition LINT1 :: u32 where "LINT1 = 0x360"

subsection \<open>The functions\<close>

definition write32 :: "u64 \<Rightarrow> u32 \<Rightarrow> u32 \<Rightarrow> lapic \<Rightarrow> lapic" where
  "write32 base reg val s = s\<lparr>reg_log := reg_log s @ [(base + ucast reg, val)]\<rparr>"

text \<open>\<open>read32\<close> returns the address of the register; its callers read through it or keep it.\<close>

definition read32 :: "u64 \<Rightarrow> u32 \<Rightarrow> u64" where
  "read32 base reg = base + ucast reg"

definition load_reg :: "u64 \<Rightarrow> u64 \<Rightarrow> lapic \<Rightarrow> u32 result" where
  "load_reg lapic a s = (if a = lapic + ucast CURRENTCOUNT then Inr (cur_count s) else Inl BadAccess)"

text \<open>\<open>n\<close> interrupts of the interval timer arrive while \<open>sleep\<close> waits.\<close>

definition configure_timer :: "nat \<Rightarrow> u64 \<Rightarrow> lapic \<Rightarrow> (u32 \<times> lapic) result" where
  "configure_timer n lapic s =
     (let s = write32 lapic DIVIDE_REG 0 s; s = write32 lapic INITCOUNT (NOT 0) s in
      ebind (sleep n 1 s) (\<lambda>(_, s).
      let s = write32 lapic TIMER_REG (push_bit 16 1) s in
      ebind (load_reg lapic (read32 lapic CURRENTCOUNT) s) (\<lambda>c. Inr (NOT 0 - c, s))))"

definition init_timer :: "nat \<Rightarrow> u64 \<Rightarrow> lapic \<Rightarrow> lapic result" where
  "init_timer n lapic s =
     ebind (if configured s \<noteq> 0 then Inr s
            else ebind (configure_timer n lapic s) (\<lambda>(t, s). Inr (s\<lparr>ticks_100ms := 100 * t, configured := 1\<rparr>))) (\<lambda>s.
     ebind (print (cstr (bytes ''start lapic timer'' @ [10])) s) (\<lambda>s.
     let s = write32 lapic TIMER_REG (34 OR push_bit 17 1) s; s = write32 lapic DIVIDE_REG 0 s in
     Inr (write32 lapic INITCOUNT (ticks_100ms s) s)))"

definition init_apic :: "nat \<Rightarrow> u64 \<Rightarrow> lapic \<Rightarrow> lapic result" where
  "init_apic n lapic s =
     (let s = (if NMI_LINT s = 1 then write32 lapic LINT1 (push_bit 10 1) s else write32 lapic LINT0 (push_bit 10 1) s);
          s = s\<lparr>EOI := read32 lapic EOI_REG\<rparr>;
          s = write32 lapic TPR_REG 0 s; s = write32 lapic SPURIOUS_VECTOR 0x1FF s in
      init_timer n lapic s)"

subsection \<open>What they do\<close>

definition nmi_reg :: "lapic \<Rightarrow> u64" where
  "nmi_reg s = (if NMI_LINT s = 1 then 0x360 else 0x350)"

text \<open>What \<open>init_apic\<close> writes before the timer, and to start the timer with the initial count \<open>t\<close>.\<close>

definition setup_writes :: "u64 \<Rightarrow> u64 \<Rightarrow> (u64 \<times> u32) list" where
  "setup_writes lapic nmi = [(lapic + nmi, 0x400), (lapic + 0x80, 0), (lapic + 0xF0, 0x1FF)]"

definition start_writes :: "u64 \<Rightarrow> u32 \<Rightarrow> (u64 \<times> u32) list" where
  "start_writes lapic t = [(lapic + 0x320, 0x20022), (lapic + 0x3E0, 0), (lapic + 0x380, t)]"

definition calibrate_writes :: "u64 \<Rightarrow> (u64 \<times> u32) list" where
  "calibrate_writes lapic = [(lapic + 0x3E0, 0), (lapic + 0x380, NOT 0), (lapic + 0x320, 0x10000)]"

lemmas reg_defs = EOI_REG_def SPURIOUS_VECTOR_def TPR_REG_def TIMER_REG_def DIVIDE_REG_def INITCOUNT_def CURRENTCOUNT_def LINT0_def LINT1_def
lemmas writes_defs = setup_writes_def start_writes_def calibrate_writes_def nmi_reg_def

lemma write32_sel [simp]:
  "reg_log (write32 b r v s) = reg_log s @ [(b + ucast r, v)]" "cur_count (write32 b r v s) = cur_count s" "EOI (write32 b r v s) = EOI s"
  "NMI_LINT (write32 b r v s) = NMI_LINT s" "ticks_100ms (write32 b r v s) = ticks_100ms s" "configured (write32 b r v s) = configured s"
  "print_lock (write32 b r v s) = print_lock s" "io_log (write32 b r v s) = io_log s"
  by (simp_all add: write32_def)

lemma sleep_1:
  "print_lock s = 0 \<Longrightarrow> 1 \<le> n \<Longrightarrow> sleep n 1 s = Inr (0, s\<lparr>io_log := io_log s @ [Out 0x20 0x20]\<rparr>)" for s :: "'a ports_scheme"
proof -
  assume "print_lock s = 0" "1 \<le> n"
  then obtain k where "n = Suc k" by (cases n) auto
  moreover have "sleep_loop k 0 x = Inr (0, x)" for x :: "'a ports_scheme" by (cases k) simp_all
  ultimately show ?thesis using \<open>print_lock s = 0\<close>
    by (simp add: sleep_def acquire_def atomic_exchange_def timerh_def port_out_def release_def)
qed

lemma unat_times_100: "100 * unat x < 2 ^ 32 \<Longrightarrow> unat (100 * x) = 100 * unat x" for x :: u32
  by (simp add: unat_word_ariths)

lemma print_free:
  assumes "print_lock s = 0" "strlen str = Inr k"
  shows "print str s = Inr (s\<lparr>io_log := io_log s @ [Term (take k str)]\<rparr>)"
  using assms by (simp add: print_def acquire_def atomic_exchange_def release_def Let_def)

lemma start_message: "strlen (cstr (bytes ''start lapic timer'' @ [10])) = Inr 18"
  using strlen_spec [of "bytes ''start lapic timer'' @ [10]" "[]"] by (simp add: cstr_def bytes_def)

text \<open>The part every CPU runs: start the timer with the count found by the first one.\<close>

lemma init_timer_configured:
  assumes "print_lock s = 0" "configured s \<noteq> 0"
  obtains s' where "init_timer n lapic s = Inr s'" "reg_log s' = reg_log s @ start_writes lapic (ticks_100ms s)"
    "print_lock s' = 0" "configured s' = configured s" "ticks_100ms s' = ticks_100ms s" "EOI s' = EOI s" "NMI_LINT s' = NMI_LINT s"
proof -
  let ?s = "s\<lparr>io_log := io_log s @ [Term (take 18 (cstr (bytes ''start lapic timer'' @ [10])))], reg_log := reg_log s @ start_writes lapic (ticks_100ms s)\<rparr>"
  have "init_timer n lapic s = Inr ?s"
    using assms by (simp add: init_timer_def print_free [OF _ start_message] start_writes_def write32_def reg_defs Let_def)
  then show thesis by (rule that) (use assms in simp_all)
qed

lemma init_timer_first:
  assumes "configured s = 0" "print_lock s = 0" "1 \<le> n"
  shows "init_timer n lapic s = init_timer n lapic (s\<lparr>io_log := io_log s @ [Out 0x20 0x20], reg_log := reg_log s @ calibrate_writes lapic,
     ticks_100ms := 100 * (NOT 0 - cur_count s), configured := 1\<rparr>)"
  using assms by (simp add: init_timer_def configure_timer_def sleep_1 load_reg_def read32_def calibrate_writes_def write32_def reg_defs Let_def)



end
