(* ===== verification/Startup.thy ===== *)
theory Startup
  imports Exec Lapic
begin

section \<open>Start-up, threads and system calls (kernel/kernel.c, panic.c, syscall.c)\<close>

text \<open>
  \<open>kmain\<close> creates three processes, initialises the rest of the kernel and starts the first slot of the process table.  The parts of
  \<open>kmain\<close> that deal with processes are modelled here; the initialisers it calls in between are in the theories of their components.
  The addresses of the threads and of the label \<open>ret\<close> are arguments.
\<close>

subsection \<open>The functions\<close>

definition panic :: "string \<Rightarrow> 'a ports_scheme \<Rightarrow> 'b result" where
  "panic str s = ebind (print (cstr (bytes str)) s) (\<lambda>_. Inl (Panic str))"

definition start_threads :: "u64 \<Rightarrow> u64 \<Rightarrow> u64 \<Rightarrow> u64 \<Rightarrow> kproc \<Rightarrow> kproc result" where
  "start_threads ret thread1 thread2 thread3 s =
     ebind (allocproc ret thread1 s) (\<lambda>(_, s).
     ebind (allocproc ret thread2 s) (\<lambda>(_, s).
     ebind (allocproc ret thread3 s) (\<lambda>(_, s). Inr (init_plock s))))"

text \<open>\<open>sti\<close> sets the interrupt flag.  The threads end in an endless loop, in the state that their functions here return.\<close>

definition sti :: "kproc \<Rightarrow> kproc" where
  "sti s = s\<lparr>cpu := (cpu s)\<lparr>c_eflags := c_eflags (cpu s) OR 0x200\<rparr>\<rparr>"

definition thread3 :: "kproc \<Rightarrow> kproc" where
  "thread3 s = r (sti s)"

definition thread2 :: "kproc \<Rightarrow> kproc" where
  "thread2 s = r (sti s)"

text \<open>\<open>exec\<close> is called with one argument; \<open>argv\<close> is what its second one happens to point to.  It does not return, so nothing comes after it.\<close>

definition thread1 :: "u8 list list \<Rightarrow> auxval \<Rightarrow> fs \<Rightarrow> gdt_state \<Rightarrow> kproc \<Rightarrow> (fs \<times> gdt_state \<times> kproc) result" where
  "thread1 argv aux f g s = exec (cstr (bytes ''/exe'')) argv aux f g (sti s)"

text \<open>
  The dispatcher takes the lower half of \<open>rax\<close> as a signed index into a table of one entry and calls what it finds there, without
  arguments: \<open>name\<close> and \<open>argv\<close> are what is in the registers.
\<close>

definition syscall :: "u64 \<Rightarrow> u8 list \<Rightarrow> u8 list list \<Rightarrow> auxval \<Rightarrow> fs \<Rightarrow> gdt_state \<Rightarrow> kproc \<Rightarrow> (fs \<times> gdt_state \<times> kproc) result" where
  "syscall rax name argv aux f g s =
     (let num = sint (ucast rax :: u32) in
      ebind (get_current_proc s) (\<lambda>p. if num = 0 then exec name argv aux f g s else Inl BadAccess))"

subsection \<open>Panics\<close>

text \<open>
  \<open>panic\<close> prints under the lock that \<open>pallocaddr\<close> and \<open>sleep\<close> hold: from there it never returns, and the message is not seen.
\<close>

lemma panic_silent: "print_lock s \<noteq> 0 \<Longrightarrow> panic str s = Inl Deadlock"
  by (simp add: panic_def print_def acquire_def atomic_exchange_def)

lemma panic_shows:
  assumes "print_lock s = 0" "strlen (cstr (bytes str)) = Inr k"
  shows "panic str s = Inl (Panic str)" "print (cstr (bytes str)) s = Inr (s\<lparr>io_log := io_log s @ [Term (take k (cstr (bytes str)))]\<rparr>)"
  using print_free [OF assms] by (simp_all add: panic_def)

subsection \<open>The threads of kmain\<close>

lemma palloc_1_run:
  fixes s :: kproc
  assumes "pmm_wf s" "room s (1 + n)"
  obtains frame bm g where "palloc 1 s = Inr (frame, s\<lparr>bitmap := bm, dbg_g := g\<rparr>)" "pmm_wf (s\<lparr>bitmap := bm, dbg_g := g\<rparr>)" "room (s\<lparr>bitmap := bm, dbg_g := g\<rparr>) n"
    "dm_page (P2V frame)" "vframe (P2V frame) \<notin> used_pages s" "used_pages s \<subseteq> used_pages (s\<lparr>bitmap := bm, dbg_g := g\<rparr>)"
proof -
  obtain frame s' bm g where p: "palloc 1 s = Inr (frame, s')" "s' = s\<lparr>bitmap := bm, dbg_g := g\<rparr>" "pmm_wf s'" "room s' n" "unat frame mod PGSIZE = 0"
    "unat frame + (1 + 7) * PGSIZE < 2 ^ 47" "used_pages s' = used_pages s \<union> frames frame 1" "frames frame 1 \<inter> used_pages s = {}"
    by (rule palloc_room [OF assms]) simp
  moreover have "vframe (P2V frame) \<in> frames frame 1" by (simp add: frames_def)
  ultimately show thesis by (intro that [where frame = frame and bm = bm and g = g]) (auto intro: dm_page_P2V)
qed

lemma allocproc_slot_0:
  assumes wf: "pmm_wf s" "room s (1 + n)" and free: "ptable_lock s = 0" "\<forall>j. p_state (ptable s j) = UNUSED"
  obtains frame s' where "allocproc ret entry s = Inr (Some 0, s')" "pmm_wf s'" "room s' n" "ptable_lock s' = 0" "\<forall>j. p_state (ptable s' j) = UNUSED"
    "dm_page (P2V frame)" "vframe (P2V frame) \<notin> used_pages s" "used_pages s \<subseteq> used_pages s'" "mem s' = new_mem (P2V frame) ret entry (mem s)"
    "ptable s' = (ptable s)(0 := new_slot (P2V frame) (nextpid s + 1) (ptable s 0))" "cpu s' = cpu s" "sched_i s' = sched_i s"
proof -
  obtain frame bm g where p: "palloc 1 s = Inr (frame, s\<lparr>bitmap := bm, dbg_g := g\<rparr>)" "pmm_wf (s\<lparr>bitmap := bm, dbg_g := g\<rparr>)" "room (s\<lparr>bitmap := bm, dbg_g := g\<rparr>) n"
    "dm_page (P2V frame)" "vframe (P2V frame) \<notin> used_pages s" "used_pages s \<subseteq> used_pages (s\<lparr>bitmap := bm, dbg_g := g\<rparr>)"
    by (rule palloc_1_run [OF wf])
  have u: "find (\<lambda>j. p_state (ptable s j) = UNUSED) [0..<NPROC] = Some 0" unfolding find_upt using free(2) by (simp add: NPROC_def)
  have nz: "P2V frame + 3968 \<noteq> 0" "P2V frame + 3912 \<noteq> 0" using dm_page_offset_nonzero [OF p(4), of 3968] dm_page_offset_nonzero [OF p(4), of 3912] by simp_all
  let ?s' = "s\<lparr>bitmap := bm, dbg_g := g, nextpid := nextpid s + 1,
       ptable := (ptable s)(0 := new_slot (P2V frame) (nextpid s + 1) (ptable s 0)), mem := new_mem (P2V frame) ret entry (mem s)\<rparr>"
  have "allocproc ret entry s = Inr (Some 0, ?s')" by (rule allocproc_eq [OF free(1) u p(1) nz])
  then show thesis
    by (rule that [of ?s' frame])
      (use p free in \<open>simp_all add: new_slot_def pmm_wf_def room_def used_pages_def\<close>)
qed

text \<open>While the only process that is not \<open>UNUSED\<close> runs in slot 0, timer interrupts come back to it.\<close>

lemma lone_process_ticks:
  assumes "ptable_lock s = 0" "msr_gs s = Some 0" "\<forall>j. p_state (ptable s j) = (if j = 0 then RUNNING else UNUSED)"
  shows "\<exists>i. ticks n s = Inr (s\<lparr>sched_i := i\<rparr>)"
proof (cases n)
  case 0
  then show ?thesis by (intro exI [of _ "sched_i s"]) simp
next
  case (Suc k)
  obtain p sw s' where t: "apic_timer s = Inr (sw, s')" "next_runnable ((ptable s)(0 := (ptable s 0)\<lparr>p_state := RUNNABLE\<rparr>)) (unat (sched_i s)) = Some p"
    "sw \<longleftrightarrow> p_pid (ptable s 0) \<noteq> p_pid (ptable s p)"
    "\<not> sw \<Longrightarrow> s' = s\<lparr>sched_i := of_nat p, msr_gs := Some p,
       ptable := (ptable s)(0 := (ptable s 0)\<lparr>p_state := RUNNABLE\<rparr>, p := (if p = 0 then ptable s 0 else ptable s p)\<lparr>p_state := RUNNING\<rparr>)\<rparr>"
    by (rule timer_run [OF assms(1,2)]) (simp add: NPROC_def, blast)
  have p: "p = 0" using next_runnable_Some(2) [OF t(2)] assms(3) by (auto split: if_splits)
  have "p_state (ptable s 0) = RUNNING" using assms(3) by simp
  then have r0: "(ptable s 0)\<lparr>p_state := RUNNING\<rparr> = ptable s 0" by (cases "ptable s 0") simp
  then have s': "s' = s\<lparr>sched_i := 0\<rparr>" "\<not> sw" using t(3,4) assms(2) unfolding p by (simp_all add: fun_upd_idem)
  have "apic_timer (s\<lparr>sched_i := 0\<rparr>) = Inr (False, s\<lparr>sched_i := 0\<rparr>)" by (rule timer_sticky) (use assms in \<open>simp_all add: NPROC_def\<close>)
  then have "ticks k (s\<lparr>sched_i := 0\<rparr>) = Inr (s\<lparr>sched_i := 0\<rparr>)" by (induction k) simp_all
  then show ?thesis using Suc t(1) s' by auto
qed


definition demo_start :: kproc where
  "demo_start = (demo_kproc (\<lambda>_. UNUSED))\<lparr>cpu := (cpu (demo_kproc (\<lambda>_. UNUSED)))\<lparr>c_rsp := P2V 0x800\<rparr>\<rparr>"


subsection \<open>The first thread\<close>

lemma exec_heap_cpu: "exec_heap (s\<lparr>ptable_lock := l, cpu := c'\<rparr>) A a b c bs B ktop \<longleftrightarrow> exec_heap s A a b c bs B ktop"
  by (simp add: exec_heap_def slab_wf_def clean_frames_def vm_wf_def pmm_wf_def used_pages_def)

text \<open>
  C40 (a program started under the lock).  A process is entered with the lock of the process table held, and the first thread calls
  \<open>exec\<close> before it releases it.  Whatever \<open>/exe\<close> is, as long as it is a program that could be loaded and memory has room for it, the thread
  builds the whole address space and then waits for itself forever.
\<close>

theorem thread1_waits_for_itself:
  assumes "exec_heap s A a b c bs B ktop" "exec_proc s p base"
    and "vframe base \<notin> tables (mem s) ktop" "vframe base \<notin> vframe ` fst ` set (A @ (a, 16, b # c # bs) # B)"
    and "exec_file (cstr (bytes ''/exe'')) f d f1" "room s (258 + 4 * elf_pages (loads (phdrs d)))"
    and "\<forall>x \<in> set ss. arg_ok x" "length (strings ss) + 8 * length ss + 96 \<le> unat STACKSIZE" and "ptable_lock s \<noteq> 0"
  shows "thread1 (map cstr ss) aux f g s = Inl Deadlock"
  unfolding thread1_def
proof (rule exec_under_lock)
  have e: "sti s = s\<lparr>ptable_lock := ptable_lock s, cpu := (cpu s)\<lparr>c_eflags := c_eflags (cpu s) OR 0x200\<rparr>\<rparr>" by (simp add: sti_def)
  show "exec_heap (sti s) A a b c bs B ktop" unfolding e exec_heap_cpu by (rule assms(1))
  show "exec_proc (sti s) p base" using assms(2) by (simp add: exec_proc_def sti_def used_pages_def)
  show "room (sti s) (258 + 4 * elf_pages (loads (phdrs d)))" using assms(6) room_cong [of "sti s" s] by (simp add: sti_def)
qed (use assms in \<open>simp_all add: sti_def\<close>)

theorem thread1_waits_for_itself_witness:
  "\<exists>f. thread1 [] \<lparr>at_entry = 0, at_phdr = 0, at_phent = 0, at_phnum = 0\<rparr> f \<lparr>gdt = [], gdt_index = 0, tr = 0\<rparr> (demo_exec\<lparr>ptable_lock := 1\<rparr>) = Inl Deadlock"
proof -
  let ?s = "demo_exec\<lparr>ptable_lock := 1\<rparr>"
  obtain f f1 where ff: "exec_file (cstr (bytes ''/exe'')) f demo_elf f1" using demo_exec_file by (auto simp: bytes_def)
  have e: "?s = demo_exec\<lparr>ptable_lock := 1, cpu := cpu demo_exec\<rparr>" by simp
  have h: "exec_heap ?s [] (P2V 0x1000) (P2V 0x1038) (P2V 0x1048) [] [] (P2V 0x2000)" by (subst e, subst exec_heap_cpu) (rule demo_exec_heap)
  have p: "exec_proc ?s 2 (P2V 0x3000)" using demo_exec_proc(1) by (simp add: exec_proc_def used_pages_def)
  have r: "room ?s (258 + 4 * elf_pages (loads (phdrs demo_elf)))"
    using room_less [OF demo_exec_proc(2)] room_cong [of ?s demo_exec] by (simp add: demo_elf_segs demo_elf_words)
  have "vframe (P2V 0x3000) \<notin> tables (mem ?s) (P2V 0x2000)"
    "vframe (P2V 0x3000) \<notin> vframe ` fst ` set ([] @ (P2V 0x1000, 16 :: nat, P2V 0x1038 # P2V 0x1048 # []) # [])"
    "\<forall>x \<in> set ([] :: u8 list list). arg_ok x" "length (strings []) + 8 * length ([] :: u8 list list) + 96 \<le> unat STACKSIZE" "ptable_lock ?s \<noteq> 0"
    using demo_exec_tree(2) by (simp_all add: STACKSIZE_def)
  from thread1_waits_for_itself [OF h p this(1,2) ff r this(3-5)] show ?thesis by auto
qed

subsection \<open>System calls\<close>

text \<open>Only the lower half of \<open>rax\<close> counts, and every number but 0 reads outside the table.\<close>

lemma syscall_dispatch:
  assumes "msr_gs s = Some p"
  shows "syscall rax name argv aux f g s = (if take_bit 32 rax = 0 then exec name argv aux f g s else Inl BadAccess)"
proof -
  have "sint (ucast rax :: u32) = 0 \<longleftrightarrow> (ucast rax :: u32) = 0" by (metis signed_0 signed_word_eqI)
  moreover have "(ucast rax :: u32) = 0 \<longleftrightarrow> take_bit 32 rax = 0" by (auto simp: bit_eq_iff bit_simps)
  ultimately show ?thesis using assms by (simp add: syscall_def get_current_proc_def Let_def)
qed

end
