(* ===== verification/Fs_Types.thy ===== *)
theory Fs_Types
  imports Initramfs
begin

section \<open>Types of files (fs/vfs.h, ramfs.h)\<close>

text \<open>
  A \<open>struct ramnode\<close> has a type and a union, and the code decides by the type, or by the copy of it in the vnode, which
  member of the union to use.  A store is typed if the member last written is always the one the type asks for and every vnode has the type of
  its node.  Every call of the virtual file system keeps a store typed, whatever its arguments and whatever the state of locks, counts and lists.
\<close>

subsection \<open>Typed stores\<close>

fun member :: "contents \<Rightarrow> vtype" where
  "member (Dir _ _ _) = VDIR"
| "member (Lnk _) = VLNK"
| "member (Reg _ _) = VREG"
| "member Raw = VNON"

text \<open>Files that are no directory, link or regular file have no member of their own.\<close>

definition asked :: "vtype \<Rightarrow> vtype" where
  "asked t = (if t \<in> {VDIR, VLNK, VREG} then t else VNON)"

text \<open>All that counts of a store: types and members of the nodes, nodes and types of the vnodes, and the next pointer.\<close>

definition shape :: "fs \<Rightarrow> ptr \<Rightarrow> (vtype \<times> vtype) option" where
  "shape s p = map_option (\<lambda>n. (n_type n, member (n_union n))) (ramnodes s p)"

definition vshape :: "fs \<Rightarrow> ptr \<Rightarrow> (ptr \<times> vtype) option" where
  "vshape s w = map_option (\<lambda>v. (v_data v, v_type v)) (vnodes s w)"

definition skel :: "fs \<Rightarrow> (ptr \<Rightarrow> (vtype \<times> vtype) option) \<times> (ptr \<Rightarrow> (ptr \<times> vtype) option) \<times> ptr" where
  "skel s = (shape s, vshape s, next_ptr s)"

definition typed :: "fs \<Rightarrow> bool" where
  "typed s \<longleftrightarrow> (\<forall>p t m. shape s p = Some (t, m) \<longrightarrow> p < next_ptr s \<and> m = asked t) \<and>
     (\<forall>w p t. vshape s w = Some (p, t) \<longrightarrow> w < next_ptr s \<and> (p \<noteq> 0 \<longrightarrow> shape s p = Some (t, asked t)))"

text \<open>The type of a node decides which of the accessors of the union succeeds.\<close>

lemma typed_access:
  assumes "typed s" "ramnodes s p = Some n"
  shows "n_type n = VDIR \<Longrightarrow> \<exists>de par sq. as_dir n = Inr (de, par, sq)" "n_type n = VLNK \<Longrightarrow> \<exists>l. as_lnk n = Inr l"
    "n_type n = VREG \<Longrightarrow> \<exists>dt sz. as_reg n = Inr (dt, sz)"
proof -
  have "member (n_union n) = asked (n_type n)" using assms by (auto simp: typed_def shape_def)
  then show "n_type n = VDIR \<Longrightarrow> \<exists>de par sq. as_dir n = Inr (de, par, sq)" "n_type n = VLNK \<Longrightarrow> \<exists>l. as_lnk n = Inr l"
    "n_type n = VREG \<Longrightarrow> \<exists>dt sz. as_reg n = Inr (dt, sz)"
    by (cases "n_union n"; simp add: asked_def as_dir_def as_lnk_def as_reg_def)+
qed

lemma typed_vnode:
  assumes "typed s" "vnodes s w = Some v" "v_data v \<noteq> 0"
  obtains n where "ramnodes s (v_data v) = Some n" "n_type n = v_type v"
proof -
  have "vshape s w = Some (v_data v, v_type v)" using assms(2) by (simp add: vshape_def)
  then have "shape s (v_data v) = Some (v_type v, asked (v_type v))" using assms(1,3) unfolding typed_def by blast
  then show thesis using that by (auto simp: shape_def)
qed

subsection \<open>The accesses\<close>

lemma skel_typed: "skel s' = skel s \<Longrightarrow> typed s \<Longrightarrow> typed s'"
  by (simp add: skel_def typed_def)

lemma skel_put_node: "shape s p = Some (n_type n, member (n_union n)) \<Longrightarrow> skel (put_node p n s) = skel s"
  by (auto simp: skel_def put_node_def shape_def vshape_def)

lemma skel_put_vnode: "vshape s w = Some (v_data v, v_type v) \<Longrightarrow> skel (put_vnode w v s) = skel s"
  by (auto simp: skel_def put_vnode_def shape_def vshape_def)

lemma skel_mod_node:
  "mod_node p f s = Inr s' \<Longrightarrow> (\<And>n. ramnodes s p = Some n \<Longrightarrow> n_type (f n) = n_type n \<and> member (n_union (f n)) = member (n_union n)) \<Longrightarrow> skel s' = skel s"
  by (auto simp: mod_node_def ebind_eq_Inr deref_eq_Inr shape_def intro!: skel_put_node)

lemma skel_mod_vnode: "mod_vnode p f s = Inr s' \<Longrightarrow> (\<And>v. v_data (f v) = v_data v \<and> v_type (f v) = v_type v) \<Longrightarrow> skel s' = skel s"
  by (auto simp: mod_vnode_def ebind_eq_Inr deref_eq_Inr vshape_def intro!: skel_put_vnode)

lemma skel_others [simp]:
  "skel (put_mount p m s) = skel s" "skel (put_ramvfs p r s) = skel s" "skel (put_dentry p d s) = skel s"
  "skel (kfree_obj p s) = skel s" "skel (release_vfslist s) = skel s" "skel (s\<lparr>rootfs := p\<rparr>) = skel s"
  "skel (s\<lparr>rootvn := p\<rparr>) = skel s" "skel (s\<lparr>mountedlist := p\<rparr>) = skel s" "skel (s\<lparr>vfslist_lock := l\<rparr>) = skel s"
  "skel (s\<lparr>vfs_types := ts\<rparr>) = skel s" "skel (s\<lparr>dentries := ds\<rparr>) = skel s"
  by (simp_all add: skel_def put_defs kfree_obj_def release_vfslist_def shape_def vshape_def fun_eq_iff)

lemmas typed_others [intro] = skel_others [THEN skel_typed]

lemma typed_kalloc: "typed s \<Longrightarrow> typed (s\<lparr>next_ptr := Suc (next_ptr s)\<rparr>)"
  by (fastforce simp: typed_def shape_def vshape_def less_Suc_eq)

lemma skel_accesses:
  "acquire_node p s = Inr s' \<Longrightarrow> skel s' = skel s" "release_node p s = Inr s' \<Longrightarrow> skel s' = skel s"
  "acquire_vnode w s = Inr s' \<Longrightarrow> skel s' = skel s" "release_vnode w s = Inr s' \<Longrightarrow> skel s' = skel s"
  "mod_mount p f s = Inr s' \<Longrightarrow> skel s' = skel s" "mod_ramvfs p g s = Inr s' \<Longrightarrow> skel s' = skel s"
  "mod_dentry p h s = Inr s' \<Longrightarrow> skel s' = skel s" "acquire_vfslist s = Inr s' \<Longrightarrow> skel s' = skel s"
  "vref_locked w s = Inr s' \<Longrightarrow> skel s' = skel s"
  by (auto simp: acquire_node_def release_node_def acquire_vnode_def release_vnode_def mod_mount_def mod_ramvfs_def mod_dentry_def acquire_vfslist_def
      vref_locked_def ebind_eq_Inr deref_eq_Inr shape_def vshape_def intro: skel_put_node skel_put_vnode elim!: skel_mod_node skel_mod_vnode)

lemma skel_fields:
  "mod_node p (\<lambda>n. n\<lparr>n_prev := a n\<rparr>) s = Inr s' \<Longrightarrow> skel s' = skel s" "mod_node p (\<lambda>n. n\<lparr>n_next := a n\<rparr>) s = Inr s' \<Longrightarrow> skel s' = skel s"
  "mod_node p (\<lambda>n. n\<lparr>n_vnode := a n\<rparr>) s = Inr s' \<Longrightarrow> skel s' = skel s" "mod_node p (\<lambda>n. n\<lparr>linkcount := i n\<rparr>) s = Inr s' \<Longrightarrow> skel s' = skel s"
  "mod_node p (\<lambda>n. n\<lparr>n_prev := a n, n_next := b n\<rparr>) s = Inr s' \<Longrightarrow> skel s' = skel s"
  "mod_vnode w (\<lambda>v. v\<lparr>v_refcount := j v\<rparr>) s = Inr s' \<Longrightarrow> skel s' = skel s" "mod_vnode w (\<lambda>v. v\<lparr>v_mountedhere := c v\<rparr>) s = Inr s' \<Longrightarrow> skel s' = skel s"
  "mod_vnode w (\<lambda>v. v\<lparr>v_flags := e v\<rparr>) s = Inr s' \<Longrightarrow> skel s' = skel s"
  by (auto elim!: skel_mod_node skel_mod_vnode)

lemma skel_vref: "vref w s = Inr s' \<Longrightarrow> skel s' = skel s"
  by (auto simp: vref_def ebind_eq_Inr dest!: skel_accesses skel_fields)

lemmas skel_dests = skel_accesses skel_fields skel_vref
lemmas typed_dests = skel_dests [THEN skel_typed]

lemma shape_put [simp]:
  "shape (put_node p n s) = (shape s)(p := Some (n_type n, member (n_union n)))" "shape (put_vnode w v s) = shape s"
  "vshape (put_vnode w v s) = (vshape s)(w := Some (v_data v, v_type v))" "vshape (put_node p n s) = vshape s"
  "next_ptr (put_node p n s) = next_ptr s" "next_ptr (put_vnode w v s) = next_ptr s"
  by (simp_all add: put_defs shape_def vshape_def fun_eq_iff)

lemma typed_put_vnode:
  assumes "typed s" "w < next_ptr s" "v_data v \<noteq> 0 \<Longrightarrow> shape s (v_data v) = Some (v_type v, asked (v_type v))"
  shows "typed (put_vnode w v s)"
  using assms unfolding typed_def by simp

lemma typed_put_node:
  assumes "typed s" "p < next_ptr s" "\<And>t m. shape s p = Some (t, m) \<Longrightarrow> n_type n = t" "member (n_union n) = asked (n_type n)"
  shows "typed (put_node p n s)"
  using assms unfolding typed_def by simp

lemma typed_forget: "mod_vnode w (\<lambda>v. v\<lparr>v_data := 0\<rparr>) s = Inr s' \<Longrightarrow> typed s \<Longrightarrow> typed s'"
proof -
  assume "mod_vnode w (\<lambda>v. v\<lparr>v_data := 0\<rparr>) s = Inr s'" "typed s"
  moreover from this obtain v where "vnodes s w = Some v" "s' = put_vnode w (v\<lparr>v_data := 0\<rparr>) s" by (auto simp: mod_vnode_def ebind_eq_Inr deref_eq_Inr)
  moreover from this have "vshape s w = Some (v_data v, v_type v)" by (simp add: vshape_def)
  ultimately show ?thesis by (auto simp: typed_def intro!: typed_put_vnode)
qed

subsection \<open>The operations of ramfs\<close>

lemma skel_free_node: "ramfs_free_node ram node s = Inr s' \<Longrightarrow> skel s' = skel s"
  by (auto simp: ramfs_free_node_def ebind_eq_Inr dest!: skel_dests split: if_splits)

lemma skel_unlink_node: "unlink_node node s = Inr s' \<Longrightarrow> skel s' = skel s"
  by (auto simp: unlink_node_def ebind_eq_Inr dest!: skel_dests split: if_splits)

lemma skel_free_dentry: "ramfs_free_dentry de s = Inr (e, s') \<Longrightarrow> skel s' = skel s"
  by (auto simp: ramfs_free_dentry_def ebind_eq_Inr Let_def dest!: skel_dests split: if_splits)

lemma as_dir_member: "as_dir n = Inr x \<Longrightarrow> member (n_union n) = VDIR"
  by (auto simp: as_dir_def split: contents.splits)

lemma as_reg_member: "as_reg n = Inr x \<Longrightarrow> member (n_union n) = VREG"
  by (auto simp: as_reg_def split: contents.splits)

text \<open>Writing the member of the union that is there already.\<close>

lemma skel_member:
  "mod_node p (\<lambda>n. n\<lparr>n_union := Dir a b c\<rparr>) s = Inr s' \<Longrightarrow> ramnodes s p = Some n \<Longrightarrow> member (n_union n) = VDIR \<Longrightarrow> skel s' = skel s"
  "mod_node p (\<lambda>n. n\<lparr>n_union := Dir a b c, linkcount := i n\<rparr>) s = Inr s' \<Longrightarrow> ramnodes s p = Some n \<Longrightarrow> member (n_union n) = VDIR \<Longrightarrow> skel s' = skel s"
  "mod_node p (\<lambda>n. n\<lparr>n_union := Reg dt sz\<rparr>) s = Inr s' \<Longrightarrow> ramnodes s p = Some n \<Longrightarrow> member (n_union n) = VREG \<Longrightarrow> skel s' = skel s"
  by (auto elim!: skel_mod_node)

lemma skel_dir_attach: "ramfs_dir_attach parent de s = Inr (e, s') \<Longrightarrow> skel s' = skel s"
  unfolding ramfs_dir_attach_def
  by (auto simp: ebind_eq_Inr deref_eq_Inr mod_dentry_def put_dentry_def dest!: skel_accesses as_dir_member split: if_splits dest: skel_member)

lemma skel_dir_detach: "ramfs_dir_detach parent de s = Inr (e, s') \<Longrightarrow> skel s' = skel s"
  unfolding ramfs_dir_detach_def
  by (auto simp: ebind_eq_Inr deref_eq_Inr dest!: skel_accesses skel_fields as_dir_member split: if_splits dest: skel_member)

lemma skel_dir_lookup: "ramfs_dir_lookup dir name s = Inr (de, s') \<Longrightarrow> skel s' = skel s"
  by (auto simp: ramfs_dir_lookup_def ebind_eq_Inr dest!: skel_dests)

text \<open>Statement by statement: what each part of \<open>ramfs_write\<close> ensures.\<close>

lemma ensures_bind: "ensures Q m \<Longrightarrow> (\<And>x. Q x \<Longrightarrow> ensures R (f x)) \<Longrightarrow> ensures R (ebind m f)"
  by (auto simp: ensures_def ebind_eq_Inr)

lemma ensures_bind2: "ensures (\<lambda>(_, x). P x) m \<Longrightarrow> (\<And>a x. P x \<Longrightarrow> ensures R (f a x)) \<Longrightarrow> ensures R (ebind m (\<lambda>(a, x). f a x))"
  by (auto simp: ensures_def ebind_eq_Inr)

lemma ensures_bind3: "ensures (\<lambda>(_, _, x). P x) m \<Longrightarrow> (\<And>a b x. P x \<Longrightarrow> ensures R (f a b x)) \<Longrightarrow> ensures R (ebind m (\<lambda>(a, b, x). f a b x))"
  by (auto simp: ensures_def ebind_eq_Inr)

lemma ensures_option: "ensures Q a \<Longrightarrow> (\<And>x. ensures Q (f x)) \<Longrightarrow> ensures Q (case z of None \<Rightarrow> a | Some x \<Rightarrow> f x)"
  by (simp split: option.splits)

lemma node_ensures:
  "skel s = K \<Longrightarrow> ensures (\<lambda>s'. skel s' = K) (acquire_node p s)" "skel s = K \<Longrightarrow> ensures (\<lambda>s'. skel s' = K) (release_node p s)"
  "skel s = K \<Longrightarrow> ensures (\<lambda>s'. skel s' = K) (mod_node p (\<lambda>n. n\<lparr>n_prev := a n\<rparr>) s)"
  "skel s = K \<Longrightarrow> ensures (\<lambda>s'. skel s' = K) (mod_node p (\<lambda>n. n\<lparr>n_next := a n\<rparr>) s)"
  "skel s = K \<Longrightarrow> ensures (\<lambda>s'. skel s' = K) (mod_ramvfs p g s)"
  "ensures (\<lambda>n. shape s p = Some (n_type n, member (n_union n))) (deref (ramnodes s) p)"
  "ensures (\<lambda>_. member (n_union n) = VREG) (as_reg n)"
  by (auto simp: ensures_def deref_eq_Inr shape_def as_reg_member dest: skel_accesses skel_fields)

lemma mod_ensures:
  assumes "skel x = (sh, vs, k)" "sh p = Some (t, m)" "\<And>n. n_type n = t \<Longrightarrow> member (n_union n) = m \<Longrightarrow> n_type (f n) = t \<and> member (n_union (f n)) = m'"
  shows "ensures (\<lambda>y. skel y = (sh(p := Some (t, m')), vs, k)) (mod_node p f x)"
  unfolding ensures_def
proof (intro allI impI)
  fix y
  assume "mod_node p f x = Inr y"
  then obtain n where n: "ramnodes x p = Some n" "y = put_node p (f n) x" by (auto simp: mod_node_def ebind_eq_Inr deref_eq_Inr)
  moreover have "n_type n = t" "member (n_union n) = m" using n(1) assms(1,2) by (auto simp: skel_def shape_def)
  ultimately show "skel y = (sh(p := Some (t, m')), vs, k)" using assms(1,3) by (simp add: skel_def)
qed

lemma skel_write: "ramfs_write vn buf offset count s = Inr (e, s') \<Longrightarrow> skel s' = skel s"
proof -
  have "ensures (\<lambda>(_, x). skel x = skel s) (ramfs_write vn buf offset count s)"
    unfolding ramfs_write_def Let_def
    apply (rule ensures_intros(3), rule ensures_bind [OF node_ensures(1)], rule refl)
    apply (rule ensures_bind [OF node_ensures(6)], rule ensures_bind [OF node_ensures(7)], rule ensures_intros(5))
    subgoal premises p for v s1 n
    proof -
      have sh: "shape s (v_data v) = Some (n_type n, VREG)" using p by (simp add: skel_def)
      have reg: "ensures (\<lambda>y. skel y = skel s) (mod_node (v_data v) (\<lambda>n. n\<lparr>n_union := Reg dt sz\<rparr>) x)" if "skel x = skel s" for x dt sz
        using mod_ensures [of x "shape s" "vshape s" "next_ptr s" "v_data v" "n_type n" VREG "\<lambda>n. n\<lparr>n_union := Reg dt sz\<rparr>" VREG] that sh
        by (simp add: skel_def fun_upd_idem)
      show ?thesis
        apply (rule ensures_bind3 [where P = "\<lambda>x. skel x = skel s"])
         apply (intro ensures_bind [OF reg] ensures_intros(1-4) p(1); simp add: p(1))
        apply (rule ensures_bind2 [where P = "\<lambda>x. skel x = skel s"])
         apply (intro ensures_option ensures_intros(1-4); simp)
        by (rule ensures_bind [OF reg], assumption, rule ensures_bind [OF node_ensures(2)], assumption, rule ensures_intros(2)) simp
    qed
    done
  then show "ramfs_write vn buf offset count s = Inr (e, s') \<Longrightarrow> skel s' = skel s" by (simp add: ensures_def)
qed

lemma skel_readlink: "ramfs_readlink vn buf s = Inr (e, buf', n, s') \<Longrightarrow> skel s' = skel s"
  by (auto simp: ramfs_readlink_def ebind_eq_Inr dest!: skel_accesses)

lemma skel_read: "ramfs_read vn buf offset count s = Inr (e, buf', s') \<Longrightarrow> skel s' = skel s"
  unfolding ramfs_read_def Let_def case_prod_beta ebind_eq_Inr
  by (elim exE conjE, drule skel_accesses(1), drule skel_accesses(2)) simp

lemma skel_readdir: "ramfs_readdir vn count offset s = Inr (e, ds, i, j, s') \<Longrightarrow> skel s' = skel s"
  unfolding ramfs_readdir_def Let_def case_prod_beta ebind_eq_Inr
  by (elim exE conjE, drule skel_accesses(1), drule skel_accesses(2)) (simp only: sum.inject prod.inject)

lemmas skel_ops = skel_free_node skel_unlink_node skel_free_dentry skel_dir_attach skel_dir_detach skel_dir_lookup skel_write skel_readlink skel_read skel_readdir

lemma skel_inactive: "ramfs_inactive vn s = Inr s' \<Longrightarrow> skel s' = skel s"
  by (auto simp: ramfs_inactive_def ebind_eq_Inr dest!: skel_dests skel_ops split: if_splits)

lemma skel_remove: "ramfs_remove vdir vn name s = Inr (e, s') \<Longrightarrow> skel s' = skel s"
  by (auto simp: ramfs_remove_def ebind_eq_Inr dest!: skel_dests skel_ops split: if_splits)

lemma skel_rmdir: "ramfs_rmdir vdir vn name len s = Inr (e, s') \<Longrightarrow> skel s' = skel s"
  by (auto simp: ramfs_rmdir_def ebind_eq_Inr dest!: skel_dests skel_ops split: if_splits)

lemma skel_unmount_dentries: "unmount_dentries k node de s = Inr s' \<Longrightarrow> skel s' = skel s"
  by (induction k arbitrary: de s) (auto simp: ebind_eq_Inr dest!: skel_dests skel_ops split: if_splits)

lemma skel_unmount_dirs: "unmount_dirs k node s = Inr s' \<Longrightarrow> skel s' = skel s"
  by (induction k arbitrary: node s) (auto simp: ebind_eq_Inr dest!: skel_dests skel_unmount_dentries split: if_splits)

lemma skel_unmount_nodes: "unmount_nodes k ram node s = Inr s' \<Longrightarrow> skel s' = skel s"
  by (induction k arbitrary: node s) (auto simp: ebind_eq_Inr dest!: skel_dests skel_ops split: if_splits)

lemma skel_unmount: "ramfs_unmount vfs s = Inr (e, s') \<Longrightarrow> skel s' = skel s"
  by (auto simp: ramfs_unmount_def ebind_eq_Inr dest!: skel_unmount_dirs skel_unmount_nodes)

lemma typed_alloc_dentry: "ramfs_alloc_dentry node name s = Inr (e, de, s') \<Longrightarrow> typed s \<Longrightarrow> typed s'"
  by (auto simp: ramfs_alloc_dentry_def kalloc_obj_def ebind_eq_Inr Let_def dest!: skel_dests intro: typed_kalloc skel_typed)

text \<open>A new node: the type is set first, then the member of the union.\<close>

lemma set_member:
  assumes "skel x = (sh(p \<mapsto> (t, m)), vs, k)" "\<And>n. n_type n = t \<Longrightarrow> member (n_union n) = m \<Longrightarrow> n_type (f n) = t \<and> member (n_union (f n)) = m'"
  shows "ensures (\<lambda>y. skel y = (sh(p \<mapsto> (t, m')), vs, k)) (mod_node p f x)"
  using mod_ensures [OF assms(1), of p t m f m'] assms(2) by simp

lemma typed_alloc_node:
  assumes "ramfs_alloc_node ram dir type link s = Inr (node, s')" "typed s"
  shows "typed s'"
proof -
  let ?K = "\<lambda>m. ((shape s)(next_ptr s := Some (type, m)), vshape s, Suc (next_ptr s))"
  have new: "skel (put_node (next_ptr s) n (s\<lparr>next_ptr := Suc (next_ptr s)\<rparr>)) = ?K VNON" if "n_type n = type" "n_union n = Raw" for n
    using that by (auto simp: skel_def shape_def vshape_def fun_eq_iff)
  have "ensures (\<lambda>(_, x). skel x = ?K (asked type)) (ramfs_alloc_node ram dir type link s)"
    unfolding ramfs_alloc_node_def kalloc_obj_def Let_def prod.case
    apply (rule ensures_bind [OF node_ensures(1)], rule new, simp, simp, rule ensures_intros(3))
    apply (rule ensures_bind [where Q = "\<lambda>x. skel x = ?K VNON"], intro ensures_intros(2,4) node_ensures(3), assumption, assumption)
    apply (rule ensures_bind [OF node_ensures(4)], assumption, rule ensures_bind [OF node_ensures(5)], assumption)
    apply (rule ensures_bind [OF set_member [where m' = VNON]], assumption, simp)
    apply (rule ensures_bind [where Q = "\<lambda>x. skel x = ?K (asked type)"])
    subgoal by (auto simp: asked_def split: vtype.split intro!: ensures_intros(1-3) ensures_option set_member)
    by (rule ensures_bind [OF node_ensures(2)], assumption, rule ensures_intros(2)) simp
  then have k: "skel s' = ?K (asked type)" using assms(1) by (simp add: ensures_def)
  then show ?thesis using assms(2) by (fastforce simp: typed_def skel_def less_Suc_eq)
qed

text \<open>A vnode takes its type from its node.\<close>

lemma vnode_ensures:
  "skel s = K \<Longrightarrow> ensures (\<lambda>s'. skel s' = K) (mod_node p (\<lambda>n. n\<lparr>n_vnode := a\<rparr>) s)"
  "skel s = K \<Longrightarrow> ensures (\<lambda>s'. skel s' = K) (mod_vnode w (\<lambda>v. v\<lparr>v_flags := c v\<rparr>) s)"
  "skel s = K \<Longrightarrow> ensures (\<lambda>s'. skel s' = K) (mod_vnode w (\<lambda>v. v\<lparr>v_refcount := j v\<rparr>) s)"
  "skel s = K \<Longrightarrow> ensures (\<lambda>s'. skel s' = K) (acquire_vnode w s)" "skel s = K \<Longrightarrow> ensures (\<lambda>s'. skel s' = K) (release_vnode w s)"
  by (auto simp: ensures_def dest: skel_accesses skel_fields)

lemma set_vnode:
  assumes "skel x = (sh, vs(w \<mapsto> a), k)" "\<And>v. v_data (f v) = d \<and> v_type (f v) = t"
  shows "ensures (\<lambda>y. skel y = (sh, vs(w \<mapsto> (d, t)), k)) (mod_vnode w f x)"
  using assms by (auto simp: ensures_def mod_vnode_def ebind_eq_Inr deref_eq_Inr skel_def)

lemma typed_vget:
  assumes "ramfs_vget vfs ino s = Inr (e, vn, s')" "typed s"
  shows "typed s'"
proof -
  let ?K = "\<lambda>a. (shape s, (vshape s)(next_ptr s \<mapsto> a), Suc (next_ptr s))"
  have new: "skel (put_vnode (next_ptr s) v (s1\<lparr>next_ptr := Suc (next_ptr s)\<rparr>)) = ?K (v_data v, v_type v)" if "skel s1 = skel s" for v s1
    using that by (auto simp: skel_def shape_def vshape_def fun_eq_iff)
  have typed: "typed x" if "skel x = ?K (ino, n_type n)" "shape s ino = Some (n_type n, member (n_union n))" for x and n :: ramnode
    using that assms(2) by (fastforce simp: typed_def skel_def less_Suc_eq)
  have "ensures (\<lambda>(_, _, x). typed x) (ramfs_vget vfs ino s)"
    unfolding ramfs_vget_def kalloc_obj_def Let_def prod.case
    apply (rule ensures_bind [OF node_ensures(1)], rule refl, rule ensures_bind [OF node_ensures(6)])
    subgoal premises p for s1 n
    proof -
      have k: "next_ptr s1 = next_ptr s" "shape s1 = shape s" using p(1) by (simp_all add: skel_def)
      show ?thesis unfolding k
        apply (rule ensures_bind2 [where P = typed])
         apply (rule ensures_intros(4))
        subgoal using p(1)
          by (auto intro!: ensures_bind [OF vnode_ensures(4) [where K = "skel s"]] ensures_bind [OF vnode_ensures(3) [where K = "skel s"]] ensures_intros(2) skel_typed [OF _ assms(2)])
         apply (rule ensures_bind [OF vnode_ensures(1)], rule new [OF p(1)])
         apply (rule ensures_bind [where Q = "\<lambda>x. skel x = ?K (junk_ptr s1, VNON)"])
        subgoal by (auto intro!: ensures_intros(2-5) vnode_ensures(2))
         apply (rule ensures_bind [OF set_vnode [where d = ino and t = "n_type n"]], assumption, simp, rule ensures_intros(2))
        subgoal using typed [of _ n] p(2) unfolding k by simp
        apply (rule ensures_bind [OF vnode_ensures(5)], rule refl, rule ensures_bind [OF node_ensures(2)], assumption, rule ensures_intros(2))
        by (auto intro: skel_typed)
    qed
    done
  then show ?thesis using assms(1) by (simp add: ensures_def)
qed

lemma typed_root: "ramfs_root vfs s = Inr (e, vn, s') \<Longrightarrow> typed s \<Longrightarrow> typed s'"
  by (auto simp: ramfs_root_def ebind_eq_Inr dest: typed_vget)

lemma typed_mount: "ramfs_mount vfs s = Inr (e, s') \<Longrightarrow> typed s \<Longrightarrow> typed s'"
  by (auto simp: ramfs_mount_def kalloc_obj_def ebind_eq_Inr Let_def dest!: skel_dests typed_alloc_node dest: skel_typed intro: typed_others(2) [OF typed_kalloc])

lemma typed_lookup: "ramfs_lookup vdir name len s = Inr (e, vpp, s') \<Longrightarrow> typed s \<Longrightarrow> typed s'"
  by (auto simp: ramfs_lookup_def ebind_eq_Inr Let_def dest!: skel_dests dest: typed_vget skel_typed split: if_splits)

lemma typed_alloc_file: "ramfs_alloc_file vdir name len type target s = Inr (e, vpp, s') \<Longrightarrow> typed s \<Longrightarrow> typed s'"
  by (auto simp: ramfs_alloc_file_def ebind_eq_Inr dest!: typed_alloc_node typed_alloc_dentry typed_vget skel_ops dest: skel_typed split: if_splits)

lemma typed_link: "ramfs_link vdir vn name len s = Inr (e, s') \<Longrightarrow> typed s \<Longrightarrow> typed s'"
  by (auto simp: ramfs_link_def ebind_eq_Inr dest!: typed_alloc_dentry skel_ops dest: skel_typed)

lemma typed_creates:
  "ramfs_create vdir name len type s = Inr (e, vpp, s') \<Longrightarrow> typed s \<Longrightarrow> typed s'" "ramfs_mkdir vdir name len s = Inr (e, vpp, s') \<Longrightarrow> typed s \<Longrightarrow> typed s'"
  "ramfs_symlink vdir tgt name len s = Inr (e, s') \<Longrightarrow> typed s \<Longrightarrow> typed s'"
  by (auto simp: ramfs_create_def ramfs_mkdir_def ramfs_symlink_def ebind_eq_Inr dest: typed_alloc_file)

lemmas typed_ops = typed_root typed_mount typed_lookup typed_link typed_creates
  skel_ops [THEN skel_typed] skel_inactive [THEN skel_typed] skel_remove [THEN skel_typed] skel_rmdir [THEN skel_typed] skel_unmount [THEN skel_typed]

subsection \<open>The calls of the virtual file system\<close>

lemma typed_close: "vfs_close vn s = Inr (e, s') \<Longrightarrow> typed s \<Longrightarrow> typed s'"
  by (auto simp: vfs_close_def ramfs_close_def ebind_eq_Inr dest!: typed_dests typed_ops typed_forget split: if_splits)

lemma typed_put:
  "vput vn s = Inr s' \<Longrightarrow> typed s \<Longrightarrow> typed s'" "vrele vn s = Inr s' \<Longrightarrow> typed s \<Longrightarrow> typed s'" "vput_opt vn s = Inr s' \<Longrightarrow> typed s \<Longrightarrow> typed s'"
  by (auto simp: vput_def vrele_def vput_opt_def ebind_eq_Inr dest: typed_close split: if_splits)

lemma typed_climb: "climb k vdir s = Inr (b, w, s') \<Longrightarrow> typed s \<Longrightarrow> typed s'"
  by (induction k arbitrary: vdir s) (auto simp: ebind_eq_Inr dest!: typed_dests typed_put split: if_splits)

lemma typed_cross: "cross_mounts k vdir vn s = Inr (e, w, u, s') \<Longrightarrow> typed s \<Longrightarrow> typed s'"
  by (induction k arbitrary: vdir vn s) (auto simp: ebind_eq_Inr dest!: typed_dests typed_put typed_ops split: if_splits)

lemma typed_component: "lookup_component nd vdir s = Inr (e, d, nd', w, s') \<Longrightarrow> typed s \<Longrightarrow> typed s'"
  by (auto simp: lookup_component_def ebind_eq_Inr Let_def dest!: typed_climb typed_cross typed_dests typed_ops split: if_splits)

lemma typed_lookup_loop: "lookup_loop k nd vdir s = Inr (e, nd', s') \<Longrightarrow> typed s \<Longrightarrow> typed s'"
  by (induction k arbitrary: nd vdir s) (auto simp: ebind_eq_Inr Let_def dest!: typed_component typed_put typed_dests split: if_splits)

lemma typed_lookup_path: "lookup nd s = Inr (e, nd', s') \<Longrightarrow> typed s \<Longrightarrow> typed s'"
  unfolding lookup_def Let_def by (rule typed_lookup_loop)

lemma typed_namei_loop: "namei_loop k x vn nd s = Inr (e, nd', s') \<Longrightarrow> typed s \<Longrightarrow> typed s'"
  by (induction k arbitrary: x vn nd s) (auto simp: ebind_eq_Inr Let_def dest!: typed_lookup_path typed_put typed_ops split: if_splits)

lemma typed_namei: "namei name nd s = Inr (e, nd', s') \<Longrightarrow> typed s \<Longrightarrow> typed s'"
  by (auto simp: namei_def ebind_eq_Inr dest: typed_namei_loop)

lemmas typed_calls = typed_namei typed_put typed_close

lemma typed_link_calls:
  "vfs_link name target s = Inr (e, s') \<Longrightarrow> typed s \<Longrightarrow> typed s'" "vfs_symlink name target s = Inr (e, s') \<Longrightarrow> typed s \<Longrightarrow> typed s'"
  "vfs_unlink name s = Inr (e, s') \<Longrightarrow> typed s \<Longrightarrow> typed s'"
  by (auto simp: vfs_link_def vfs_symlink_def vfs_unlink_def ebind_eq_Inr Let_def dest!: typed_calls typed_dests typed_ops split: if_splits)

lemma typed_dir_calls:
  "vfs_mkdir name s = Inr (e, vpp, s') \<Longrightarrow> typed s \<Longrightarrow> typed s'" "vfs_rmdir name s = Inr (e, s') \<Longrightarrow> typed s \<Longrightarrow> typed s'"
  "vfs_readdir vn nbytes offset s = Inr (e, ds, j, s') \<Longrightarrow> typed s \<Longrightarrow> typed s'"
  by (auto simp: vfs_mkdir_def vfs_rmdir_def vfs_readdir_def ebind_eq_Inr Let_def dest!: typed_calls typed_dests typed_ops split: if_splits)

lemma typed_file_calls:
  "vfs_open name type flags s = Inr (e, vpp, s') \<Longrightarrow> typed s \<Longrightarrow> typed s'" "vfs_create name type s = Inr (e, vpp, s') \<Longrightarrow> typed s \<Longrightarrow> typed s'"
  "vfs_read vn buf offset count s = Inr (e, buf', s') \<Longrightarrow> typed s \<Longrightarrow> typed s'" "vfs_write vn buf offset count s = Inr (e, s') \<Longrightarrow> typed s \<Longrightarrow> typed s'"
  "vfs_readlink vn buf s = Inr (e, buf', s') \<Longrightarrow> typed s \<Longrightarrow> typed s'"
  by (auto simp: vfs_create_def vfs_open_def vfs_read_def vfs_write_def vfs_readlink_def ebind_eq_Inr Let_def dest!: typed_calls typed_dests typed_ops split: if_splits)

lemma typed_unmount: "vfs_unmount name s = Inr (e, s') \<Longrightarrow> typed s \<Longrightarrow> typed s'"
  by (auto simp: vfs_unmount_def ebind_eq_Inr Let_def dest!: typed_calls typed_dests typed_ops split: if_splits)

lemma typed_init_rootvn: "init_rootvn s = Inr s' \<Longrightarrow> typed s \<Longrightarrow> typed s'"
  by (auto simp: init_rootvn_def ebind_eq_Inr dest!: typed_ops split: if_splits)

lemma typed_init_rootfs: "typed s \<Longrightarrow> typed (init_rootfs s)"
  by (rule skel_typed) (simp_all add: init_rootfs_def)

lemma typed_mount_fail: "mount_fail2 error n s = Inr (e, s') \<Longrightarrow> typed s \<Longrightarrow> typed s'"
  by (auto simp: mount_fail2_def ebind_eq_Inr dest!: typed_calls)

lemma mount_ensures:
  "typed s \<Longrightarrow> ensures typed (mod_mount vfs f s)" "typed s \<Longrightarrow> ensures (\<lambda>(_, x). typed x) (ramfs_mount vfs s)"
  "typed s \<Longrightarrow> ensures (\<lambda>(_, x). typed x) (mount_fail2 error n s)" "typed s \<Longrightarrow> ensures (\<lambda>(_, _, x). typed x) (namei path nd s)"
  "typed s \<Longrightarrow> ensures typed (acquire_vnode w s)" "typed s \<Longrightarrow> ensures typed (mod_vnode w (\<lambda>v. v\<lparr>v_mountedhere := m\<rparr>) s)"
  "typed s \<Longrightarrow> ensures typed (vrele w s)" "typed s \<Longrightarrow> ensures typed (vput w s)" "typed s \<Longrightarrow> ensures typed (acquire_vfslist s)"
  by (auto simp: ensures_def dest: typed_dests typed_ops typed_mount_fail typed_calls)

lemmas mount_binds = mount_ensures(1,5-9) [THEN ensures_bind] mount_ensures(2) [THEN ensures_bind2] mount_ensures(4) [THEN ensures_bind3]
  ensures_intros(3) [where m = "deref h p" for h :: "ptr \<Rightarrow> 'o option" and p] ensures_intros(3) [where m = "find_vfsops ts t" for ts t]

lemma typed_mount_call:
  assumes "vfs_mount mntpoint fstype s = Inr (e, s')" "typed s"
  shows "typed s'"
proof -
  have "ensures (\<lambda>(_, x). typed x) (vfs_mount mntpoint fstype s)"
    unfolding vfs_mount_def kalloc_obj_def Let_def prod.case
    using assms(2) by (auto intro!: mount_binds mount_ensures(3) ensures_intros(2,4) ensures_option typed_others typed_kalloc simp: Let_def)
  then show ?thesis using assms(1) by (simp add: ensures_def)
qed

lemma typed_tar_round: "tar_round img pos name vn s = Inr (pos', name', vn', s') \<Longrightarrow> typed s \<Longrightarrow> typed s'"
  by (auto simp: tar_round_def ebind_eq_Inr Let_def dest!: typed_calls typed_file_calls split: if_splits option.splits)

lemma typed_tar_loop: "tar_loop k img pos name vn s = Inr s' \<Longrightarrow> typed s \<Longrightarrow> typed s'"
  by (induction k arbitrary: pos name vn s) (auto simp: ebind_eq_Inr dest!: typed_tar_round split: if_splits)

lemma typed_initramfs: "initramfs fuel modules s = Inr s' \<Longrightarrow> typed s \<Longrightarrow> typed s'"
  by (auto simp: initramfs_def dest: typed_tar_loop split: option.splits list.splits)

subsection \<open>Any program of calls\<close>

text \<open>One call of the interface, with any arguments, that returns.\<close>

inductive fs_call :: "fs \<Rightarrow> fs \<Rightarrow> bool" where
  call_init_rootfs: "fs_call s (init_rootfs s)"
| call_init_rootvn: "init_rootvn s = Inr s' \<Longrightarrow> fs_call s s'"
| call_mount: "vfs_mount mntpoint fstype s = Inr (e, s') \<Longrightarrow> fs_call s s'"
| call_unmount: "vfs_unmount name s = Inr (e, s') \<Longrightarrow> fs_call s s'"
| call_open: "vfs_open name type flags s = Inr (e, vpp, s') \<Longrightarrow> fs_call s s'"
| call_create: "vfs_create name type s = Inr (e, vpp, s') \<Longrightarrow> fs_call s s'"
| call_mkdir: "vfs_mkdir name s = Inr (e, vpp, s') \<Longrightarrow> fs_call s s'"
| call_rmdir: "vfs_rmdir name s = Inr (e, s') \<Longrightarrow> fs_call s s'"
| call_link: "vfs_link name target s = Inr (e, s') \<Longrightarrow> fs_call s s'"
| call_symlink: "vfs_symlink name target s = Inr (e, s') \<Longrightarrow> fs_call s s'"
| call_readlink: "vfs_readlink vn buf s = Inr (e, buf', s') \<Longrightarrow> fs_call s s'"
| call_unlink: "vfs_unlink name s = Inr (e, s') \<Longrightarrow> fs_call s s'"
| call_read: "vfs_read vn buf offset count s = Inr (e, buf', s') \<Longrightarrow> fs_call s s'"
| call_write: "vfs_write vn buf offset count s = Inr (e, s') \<Longrightarrow> fs_call s s'"
| call_readdir: "vfs_readdir vn nbytes offset s = Inr (e, ds, j, s') \<Longrightarrow> fs_call s s'"
| call_close: "vfs_close vn s = Inr (e, s') \<Longrightarrow> fs_call s s'"
| call_namei: "namei name nd s = Inr (e, nd', s') \<Longrightarrow> fs_call s s'"
| call_initramfs: "initramfs fuel modules s = Inr s' \<Longrightarrow> fs_call s s'"

lemmas typed_interface = typed_init_rootfs typed_init_rootvn typed_mount_call typed_unmount typed_file_calls typed_dir_calls typed_link_calls typed_calls typed_initramfs

lemma fs_call_typed: "fs_call s s' \<Longrightarrow> typed s \<Longrightarrow> typed s'"
  by (induction rule: fs_call.induct) (auto dest: typed_interface intro: typed_init_rootfs)

lemma fs_calls_typed: "fs_call\<^sup>*\<^sup>* s s' \<Longrightarrow> typed s \<Longrightarrow> typed s'"
  by (induction rule: rtranclp_induct) (auto dest: fs_call_typed)

lemma empty_typed: "empty_store s \<Longrightarrow> typed s"
  by (simp add: empty_store_def typed_def shape_def vshape_def)



end
