(* ===== verification/Readdir.thy ===== *)
theory Readdir
  imports Vfs_Ops Lapic
begin

section \<open>Listing directories (ramfs_readdir of ramfs.c, printdir of vfs.c)\<close>

text \<open>
  A directory is read as a sequence of records: one for \<^verbatim>\<open>.\<close>, one for \<^verbatim>\<open>..\<close> and one for every entry.  \<open>printdir\<close> walks over the records by
  their lengths; behind the last of them is what the stack held.
\<close>

fun print_records :: "dirent list \<Rightarrow> int \<Rightarrow> int \<Rightarrow> 'a ports_scheme \<Rightarrow> ('a ports_scheme) result" where
  "print_records [] i count io = (if i < count then Inl BadAccess else Inr io)"
| "print_records (d # ds) i count io =
     (if i < count
      then ebind (print (de_name d) io) (\<lambda>io. ebind (print (cstr [9]) io) (\<lambda>io. print_records ds (i + int (de_reclen d)) count io))
      else Inr io)"

definition printdir :: "ptr \<Rightarrow> fs \<Rightarrow> 'a ports_scheme \<Rightarrow> (fs \<times> 'a ports_scheme) result" where
  "printdir vdir s io =
     ebind (vfs_readdir vdir 4096 0 s) (\<lambda>(count, ds, offset, s).
     ebind (print (cstr [10]) io) (\<lambda>io.
     ebind (print_records ds 0 count io) (\<lambda>io. Inr (s, io))))"

subsection \<open>Records\<close>

definition rec_of :: "dirent \<Rightarrow> u8 list \<times> ptr" where
  "rec_of d = (takeWhile (\<lambda>c. c \<noteq> 0) (de_name d), de_ino d)"

text \<open>The bytes that the records of a list of names take.\<close>

definition recs :: "(u8 list \<times> ptr) list \<Rightarrow> nat" where
  "recs xs = sum_list (map (\<lambda>(t, _). 14 + length t) xs)"

lemma recs_simps [simp]: "recs [] = 0" "recs ((t, q) # xs) = 14 + length t + recs xs"
  by (simp_all add: recs_def)

text \<open>The type a record shows: regular files are shown as directories.\<close>

definition shown :: "vtype \<Rightarrow> nat" where
  "shown ty = (case ty of VBLK \<Rightarrow> DT_BLK | VSOCK \<Rightarrow> DT_SOCK | VLNK \<Rightarrow> DT_LNK | VCHR \<Rightarrow> DT_CHR | _ \<Rightarrow> DT_DIR)"

lemma dirent_type_shown: "ty \<noteq> VNON \<Longrightarrow> dirent_type ty = Inr (shown ty)"
  by (cases ty) (simp_all add: dirent_type_def shown_def)

lemma dirent_type_panics: "dirent_type VNON = Inl (Panic ''ramfs_readdir: unknown type'')"
  by (simp add: dirent_type_def)

definition made :: "ptr \<Rightarrow> u8 list \<Rightarrow> dirent \<Rightarrow> dirent" where
  "made node u d = d\<lparr>de_name := u @ 0 # drop (Suc (length u)) (de_name d), de_reclen := 14 + length u, de_ino := node\<rparr>"

lemma make_dirent_spec:
  assumes "u \<noteq> []" "0 \<notin> set u" "length u < 256" "length (de_name d) = 256"
  shows "ramfs_make_dirent node d (u @ 0 # r) = Inr (made node u d)"
  using strcpy_spec [OF assms(1,2), of "de_name d" r] strlen_spec [OF assms(1,2)] assms(3,4)
  by (simp add: ramfs_make_dirent_def get_reclen_def made_def)

lemma made_sel [simp]:
  "de_reclen (made node u d) = 14 + length u" "de_ino (made node u d) = node"
  "length u < 256 \<Longrightarrow> length (de_name d) = 256 \<Longrightarrow> length (de_name (made node u d)) = 256"
  by (simp_all add: made_def)

lemma rec_of_made [simp]: "0 \<notin> set u \<Longrightarrow> rec_of (made node u d) = (u, node)" "0 \<notin> set u \<Longrightarrow> rec_of ((made node u d)\<lparr>de_type := y\<rparr>) = (u, node)"
  by (auto simp: rec_of_def made_def takeWhile_tail)

text \<open>A sequence of records shows a list of names: names and nodes are those of the list, the lengths are right, the names have an end.\<close>

definition shows_recs :: "dirent list \<Rightarrow> (u8 list \<times> ptr) list \<Rightarrow> bool" where
  "shows_recs rs xs \<longleftrightarrow> map rec_of rs = xs \<and> map de_reclen rs = map (\<lambda>(t, _). 14 + length t) xs \<and> (\<forall>r \<in> set rs. 0 \<in> set (de_name r))"

lemma shows_recs_simps [simp]:
  "shows_recs [] xs \<longleftrightarrow> xs = []"
  "shows_recs (r # rs) ((t, q) # xs) \<longleftrightarrow> rec_of r = (t, q) \<and> de_reclen r = 14 + length t \<and> 0 \<in> set (de_name r) \<and> shows_recs rs xs"
  by (auto simp: shows_recs_def)

lemma made_ends [simp]: "0 \<in> set (de_name (made node u d))"
  by (simp add: made_def)

subsection \<open>The loop over the entries\<close>

definition entry_shown :: "fs \<Rightarrow> ptr \<Rightarrow> bool" where
  "entry_shown s e \<longleftrightarrow> good_name (d_name (the (dentries s e))) \<and> length (ename s e) < 256 \<and> enode s e \<noteq> 0 \<and>
     (\<exists>m. ramnodes s (enode s e) = Some m \<and> n_type m \<noteq> VNON)"

definition seq_of :: "fs \<Rightarrow> ptr \<Rightarrow> u64" where
  "seq_of s e = d_seq (the (dentries s e))"

abbreviation "named s e \<equiv> (ename s e, enode s e)"

lemma readdir_loop_spec:
  assumes "dchain (dentries s) de ds" "ds \<noteq> []" "length ds \<le> k" "\<forall>e \<in> set ds. entry_shown s e" "length (de_name d) = 256"
    and "recs (map (named s) ds) \<le> unat resid"
  shows "\<exists>rs. readdir_loop k de d buf resid s = Inr (buf @ rs, resid - of_nat (recs (map (named s) ds)), seq_of s (last ds)) \<and>
    shows_recs rs (map (named s) ds) \<and>
    map de_type rs = map (\<lambda>e. shown (n_type (the (ramnodes s (enode s e))))) ds"
  using assms
proof (induction ds arbitrary: de k d buf resid)
  case (Cons e ds)
  then obtain x k' where x: "de = e" "e \<noteq> 0" "dentries s e = Some x" "dchain (dentries s) (d_next x) ds" and k: "k = Suc k'" "length ds \<le> k'" by (cases k) auto
  obtain u m where u: "d_name x = u @ [0]" "u \<noteq> []" "0 \<notin> set u" "ename s e = u" "length u < 256" and m: "enode s e = d_node x" "d_node x \<noteq> 0"
    "ramnodes s (d_node x) = Some m" "n_type m \<noteq> VNON"
    using Cons.prems(4) x(3) by (auto simp: entry_shown_def ename_def enode_def elim: good_nameE)
  let ?d = "(made (d_node x) u d)\<lparr>de_type := shown (n_type m)\<rparr>" and ?r = "resid - of_nat (14 + length u)"
  have step: "readdir_loop k de d buf resid s =
      (if ?r \<noteq> 0 \<and> d_next x \<noteq> 0 then readdir_loop k' (d_next x) ?d (buf @ [?d]) ?r s else Inr (buf @ [?d], ?r, d_seq x))"
    using x k make_dirent_spec [OF u(2,3,5) Cons.prems(5), of "d_node x" "[]"] dirent_type_shown [OF m(4)] m by (simp add: u(1) Let_def)
  have next0: "d_next x = 0 \<longleftrightarrow> ds = []" using x(4) by (cases ds) auto
  show ?case
  proof (cases "ds = []")
    case True
    then show ?thesis using step next0 u(3,4) m x(3) by (auto simp: seq_of_def)
  next
    case False
    have t: "14 + length u + recs (map (named s) ds) \<le> unat resid" using Cons.prems(6) u(4) by simp
    have "0 < recs (map (named s) ds)" using False by (cases ds) simp_all
    moreover have o: "unat (of_nat (14 + length u) :: u64) = 14 + length u" using u(5) by (intro unat_of_nat_64) simp
    then have r: "unat ?r = unat resid - (14 + length u)" using t by (subst unat_sub) (simp_all add: word_le_nat_alt)
    ultimately have nz: "?r \<noteq> 0" using t by auto
    have "recs (map (named s) ds) \<le> unat ?r" "length (de_name ?d) = 256" "\<forall>e \<in> set ds. entry_shown s e"
      using t r Cons.prems(4,5) u(5) by auto
    from Cons.IH [OF x(4) False k(2) this(3,2,1), of "buf @ [?d]"] show ?thesis
      using step nz next0 False u(3,4) m by (force simp: algebra_simps)
  qed
qed simp

lemma seek_first: "dchain (dentries s) de (e # ds) \<Longrightarrow> seek_dentry (Suc k) de (seq_of s e) s = Inr e"
  by (auto simp: seq_of_def)

subsection \<open>The whole directory\<close>

definition dir_entries :: "fs \<Rightarrow> ptr \<Rightarrow> ptr list" where
  "dir_entries s p = (case ramnodes s p of None \<Rightarrow> [] | Some n \<Rightarrow> if n_type n = VDIR then dents (fs_fuel s) (dir_dentry (n_union n)) s else [])"

lemma dir_names_entries: "dir_names s p = map (named s) (dir_entries s p)"
  by (simp add: dir_names_def dir_entries_def split: option.splits)

text \<open>
  Which entries can be listed: the name fits into a record, the file has a type, and the sequence number is not the one that stands for the end.  The
  numbers of a directory count up from 3, so that only a counter that has wrapped around reaches it.
\<close>

definition showable :: "fs \<Rightarrow> ptr \<Rightarrow> bool" where
  "showable s e \<longleftrightarrow> length (ename s e) < 256 \<and> n_type (the (ramnodes s (enode s e))) \<noteq> VNON \<and> seq_of s e \<noteq> SEQ_EOF"

definition whole :: "fs \<Rightarrow> ptr \<Rightarrow> (u8 list \<times> ptr) list" where
  "whole s p = (bytes ''.'', p) # (bytes ''..'', dir_parent (n_union (the (ramnodes s p)))) # dir_names s p"

lemma showable_shown:
  assumes "ramfs_wf s E dots" "e \<in> set (E p)" "showable s e"
  shows "entry_shown s e"
proof -
  note D = ramfs_wfD [OF assms(1)]
  obtain x where x: "dentries s e = Some x" "good_name (d_name x)" "ramnodes s (d_node x) \<noteq> None" using entries_okD [OF D(2) assms(2)] by metis
  then have "d_node x \<noteq> 0" using bounded_fresh(5) [OF D(1)] by metis
  then show ?thesis using x assms(3) by (auto simp: entry_shown_def showable_def enode_def)
qed

text \<open>The first two records, on a buffer of junk.\<close>

definition dot_rec :: "fs \<Rightarrow> ptr \<Rightarrow> dirent" where
  "dot_rec s p = made p (bytes ''.'') \<lparr>de_ino = junk_ptr s, de_reclen = junk_ptr s, de_type = junk_ptr s, de_name = junk_bytes s 256\<rparr>"

definition dotdot_rec :: "fs \<Rightarrow> ptr \<Rightarrow> ptr \<Rightarrow> dirent" where
  "dotdot_rec s p par = made par (bytes ''..'') (dot_rec s p)"

lemma dot_recs:
  assumes "\<And>k. length (junk_bytes s k) = k"
  shows "length (de_name (dotdot_rec s p par)) = 256"
    "shows_recs ([dot_rec s p, dotdot_rec s p par] @ rs) ((bytes ''.'', p) # (bytes ''..'', par) # xs) \<longleftrightarrow> shows_recs rs xs"
  using assms by (simp_all add: dot_rec_def dotdot_rec_def bytes_def)

lemma readdir_run:
  assumes v: "vd \<noteq> 0" "vnodes s vd = Some v" "v_data v = p" "p \<noteq> 0" and n: "ramnodes s p = Some n" "ramlock n = 0" "n_union n = Dir first par sq"
    and j: "\<And>k. length (junk_bytes s k) = k"
  defines "s1 \<equiv> s\<lparr>ramnodes := (ramnodes s)(p := Some (n\<lparr>ramlock := 1\<rparr>))\<rparr>" and "rs \<equiv> [dot_rec s p, dotdot_rec s p par]"
  shows "first = 0 \<Longrightarrow> ramfs_readdir vd count 0 s = Inr (0, rs, 31, SEQ_EOF, s)"
    "first \<noteq> 0 \<Longrightarrow> dentries s first = Some x \<Longrightarrow> d_seq x \<noteq> SEQ_EOF \<Longrightarrow>
       readdir_loop (fs_fuel s1) first (dotdot_rec s p par) rs (count - 31) s1 = Inr (buf, resid, off) \<Longrightarrow>
       ramfs_readdir vd count 0 s = Inr (0, buf, count - resid, off, s)"
proof -
  let ?d = "\<lparr>de_ino = junk_ptr s, de_reclen = junk_ptr s, de_type = junk_ptr s, de_name = junk_bytes s 256\<rparr>"
  have d1: "ramfs_make_dirent p ?d (cstr (bytes ''.'')) = Inr (dot_rec s p)"
    using make_dirent_spec [of "bytes ''.''" ?d p "[]"] j by (simp add: dot_rec_def cstr_def bytes_def)
  have d2: "ramfs_make_dirent par (dot_rec s p) (cstr (bytes ''..'')) = Inr (dotdot_rec s p par)"
    using make_dirent_spec [of "bytes ''..''" "dot_rec s p" par "[]"] j by (simp add: dot_rec_def dotdot_rec_def cstr_def bytes_def)
  have l: "de_reclen (dot_rec s p) = 15" "de_reclen (dotdot_rec s p par) = 16" by (simp_all add: dot_rec_def dotdot_rec_def bytes_def)
  have rel: "release_node p s1 = Inr s" using v(4) n(1,2) by (simp add: s1_def fs_eval fun_upd_idem release_def)
  have acq: "acquire_node p s = Inr s1" using v(4) n(1,2) by (simp add: s1_def fs_eval acquire_def atomic_exchange_def)
  have s1: "ramnodes s1 p = Some (n\<lparr>ramlock := 1\<rparr>)" "dentries s1 = dentries s" by (simp_all add: s1_def)
  show "ramfs_readdir vd count 0 s = Inr (0, rs, 31, SEQ_EOF, s)" if "first = 0"
    using v n(3) acq d1 d2 l rel s1 that
    by (simp add: ramfs_readdir_def Let_def as_dir_def SEQ_DOT_def SEQ_DOTDOT_def rs_def cong: ebind_arg_cong)
  show "ramfs_readdir vd count 0 s = Inr (0, buf, count - resid, off, s)"
    if "first \<noteq> 0" "dentries s first = Some x" "d_seq x \<noteq> SEQ_EOF" "readdir_loop (fs_fuel s1) first (dotdot_rec s p par) rs (count - 31) s1 = Inr (buf, resid, off)"
  proof -
    have "seek_dentry (fs_fuel s1) first (d_seq x) s1 = Inr first" using that(1,2) s1(2) by (simp add: fs_fuel_def)
    moreover have "count - 15 - 16 = count - 31" by simp
    ultimately show ?thesis using v n(3) acq d1 d2 l rel s1 that
      by (simp add: ramfs_readdir_def Let_def as_dir_def SEQ_DOT_def SEQ_DOTDOT_def rs_def cong: ebind_arg_cong)
  qed
qed

lemma readdir_spec:
  assumes wf: "ramfs_wf s E dots" and j: "\<And>k. length (junk_bytes s k) = k" and v: "vd \<noteq> 0" "vnodes s vd = Some v" "v_data v = p"
    and n: "ramnodes s p = Some n" "n_type n = VDIR" "ramlock n = 0" and sh: "\<forall>e \<in> set (E p). showable s e"
    and t: "ws = (bytes ''.'', p) # (bytes ''..'', dir_parent (n_union n)) # listing s E p" "recs ws \<le> unat count"
  shows "\<exists>rs. ramfs_readdir vd count 0 s = Inr (0, rs, of_nat (recs ws), if E p = [] then SEQ_EOF else seq_of s (last (E p)), s) \<and>
    shows_recs rs ws \<and>
    map de_type (drop 2 rs) = map (\<lambda>e. shown (n_type (the (ramnodes s (enode s e))))) (E p)"
proof -
  obtain first par sq where d: "n_union n = Dir first par sq" "dchain (dentries s) first (E p)" "p \<noteq> 0" "length (E p) < fs_fuel s"
    using dir_nodeE [OF wf n(1,2)] by metis
  note run = readdir_run [OF v d(3) n(1,3) d(1) j]
  let ?rs = "[dot_rec s p, dotdot_rec s p par]" and ?s1 = "s\<lparr>ramnodes := (ramnodes s)(p := Some (n\<lparr>ramlock := 1\<rparr>))\<rparr>"
  have ws: "ws = (bytes ''.'', p) # (bytes ''..'', par) # map (named s) (E p)" using t(1) d(1) by (simp add: listing_def)
  have w: "recs ws = 31 + recs (map (named s) (E p))" using t(1) by (simp add: listing_def bytes_def)
  show ?thesis
  proof (cases "E p")
    case Nil
    then have "first = 0" using d(2) by simp
    then have "ramfs_readdir vd count 0 s = Inr (0, ?rs @ [], of_nat (recs ws), SEQ_EOF, s)" using run(1) Nil unfolding w by simp
    moreover have "shows_recs (?rs @ []) ws" unfolding ws dot_recs(2) [OF j] using Nil by simp
    ultimately show ?thesis using Nil by (intro exI [of _ "?rs @ []"]) simp
  next
    case (Cons e es)
    then obtain x where x: "first = e" "first \<noteq> 0" "dentries s first = Some x" using d(2) by auto
    have eof: "d_seq x \<noteq> SEQ_EOF" using sh Cons x by (simp add: showable_def seq_of_def)
    have sel: "ename ?s1 = ename s" "enode ?s1 = enode s" "seq_of ?s1 = seq_of s" by (simp_all add: ename_def enode_def seq_of_def fun_eq_iff)
    have ty: "n_type (the (ramnodes ?s1 q)) = n_type (the (ramnodes s q))" for q using n(1) by simp
    have "entry_shown s a" if "a \<in> set (E p)" for a using showable_shown [OF wf that] sh that by blast
    then have es: "\<forall>a \<in> set (E p). entry_shown ?s1 a" using n(1,2) by (auto simp: entry_shown_def ename_def enode_def)
    have c31: "unat (count - 31) = unat count - 31" using t(2) w by (subst unat_sub) (simp_all add: word_le_nat_alt)
    have "recs (map (named ?s1) (E p)) \<le> unat (count - 31)" "length (E p) \<le> fs_fuel ?s1" "dchain (dentries ?s1) first (E p)" "E p \<noteq> []"
      using t(2) w c31 d(2,4) Cons by (simp_all add: sel fs_fuel_def)
    from readdir_loop_spec [OF this(3,4,2) es dot_recs(1) [OF j, of p par] this(1), of ?rs, unfolded sel ty] obtain r where
      r: "readdir_loop (fs_fuel ?s1) first (dotdot_rec s p par) ?rs (count - 31) ?s1 =
        Inr (?rs @ r, count - 31 - of_nat (recs (map (named s) (E p))), seq_of s (last (E p)))"
        "shows_recs r (map (named s) (E p))" "map de_type r = map (\<lambda>e. shown (n_type (the (ramnodes s (enode s e))))) (E p)"
      by blast
    have "ramfs_readdir vd count 0 s = Inr (0, ?rs @ r, of_nat (recs ws), seq_of s (last (E p)), s)" using run(2) [OF x(2,3) eof r(1)] unfolding w by simp
    moreover have "shows_recs (?rs @ r) ws" unfolding ws dot_recs(2) [OF j] by (rule r(2))
    ultimately show ?thesis using Cons r(3) by (intro exI [of _ "?rs @ r"]) simp
  qed
qed

subsection \<open>vfs_readdir and printdir\<close>

lemma dir_names_nonempty:
  assumes "ramfs_inv s"
  shows "\<forall>(t, q) \<in> set (dir_names s p). t \<noteq> []"
proof -
  obtain E dots where wf: "ramfs_wf s E dots" "\<And>p. dir_names s p = listing s E p" using ramfs_invE [OF assms] by metis
  have "ename s e \<noteq> []" if "e \<in> set (E p)" for e using entries_okD [OF ramfs_wfD(2) [OF wf(1)] that] by (metis ename_def good_name_def option.sel)
  then show ?thesis using wf(2) by (auto simp: listing_def)
qed

lemma sint_of_nat_64: "k < 2 ^ 63 \<Longrightarrow> sint (of_nat k :: u64) = int k"
proof -
  assume "k < 2 ^ 63"
  then have "uint (of_nat k :: u64) = int k" by (simp add: uint_nat unat_of_nat_64)
  then show ?thesis using \<open>k < 2 ^ 63\<close> by (simp add: sint_uint signed_take_bit_int_eq_self)
qed

lemma vfs_readdir_spec:
  assumes inv: "ramfs_inv s" and v: "dir_vnode s vd p" "vnodes s vd = Some v" "v_lock v = 0"
    and sh: "\<forall>e \<in> set (dir_entries s p). showable s e" and room: "recs (whole s p) \<le> unat nbytes" "unat nbytes < 2 ^ 63"
  obtains rs off where "vfs_readdir vd nbytes 0 s = Inr (int (recs (whole s p)), rs, off, s)" "shows_recs rs (whole s p)"
    "map de_type (drop 2 rs) = map (\<lambda>(t, q). shown (n_type (the (ramnodes s q)))) (dir_names s p)"
proof -
  obtain E dots where wf: "ramfs_wf s E dots" "unlocked s" "kalloc_ok s" "\<And>p. dir_names s p = listing s E p" using ramfs_invE [OF inv] by metis
  obtain n where n: "ramnodes s p = Some n" "n_type n = VDIR" "vd \<noteq> 0" "v_type v = VDIR" "v_data v = p" using v(1,2) by (auto simp: dir_vnode_def)
  have "dir_entries s p = E p" using dir_nodeE [OF wf(1) n(1,2)] dents_chain n(1,2) by (fastforce simp: dir_entries_def)
  then have sh': "\<forall>e \<in> set (E p). showable s e" using sh by simp
  let ?s = "s\<lparr>vnodes := (vnodes s)(vd := Some (v\<lparr>v_lock := 1\<rparr>))\<rparr>"
  have j: "\<And>k. length (junk_bytes ?s k) = k" using wf(3) by (simp add: kalloc_ok_def)
  have wf': "ramfs_wf ?s E dots" using vnode_upd_wf [OF wf(1), of vd v "v\<lparr>v_lock := 1\<rparr>"] v(2) by (simp add: put_vnode_def)
  have l: "ramlock n = 0" using wf(2) n(1) by (simp add: unlocked_def)
  have sel: "listing ?s = listing s" "showable ?s = showable s" "enode ?s = enode s"
    by (simp_all add: listing_def showable_def ename_def enode_def seq_of_def fun_eq_iff)
  have w: "whole s p = (bytes ''.'', p) # (bytes ''..'', dir_parent (n_union n)) # listing ?s E p" using wf(4) n(1) by (simp add: whole_def sel)
  obtain rs off where rs: "ramfs_readdir vd nbytes 0 ?s = Inr (0, rs, of_nat (recs (whole s p)), off, ?s)" "shows_recs rs (whole s p)"
    "map de_type (drop 2 rs) = map (\<lambda>e. shown (n_type (the (ramnodes s (enode s e))))) (E p)"
    using readdir_spec [OF wf' j, of vd "v\<lparr>v_lock := 1\<rparr>" p n "whole s p" nbytes] n l sh' w room(1) sel by auto
  have "vfs_readdir vd nbytes 0 s = Inr (int (recs (whole s p)), rs, off, s)"
    using rs(1) v(2,3) n(3,4) room sint_of_nat_64 [of "recs (whole s p)"]
    by (simp add: vfs_readdir_def fs_eval acquire_def atomic_exchange_def release_def fun_upd_idem)
  then show thesis using that rs(2,3) wf(4) by (auto simp: listing_def)
qed

text \<open>What \<open>printdir\<close> puts on the terminal: every name with a tab behind it.\<close>

definition printed :: "(u8 list \<times> ptr) list \<Rightarrow> io_event list" where
  "printed xs = concat (map (\<lambda>(t, _). [Term t, Term [9]]) xs)"

lemma print_char: "c \<noteq> 0 \<Longrightarrow> print_lock io = 0 \<Longrightarrow> print (cstr [c]) io = Inr (io\<lparr>io_log := io_log io @ [Term [c]]\<rparr>)"
  using print_free [of io "cstr [c]" 1] strlen_spec [of "[c]" "[]"] by (simp add: cstr_def)

lemma print_name:
  assumes "print_lock io = 0" "rec_of d = (t, q)" "t \<noteq> []" "0 \<in> set (de_name d)"
  shows "print (de_name d) io = Inr (io\<lparr>io_log := io_log io @ [Term t]\<rparr>)"
proof -
  obtain u r where r: "de_name d = u @ 0 # r" "0 \<notin> set u" using split_list_first [OF assms(4)] by blast
  then have "takeWhile (\<lambda>c. c \<noteq> 0) (de_name d) = u" by (auto simp: takeWhile_tail)
  then have "u = t" using assms(2) by (simp add: rec_of_def)
  then show ?thesis using print_free [OF assms(1) strlen_spec, of t r] assms(3) r by simp
qed

lemma print_records_spec:
  assumes "print_lock io = 0" "shows_recs rs xs" "\<forall>(t, q) \<in> set xs. t \<noteq> []"
  shows "print_records rs i (i + int (recs xs)) io = Inr (io\<lparr>io_log := io_log io @ printed xs\<rparr>)"
  using assms
proof (induction rs arbitrary: xs i io)
  case (Cons r rs)
  obtain t q ys where xs: "xs = (t, q) # ys" using Cons.prems(2) by (cases "rec_of r"; cases xs; auto simp: shows_recs_def)
  let ?io = "io\<lparr>io_log := io_log io @ [Term t, Term [9]]\<rparr>"
  have tab: "print (cstr [9]) (io\<lparr>io_log := io_log io @ [Term t]\<rparr>) = Inr ?io" using Cons.prems(1) by (simp add: print_char)
  have "print (de_name r) io = Inr (io\<lparr>io_log := io_log io @ [Term t]\<rparr>)" by (rule print_name) (use Cons.prems xs in auto)
  then have "print_records (r # rs) i (i + int (recs xs)) io = print_records rs (i + int (14 + length t)) (i + int (14 + length t) + int (recs ys)) ?io"
    using tab Cons.prems(2) xs by (simp add: algebra_simps)
  also have "\<dots> = Inr (?io\<lparr>io_log := io_log ?io @ printed ys\<rparr>)" by (rule Cons.IH) (use Cons.prems xs in auto)
  finally show ?case by (simp add: xs printed_def)
qed (auto simp: printed_def)

text \<open>
  C15 (listing a directory).  In a well-formed file system \<open>vfs_readdir\<close> with room for all records returns their total length and one record each
  for \<^verbatim>\<open>.\<close>, \<^verbatim>\<open>..\<close> and every entry, newest first, with its name, node and length, and leaves the file system as it was; the type shown for a regular file is
  that of a directory, because a \<^verbatim>\<open>break\<close> is missing.  \<open>printdir\<close> prints exactly these names.
\<close>

theorem printdir_prints:
  assumes "ramfs_inv s" "dir_vnode s vd p" "vnodes s vd = Some v" "v_lock v = 0"
    and "\<forall>e \<in> set (dir_entries s p). showable s e" "recs (whole s p) \<le> 4096" and "print_lock io = 0"
  shows "\<exists>rs off. vfs_readdir vd 4096 0 s = Inr (int (recs (whole s p)), rs, off, s) \<and> shows_recs rs (whole s p) \<and>
    map de_type (drop 2 rs) = map (\<lambda>(t, q). shown (n_type (the (ramnodes s q)))) (dir_names s p) \<and>
    printdir vd s io = Inr (s, io\<lparr>io_log := io_log io @ Term [10] # printed (whole s p)\<rparr>)"
proof -
  have c: "recs (whole s p) \<le> unat (4096 :: u64)" "unat (4096 :: u64) < 2 ^ 63" using assms(6) by simp_all
  obtain rs off where r: "vfs_readdir vd 4096 0 s = Inr (int (recs (whole s p)), rs, off, s)" "shows_recs rs (whole s p)"
    "map de_type (drop 2 rs) = map (\<lambda>(t, q). shown (n_type (the (ramnodes s q)))) (dir_names s p)"
    by (rule vfs_readdir_spec [OF assms(1-5) c])
  have "\<forall>(t, q) \<in> set (dir_names s p). t \<noteq> []" by (rule dir_names_nonempty [OF assms(1)])
  then have ne: "\<forall>(t, q) \<in> set (whole s p). t \<noteq> []" by (auto simp: whole_def bytes_def)
  have nl: "print (cstr [10]) io = Inr (io\<lparr>io_log := io_log io @ [Term [10]]\<rparr>)" using assms(7) by (simp add: print_char)
  have "print_records rs 0 (0 + int (recs (whole s p))) (io\<lparr>io_log := io_log io @ [Term [10]]\<rparr>) =
      Inr (io\<lparr>io_log := io_log io @ Term [10] # printed (whole s p)\<rparr>)"
    using print_records_spec [of "io\<lparr>io_log := io_log io @ [Term [10]]\<rparr>" rs "whole s p" 0] r(2) ne assms(7) by simp
  then show ?thesis using r nl by (intro exI [of _ rs] exI [of _ off]) (simp add: printdir_def)
qed

text \<open>The root directory with one regular file \<^verbatim>\<open>a\<close>.\<close>

definition listed_fs :: fs where
  "listed_fs = root_fs\<lparr>next_ptr := 7, dentries := [6 \<mapsto> \<lparr>d_next = 0, d_node = 5, d_seq = 3, d_name = cstr (bytes ''a'')\<rparr>],
     ramnodes := [2 \<mapsto> \<lparr>n_prev = 5, n_next = 0, n_vnode = 1, n_type = VDIR, ramlock = 0, linkcount = 3, n_union = Dir 6 2 4\<rparr>,
       5 \<mapsto> \<lparr>n_prev = 0, n_next = 2, n_vnode = 0, n_type = VREG, ramlock = 0, linkcount = 1, n_union = Reg None 0\<rparr>]\<rparr>"

lemma listed_fs_inv: "ramfs_inv listed_fs" "dir_vnode listed_fs 1 2"
proof -
  let ?E = "(\<lambda>_. [])(2 := [6])"
  have pt: "pointing listed_fs ?E q = (if q = 5 then {6} else {})" for q
    by (auto simp: pointing_def enode_def listed_fs_def split: if_splits)
  have "entries_ok listed_fs ?E" by (auto simp: entries_ok_def listed_fs_def bytes_def split: if_splits)
  moreover have "links_ok listed_fs ?E ((\<lambda>_. 0)(2 := 2))" unfolding links_ok_def pt by (auto simp: listed_fs_def split: if_splits)
  moreover have "bounded listed_fs" by (auto simp: bounded_def listed_fs_def root_fs_def split: if_splits)
  moreover have "node_ok listed_fs ?E q n" if "ramnodes listed_fs q = Some n" for q n
    using that by (auto simp: node_ok_def listed_fs_def root_fs_def ptr_ok_def split: if_splits)
  ultimately have "ramfs_wf listed_fs ?E ((\<lambda>_. 0)(2 := 2))" by (simp add: ramfs_wf_def)
  moreover have "unlocked listed_fs" "kalloc_ok listed_fs" by (auto simp: unlocked_def kalloc_ok_def zeroed_def listed_fs_def root_fs_def split: if_splits)
  ultimately show "ramfs_inv listed_fs" by (auto simp: ramfs_inv_def)
  show "dir_vnode listed_fs 1 2" by (simp add: dir_vnode_def mount_ok_def ptr_ok_def listed_fs_def root_fs_def)
qed

theorem printdir_prints_witness:
  "printdir 1 listed_fs \<lparr>in_vals = (\<lambda>_. 0), in_count = 0, io_log = [], print_lock = 0\<rparr> =
     Inr (listed_fs, \<lparr>in_vals = (\<lambda>_. 0), in_count = 0, io_log = [Term [10], Term (bytes ''.''), Term [9], Term (bytes ''..''), Term [9], Term (bytes ''a''), Term [9]], print_lock = 0\<rparr>)"
proof -
  let ?io = "\<lparr>in_vals = (\<lambda>_. 0), in_count = 0, io_log = [], print_lock = 0\<rparr>"
  have e: "dir_entries listed_fs 2 = [6]" by (simp add: dir_entries_def listed_fs_def fs_fuel_def eval_nat_numeral)
  then have n: "dir_names listed_fs 2 = [(bytes ''a'', 5)]" by (simp add: dir_names_entries ename_def enode_def listed_fs_def)
  have "showable listed_fs 6" by (simp add: showable_def ename_def enode_def seq_of_def SEQ_EOF_def listed_fs_def bytes_def cstr_def)
  then have "\<forall>e \<in> set (dir_entries listed_fs 2). showable listed_fs e" unfolding e by simp
  moreover have "recs (whole listed_fs 2) \<le> 4096" unfolding whole_def n by (simp add: bytes_def)
  moreover have "vnodes listed_fs 1 = Some (the (vnodes listed_fs 1))" "v_lock (the (vnodes listed_fs 1)) = 0" "print_lock ?io = 0"
    by (simp_all add: listed_fs_def root_fs_def)
  ultimately show ?thesis
    using printdir_prints [OF listed_fs_inv, of _ ?io] unfolding whole_def n printed_def by auto
qed

end
