(* ===== verification/Spec2Isabelle.thy ===== *)
theory Spec2Isabelle
  imports Kernel_Prelude Spinlock Mmu Page_Allocator Pmm Cstring Slab Vmm Fs_State Name_Space Ramfs Ramfs_File Ramfs_Dir Ramfs_Ops Vfs Vfs_Ops Initramfs
    Proc Ports Kbd Descriptors Byte_Memory Exec_Args Acpi Address_Space Word_Bytes Elf_Load Exec Lapic Startup Fs_Types Readdir
begin

text \<open>
  A verification library for the Franklin kernel, a small x86-64 kernel in C (\<^verbatim>\<open>src/kernel\<close>, \<^verbatim>\<open>src/fs\<close>,
  \<^verbatim>\<open>src/include\<close>).

  \<^bold>\<open>The program and the theories that model it.\<close>

  \<^item> \<open>Kernel_Prelude\<close>: machine words, the error type, results (\<open>Inl\<close> an error, \<open>Inr\<close> a value) and their composition \<open>ebind\<close>, the
    rounding macros of \<^verbatim>\<open>misc.h\<close>, lemmas on lists and words, the collections of rewrite rules.
  \<^item> \<open>Spinlock\<close> (\<^verbatim>\<open>spinlock.c\<close>): the operations on the lock word; several threads on one lock as a step relation.  On one thread, waiting for
    a lock that nobody can release is the error \<open>Deadlock\<close>.
  \<^item> \<open>Page_Allocator\<close>, \<open>Pmm\<close> (\<^verbatim>\<open>pmm.c\<close>, \<^verbatim>\<open>bitmap.h\<close>): the interface of an allocator of page frames as a locale, and the frame
    bitmap, which is an instance of it.  The state is the bitmap as a list of bytes and the lock.
  \<^item> \<open>Cstring\<close> (\<^verbatim>\<open>string.c\<close>): the string routines on byte lists; an access outside the list is \<open>BadAccess\<close>.
  \<^item> \<open>Mmu\<close>, \<open>Slab\<close>, \<open>Vmm\<close> (\<^verbatim>\<open>mmu.h\<close>, \<^verbatim>\<open>slab.c\<close>, \<^verbatim>\<open>list.h\<close>, \<^verbatim>\<open>vmm.c\<close>, \<^verbatim>\<open>vm/vm.c\<close>): the heap and the page tables as structures in one memory of 64-bit
    words, with frames from \<open>Pmm\<close>.
  \<^item> \<open>Fs_State\<close>, \<open>Ramfs\<close>, \<open>Ramfs_Dir\<close>, \<open>Ramfs_File\<close>, \<open>Name_Space\<close>, \<open>Ramfs_Ops\<close> (\<^verbatim>\<open>fs/vfs.h\<close>, \<^verbatim>\<open>ramfs.c\<close>): the objects of the file system as
    a typed store, the ramfs operations on it, the well-formedness of the store (\<open>ramfs_wf\<close>, \<open>ramfs_inv\<close>), directories as
    chains of entries, files as byte arrays, and the interface \<open>Name_Space\<close> of directories as plain maps with its refinement.
  \<^item> \<open>Vfs\<close>, \<open>Vfs_Ops\<close>, \<open>Fs_Types\<close> (\<^verbatim>\<open>vfs.c\<close>): path resolution over mounts and symbolic links, the \<open>vfs_*\<close> calls, what they do, and that all of
    them keep the types of files.
  \<^item> \<open>Readdir\<close> (\<^verbatim>\<open>ramfs.c\<close>, \<^verbatim>\<open>vfs.c\<close>): reading a directory as a sequence of records, and \<open>printdir\<close>.
  \<^item> \<open>Initramfs\<close> (\<^verbatim>\<open>initramfs.c\<close>): the walk over the boot loader's tar image.
  \<^item> \<open>Proc\<close> (\<^verbatim>\<open>proc.c\<close>, \<^verbatim>\<open>apic.c\<close>, \<^verbatim>\<open>switch.asm\<close>): the process table, creating and starting processes, switching stacks, the scheduler and
    the timer interrupt; the stacks lie in the memory of \<open>Slab\<close>.
  \<^item> \<open>Byte_Memory\<close>, \<open>Exec_Args\<close>, \<open>Acpi\<close> (\<^verbatim>\<open>proc.c\<close>, \<^verbatim>\<open>acpi.c\<close>, \<^verbatim>\<open>apic.c\<close>): memory as single bytes, the initial stack that \<open>copyargs\<close> writes for a
    program, the search for a firmware table and the walk over the MADT.
  \<^item> \<open>Address_Space\<close>, \<open>Word_Bytes\<close>, \<open>Elf_Load\<close>, \<open>Exec\<close> (\<^verbatim>\<open>proc.c\<close>): growing an address space page by page, words of memory as bytes, \<open>loadelf\<close>
    and \<open>exec\<close>.  Here the file system, the page tables, the heap, the process table and the segment descriptors are used together.
  \<^item> \<open>Lapic\<close>, \<open>Startup\<close> (\<^verbatim>\<open>apic.c\<close>, \<^verbatim>\<open>time.c\<close>, \<^verbatim>\<open>io.c\<close>, \<^verbatim>\<open>kernel.c\<close>, \<^verbatim>\<open>panic.c\<close>, \<^verbatim>\<open>syscall.c\<close>): the registers of the local interrupt controller as a
    log of writes; the threads of \<open>kmain\<close>, panics and the system call dispatcher.
  \<^item> \<open>Ports\<close>, \<open>Kbd\<close>, \<open>Descriptors\<close> (\<^verbatim>\<open>x86.h\<close>, \<^verbatim>\<open>pic.c\<close>, \<^verbatim>\<open>time.c\<close>, \<^verbatim>\<open>kernel.c\<close>, \<^verbatim>\<open>kbd.c\<close>, \<^verbatim>\<open>idt.c\<close>, \<^verbatim>\<open>interrupt.c\<close>,
    \<^verbatim>\<open>gdt.c\<close>): devices as a log of port accesses with a stream of values read, the keyboard handler as a state machine, the interrupt
    and segment tables.

  A C function is a HOL function of the same name that takes and returns the state it may change; a \<open>panic\<close>, a null or wild access and
  a lock that can never be had are error values, so that a theorem with \<open>Inr\<close> on its right-hand side also says that none of
  them happens.  Every operation has its early returns and its error codes as in the source.

  \<^bold>\<open>What is shown.\<close>  The frame allocator finds the lowest free window, never hands a frame out twice and gets everything back;
  the heap hands out disjoint blocks of the right size; mapping a page changes exactly one translation, and
  an address space gives back exactly its frames.  Every history of creations and removals in ramfs has the effect of the
  same history on plain maps and keeps the store well formed; what is written is read back; nodes are freed exactly when neither a
  name nor a reference is left.  Paths resolve in at most as many rounds as they have bytes; creating, opening, closing
  and unlinking by path do what their names say and leave locks and reference counts as they found them; a listing shows every entry once.  The start-up of the file system
  and the ramdisk, below, compose all of it.  A stack switch and its inverse restore the processor; at any time exactly one
  process is running; the scheduler takes the first runnable process in cyclic order.  Interrupt gates lead where \<open>trap\<close>
  expects them.  A program finds its arguments and auxiliary values on its stack; \<open>exec\<close> enters it in user mode at its entry point, in an address
  space that shows its segments.  Every sequence of file system calls keeps the union in a node in step with its type.  The timer of the interrupt controller is started with the
  measured count.  Of the three threads that \<open>kmain\<close> creates only the last ever runs.  Some theorems state what the code does where that is not what it means to do; they say so in their text.

  \<^bold>\<open>Bounds and fuel.\<close>  Loops whose end depends on the data have a number of rounds as an argument, and running out is the error \<open>NoFuel\<close>.
  \<open>fs_fuel\<close> is the number of objects ever allocated, more than any chain of a well-formed store is long; \<open>ramfs_write\<close> doubles a 64-bit
  size, so 65 rounds of \<open>grow\<close> are enough for everything below \<open>2 ^ 63\<close>; \<open>NAMEI_FUEL\<close> bounds the symbolic links that \<open>namei\<close> follows, which the
  code does not bound, at 64; the scheduler sees the whole table in 2 searches; \<open>initramfs\<close> takes a number of rounds as argument, and one more than there
  are files is enough; so do the search for a firmware table and the walk over the MADT.  The theorems show that these are enough wherever they state a result.

  \<^bold>\<open>Not modelled.\<close>  The rest of \<open>kmain\<close>, which calls the initialisers of the components one after the other and the test routines \<open>test_slab\<close> and
  \<open>ramfs_t\<close>; the start of the second processor (\<^verbatim>\<open>cpu.c\<close>), whose call is commented out; the assembly stubs but for
  the stack switch and the return to a process; the older copies of ramfs functions in \<^verbatim>\<open>ramfs_subr.c\<close>; the headers of
  the boot protocol and of ELF.  Interrupts do not occur in the middle of an operation, and there is one processor except in \<open>Spinlock\<close>.
\<close>

section \<open>From an empty store to the files of the ramdisk\<close>

lemma boot_load_run:
  assumes "empty_store s" "kalloc_ok s" and "archive img es" "length img < 2 ^ 63"
    and "\<forall>(t, d) \<in> set es. plain t" "apart es" and "length es < fuel"
  obtains s1 s3 p v where "vfs_mount None (cstr (bytes ''ramfs'')) (init_rootfs s) = Inr (0, s1)" "init_rootvn s1 = Inr (boot_fs s)"
    "initramfs fuel (Some (img # ms)) (boot_fs s) = Inr s3" "ramfs_inv s3" "root_ready s3 p v" "map fst (dir_names s3 p) = rev (map fst es)"
    "\<forall>(t, d) \<in> set es. \<exists>vn s4. vfs_open (cstr (47 # t)) VNON 0 s3 = Inr (0, Some vn, s4) \<and> reads_as s4 vn d \<and> junk_bytes s4 = junk_bytes s3"
proof -
  obtain s1 where s1: "vfs_mount None (cstr (bytes ''ramfs'')) (init_rootfs s) = Inr (0, s1)" "init_rootvn s1 = Inr (boot_fs s)"
    using boot_run [OF assms(1,2)] by (auto simp: ebind_eq_Inr)
  note wf = boot_fs_wf [OF assms(1,2)]
  have "\<forall>(t, d) \<in> set es. plain t \<and> first_match (boot_fs s) (Suc (Suc (next_ptr s))) t = None"
    using assms(5) by (auto simp: first_match_def wf(2))
  from initramfs_run [OF wf(1,3) assms(3,4) this assms(6,7), of ms] wf(2) show thesis using that [OF s1] by (elim exE conjE) simp
qed



end
